(* ===== verification/Prelude.thy ===== *)
theory Prelude
  imports Main "HOL-Library.Word"
begin

text \<open>
  Shared vocabulary of the development: the machine integer types of the Rust
  sources, the result type that carries a value, an error or a panic, checked
  arithmetic under the two overflow profiles of \<^verbatim>\<open>Cargo.toml\<close>, slices with Rust's
  bounds checks, and big-endian integers.  The generic lemmas that the component
  theories rely on are collected in \<^verbatim>\<open>result_simps\<close> and \<^verbatim>\<open>bytes_simps\<close>.
\<close>

unbundle bit_operations_syntax

named_theorems result_simps "unfolding of the result combinators and checked operations"
named_theorems bytes_simps "lengths and round trips of byte encodings"

subsection \<open>Machine integers\<close>

text \<open>
  An \<^verbatim>\<open>i64\<close> is a \<^typ>\<open>64 word\<close> read by \<^const>\<open>sint\<close>; a \<^verbatim>\<open>u64\<close> is the same word read by
  \<^const>\<open>uint\<close>.  The casts \<^verbatim>\<open>as u64\<close> and \<^verbatim>\<open>as i64\<close> keep the bits.  An \<^verbatim>\<open>f64\<close> is its bit
  pattern (\<^verbatim>\<open>to_bits\<close>).  Lengths and in-memory indices (\<^verbatim>\<open>usize\<close>) are \<^typ>\<open>nat\<close>.
\<close>

type_synonym u8 = "8 word"
type_synonym u16 = "16 word"
type_synonym u32 = "32 word"
type_synonym u64 = "64 word"
type_synonym i64 = "64 word"
type_synonym f64 = "64 word"
type_synonym bytes = "8 word list"

subsection \<open>Results\<close>

datatype ('e, 'a) result = Ok 'a | Err 'e | Panic

fun rbind :: "('e, 'a) result \<Rightarrow> ('a \<Rightarrow> ('e, 'b) result) \<Rightarrow> ('e, 'b) result" where
  "rbind (Ok x) f = f x"
| "rbind (Err e) f = Err e"
| "rbind Panic f = Panic"

fun rmap :: "('a \<Rightarrow> 'b) \<Rightarrow> ('e, 'a) result \<Rightarrow> ('e, 'b) result" where
  "rmap f (Ok x) = Ok (f x)"
| "rmap f (Err e) = Err e"
| "rmap f Panic = Panic"

fun map_err :: "('e \<Rightarrow> 'f) \<Rightarrow> ('e, 'a) result \<Rightarrow> ('f, 'a) result" where
  "map_err f (Ok x) = Ok x"
| "map_err f (Err e) = Err (f e)"
| "map_err f Panic = Panic"

fun unwrap :: "('e, 'a) result \<Rightarrow> ('f, 'a) result" where
  "unwrap (Ok x) = Ok x"
| "unwrap (Err e) = Panic"
| "unwrap Panic = Panic"

fun ok_or :: "'e \<Rightarrow> 'a option \<Rightarrow> ('e, 'a) result" where
  "ok_or e (Some x) = Ok x"
| "ok_or e None = Err e"

fun is_ok :: "('e, 'a) result \<Rightarrow> bool" where
  "is_ok (Ok x) = True"
| "is_ok (Err e) = False"
| "is_ok Panic = False"

fun no_panic :: "('e, 'a) result \<Rightarrow> bool" where
  "no_panic (Ok x) = True"
| "no_panic (Err e) = True"
| "no_panic Panic = False"

lemma rbind_cong [fundef_cong]:
  "m = m' \<Longrightarrow> (\<And>x. m' = Ok x \<Longrightarrow> f x = g x) \<Longrightarrow> rbind m f = rbind m' g"
  by (cases m') auto

fun_cases rbind_OkE: "rbind m f = Ok y"

lemma rbind_eq_Ok: "rbind m f = Ok y \<longleftrightarrow> (\<exists>x. m = Ok x \<and> f x = Ok y)"
  by (cases m) auto

lemma rbind_eq_Panic: "rbind m f = Panic \<longleftrightarrow> m = Panic \<or> (\<exists>x. m = Ok x \<and> f x = Panic)"
  by (cases m) auto

lemma rbind_assoc: "rbind (rbind m f) g = rbind m (\<lambda>x. rbind (f x) g)"
  by (cases m) auto

lemma rmap_eq_Ok: "rmap f m = Ok y \<longleftrightarrow> (\<exists>x. m = Ok x \<and> y = f x)"
  by (cases m) auto

lemma rmap_eq_Panic [simp]: "rmap f m = Panic \<longleftrightarrow> m = Panic"
  by (cases m) auto

lemma map_err_eq_Ok [simp]: "map_err f m = Ok y \<longleftrightarrow> m = Ok y"
  by (cases m) auto

lemma no_panic_iff: "no_panic m \<longleftrightarrow> m \<noteq> Panic"
  by (cases m) auto

lemma is_ok_iff: "is_ok m \<longleftrightarrow> (\<exists>x. m = Ok x)"
  by (cases m) auto

subsection \<open>Checked and wrapping arithmetic\<close>

text \<open>
  The flag \<^verbatim>\<open>oc\<close> is \<^verbatim>\<open>overflow-checks\<close> of the build profile: true for the dev and test
  profiles, where \<^verbatim>\<open>+\<close>, \<^verbatim>\<open>-\<close> and \<^verbatim>\<open>*\<close> panic on overflow, false for release and bench, where
  they wrap.
\<close>

definition sadd_ok :: "'a::len word \<Rightarrow> 'a word \<Rightarrow> bool" where
  "sadd_ok a b \<longleftrightarrow> sint (a + b) = sint a + sint b"

definition add_i64 :: "bool \<Rightarrow> i64 \<Rightarrow> i64 \<Rightarrow> ('e, i64) result" where
  "add_i64 oc a b = (if oc \<and> \<not> sadd_ok a b then Panic else Ok (a + b))"

definition add_u64 :: "bool \<Rightarrow> u64 \<Rightarrow> u64 \<Rightarrow> ('e, u64) result" where
  "add_u64 oc a b = (if oc \<and> 2 ^ 64 \<le> unat a + unat b then Panic else Ok (a + b))"

definition sub_u64 :: "bool \<Rightarrow> u64 \<Rightarrow> u64 \<Rightarrow> ('e, u64) result" where
  "sub_u64 oc a b = (if oc \<and> a < b then Panic else Ok (a - b))"

definition mul_u64 :: "bool \<Rightarrow> u64 \<Rightarrow> u64 \<Rightarrow> ('e, u64) result" where
  "mul_u64 oc a b = (if oc \<and> 2 ^ 64 \<le> unat a * unat b then Panic else Ok (a * b))"

definition add_u32 :: "bool \<Rightarrow> u32 \<Rightarrow> u32 \<Rightarrow> ('e, u32) result" where
  "add_u32 oc a b = (if oc \<and> 2 ^ 32 \<le> unat a + unat b then Panic else Ok (a + b))"

definition sub_u8 :: "bool \<Rightarrow> u8 \<Rightarrow> u8 \<Rightarrow> ('e, u8) result" where
  "sub_u8 oc a b = (if oc \<and> a < b then Panic else Ok (a - b))"

lemma add_i64_unchecked [simp]: "add_i64 False a b = Ok (a + b)"
  by (simp add: add_i64_def)

lemma add_u64_unchecked [simp]: "add_u64 False a b = Ok (a + b)"
  by (simp add: add_u64_def)

lemma sub_u64_unchecked [simp]: "sub_u64 False a b = Ok (a - b)"
  by (simp add: sub_u64_def)

lemma mul_u64_unchecked [simp]: "mul_u64 False a b = Ok (a * b)"
  by (simp add: mul_u64_def)

lemma sub_u8_fits: "b \<le> a \<Longrightarrow> sub_u8 oc a b = Ok (a - b)"
  by (auto simp: sub_u8_def)

lemma add_u32_fits: "unat a + unat b < 2 ^ 32 \<Longrightarrow> add_u32 oc a b = Ok (a + b)"
  by (simp add: add_u32_def)

lemma add_u64_fits: "unat a + unat b < 2 ^ 64 \<Longrightarrow> add_u64 oc a b = Ok (a + b)"
  by (simp add: add_u64_def)

lemma sub_u64_fits: "b \<le> a \<Longrightarrow> sub_u64 oc a b = Ok (a - b)"
  by (auto simp: sub_u64_def)

lemma mul_u64_fits: "unat a * unat b < 2 ^ 64 \<Longrightarrow> mul_u64 oc a b = Ok (a * b)"
  by (simp add: mul_u64_def)

subsection \<open>Bit widths\<close>

lemma uint_2_power: "b < LENGTH('a) \<Longrightarrow> uint ((2::'a::len word) ^ b) = 2 ^ b"
  by (rule uint_2p) (simp add: word_neq_0_conv [symmetric])

lemma word_2_power_mono:
  "b \<le> c \<Longrightarrow> c < LENGTH('a) \<Longrightarrow> (2::'a::len word) ^ b \<le> 2 ^ c"
  by (simp only: word_le_def uint_2_power order.strict_trans1 power_increasing one_le_numeral)

lemma word_2_power_strict_mono:
  "b < c \<Longrightarrow> c < LENGTH('a) \<Longrightarrow> (2::'a::len word) ^ b < 2 ^ c"
  by (simp only: word_less_def uint_2_power less_trans power_strict_increasing semiring_norm)

lemma take_bit_word_eq_self_iff:
  fixes v :: "'a::len word"
  assumes "b < LENGTH('a)"
  shows "take_bit b v = v \<longleftrightarrow> v < 2 ^ b"
  using assms by (simp add: word_uint_eq_iff unsigned_take_bit_eq take_bit_int_eq_self_iff
      word_less_def uint_2_power)

lemma unat_u64: "n < 2 ^ 64 \<Longrightarrow> unat (of_nat n :: u64) = n"
  by (rule of_nat_inverse) simp_all

subsection \<open>Slices and vectors\<close>

definition slice_from :: "'a list \<Rightarrow> nat \<Rightarrow> ('e, 'a list) result" where
  "slice_from xs i = (if i \<le> length xs then Ok (drop i xs) else Panic)"

definition slice_range :: "'a list \<Rightarrow> nat \<Rightarrow> nat \<Rightarrow> ('e, 'a list) result" where
  "slice_range xs i j = (if i \<le> j \<and> j \<le> length xs then Ok (take (j - i) (drop i xs)) else Panic)"

definition index :: "'a list \<Rightarrow> nat \<Rightarrow> ('e, 'a) result" where
  "index xs i = (if i < length xs then Ok (xs ! i) else Panic)"

definition resize :: "nat \<Rightarrow> 'a \<Rightarrow> 'a list \<Rightarrow> 'a list" where
  "resize n x xs = take n xs @ replicate (n - length xs) x"

definition write_front :: "'a list \<Rightarrow> 'a list \<Rightarrow> ('e, 'a list) result" where
  "write_front xs ys = (if length ys \<le> length xs then Ok (ys @ drop (length ys) xs) else Panic)"

declare slice_from_def [result_simps] slice_range_def [result_simps] index_def [result_simps]
  write_front_def [result_simps]

lemma length_resize [simp]: "length (resize n x xs) = n"
  by (simp add: resize_def)

lemma take_resize: "m \<le> length xs \<Longrightarrow> m \<le> n \<Longrightarrow> take m (resize n x xs) = take m xs"
  by (simp add: resize_def min_def)

lemma takeWhile_all_prefix:
  "n \<le> length (takeWhile P xs) \<Longrightarrow> n \<le> length xs \<and> (\<forall>x \<in> set (take n xs). P x)"
proof (induction xs arbitrary: n)
  case (Cons x xs)
  then show ?case by (cases n) (auto split: if_splits)
qed simp

subsection \<open>Big-endian integers\<close>

definition be_bytes :: "nat \<Rightarrow> 'a::len word \<Rightarrow> bytes" where
  "be_bytes n v = map (\<lambda>i. ucast (drop_bit (8 * i) v)) (rev [0..<n])"

definition from_be :: "bytes \<Rightarrow> 'a::len word" where
  "from_be bs = foldl (\<lambda>acc b. push_bit 8 acc OR ucast b) 0 bs"

abbreviation to_be_bytes :: "u64 \<Rightarrow> bytes" where
  "to_be_bytes \<equiv> be_bytes 8"

lemma length_be_bytes [simp, bytes_simps]: "length (be_bytes n v) = n"
  by (simp add: be_bytes_def)

lemma be_bytes_eq_Nil [simp]: "be_bytes n v = [] \<longleftrightarrow> n = 0"
  by (simp add: be_bytes_def)

lemma length_concat_be_bytes [simp, bytes_simps]:
  "length (concat (map (be_bytes n) vs)) = n * length vs"
  by (induction vs) auto

lemma be_bytes_0 [simp]: "be_bytes 0 v = []"
  by (simp add: be_bytes_def)

lemma be_bytes_Suc: "be_bytes (Suc n) v = ucast (drop_bit (8 * n) v) # be_bytes n v"
  by (simp add: be_bytes_def)

lemma from_be_snoc: "from_be (bs @ [b]) = push_bit 8 (from_be bs) OR ucast b"
  by (simp add: from_be_def)

lemma be_bytes_snoc: "be_bytes (Suc n) v = be_bytes n (drop_bit 8 v) @ [ucast v]"
  by (induction n) (simp_all add: be_bytes_Suc ac_simps)

lemma from_be_be_bytes_take:
  fixes v :: "'a::len word"
  shows "from_be (be_bytes n v) = take_bit (8 * n) v"
proof (induction n arbitrary: v)
  case 0
  then show ?case by (simp add: from_be_def)
next
  case (Suc n)
  have "push_bit 8 (take_bit (8 * n) (drop_bit 8 v)) OR ucast (ucast v :: u8) = take_bit (8 * Suc n) v"
    by (rule bit_word_eqI) (auto simp: bit_simps)
  then show ?case
    by (simp only: be_bytes_snoc from_be_snoc Suc)
qed

lemma from_be_be_bytes [simp, bytes_simps]:
  fixes v :: "'a::len word"
  assumes "LENGTH('a) \<le> 8 * n"
  shows "from_be (be_bytes n v) = v"
  using assms by (simp add: from_be_be_bytes_take take_bit_word_eq_self)

lemma be_bytes_from_be:
  assumes "length bs = n" "8 * n \<le> LENGTH('a)"
  shows "be_bytes n (from_be bs :: 'a::len word) = bs"
  using assms
proof (induction bs arbitrary: n rule: rev_induct)
  case Nil
  then show ?case by simp
next
  case (snoc b bs)
  then obtain m where m: "n = Suc m" "length bs = m" by auto
  let ?w = "from_be bs :: 'a word"
  have lt: "8 * m + 8 \<le> LENGTH('a)" using snoc.prems m by simp
  have "be_bytes m (drop_bit 8 (push_bit 8 ?w OR ucast b)) = be_bytes m ?w"
    unfolding be_bytes_def
    by (rule map_cong[OF refl], rule bit_word_eqI) (use lt in \<open>auto simp: bit_simps dest: bit_imp_le_length\<close>)
  moreover have "(ucast (push_bit 8 ?w OR ucast b) :: u8) = b"
    by (rule bit_word_eqI) (use lt in \<open>auto simp: bit_simps\<close>)
  ultimately show ?case
    using snoc.IH[of m] snoc.prems m by (simp add: be_bytes_snoc from_be_snoc)
qed

lemma be_bytes_inject:
  assumes "LENGTH('a) \<le> 8 * n"
  shows "be_bytes n (v :: 'a::len word) = be_bytes n w \<longleftrightarrow> v = w"
  using assms from_be_be_bytes by metis

lemma from_be_take_be_bytes [simp, bytes_simps]:
  "from_be (take 8 (to_be_bytes v @ bs)) = v"
  by simp

subsection \<open>Differences and running sums\<close>

text \<open>Consecutive differences of a sequence of words, their running sums, and the condition that no
  difference wraps around when read as a signed integer.\<close>

fun diffs :: "'a::len word list \<Rightarrow> 'a word list" where
  "diffs (x # y # zs) = (y - x) # diffs (y # zs)"
| "diffs xs = []"

primrec sums :: "'a::len word \<Rightarrow> 'a word list \<Rightarrow> 'a word list" where
  "sums a [] = []"
| "sums a (d # ds) = (a + d) # sums (a + d) ds"

fun no_wrap :: "'a::len word list \<Rightarrow> bool" where
  "no_wrap (x # y # zs) \<longleftrightarrow> sadd_ok x (y - x) \<and> no_wrap (y # zs)"
| "no_wrap xs \<longleftrightarrow> True"

lemma length_diffs [simp]: "length (diffs xs) = length xs - 1"
  by (induction xs rule: diffs.induct) auto

lemma nth_diffs: "Suc i < length xs \<Longrightarrow> diffs xs ! i = xs ! Suc i - xs ! i"
proof (induction xs arbitrary: i rule: diffs.induct)
  case (1 x y zs)
  then show ?case by (cases i) auto
qed auto

lemma sums_diffs [simp]: "sums x (diffs (x # xs)) = xs"
  by (induction xs arbitrary: x) auto

lemma diffs_sums [simp]: "diffs (x # sums x ds) = ds"
  by (induction ds arbitrary: x) auto

lemma length_sums [simp]: "length (sums x ds) = length ds"
  by (induction ds arbitrary: x) auto

end
