(* ===== verification/Utils.thy ===== *)
theory Utils
  imports Prelude
begin

text \<open>
  The hash and the Bloom filter of \<^verbatim>\<open>src/utils/src\<close> (\<^verbatim>\<open>bkdr_hash.rs\<close>, \<^verbatim>\<open>bloom_filter.rs\<close>).  The
  filter's invariant ties the number of bytes to the mask; under it no operation
  panics, a filter never loses an element, and a filter of at least 64 bits survives
  being written out and read back.
\<close>

subsection \<open>BKDR hash\<close>

definition SEED :: u64 where
  "SEED = 1313"

record BkdrHasher =
  bh_prefix :: "u64 option"
  bh_number :: u64

definition bkdr_new :: BkdrHasher where
  "bkdr_new = \<lparr>bh_prefix = None, bh_number = 0\<rparr>"

definition bkdr_with_prefix :: "u64 \<Rightarrow> BkdrHasher" where
  "bkdr_with_prefix p = \<lparr>bh_prefix = Some p, bh_number = 0\<rparr>"

definition bkdr_with_number :: "u64 \<Rightarrow> BkdrHasher" where
  "bkdr_with_number n = \<lparr>bh_prefix = None, bh_number = n\<rparr>"

fun bkdr_write_loop :: "bytes \<Rightarrow> u64 \<Rightarrow> u64" where
  "bkdr_write_loop [] number = number"
| "bkdr_write_loop (c # bs) number = bkdr_write_loop bs (number * SEED + ucast c)"

definition bkdr_hash_with :: "BkdrHasher \<Rightarrow> bytes \<Rightarrow> BkdrHasher" where
  "bkdr_hash_with h bs = h\<lparr>bh_number := bkdr_write_loop bs (bh_number h)\<rparr>"

definition bkdr_number :: "BkdrHasher \<Rightarrow> u64" where
  "bkdr_number h = bh_number h"

definition number_with_prefix :: "BkdrHasher \<Rightarrow> 128 word" where
  "number_with_prefix h =
     (case bh_prefix h of
        Some p \<Rightarrow> push_bit 64 (ucast p) OR ucast (bh_number h)
      | None \<Rightarrow> ucast (bh_number h))"

lemma bkdr_write_loop_append:
  "bkdr_write_loop (xs @ ys) n = bkdr_write_loop ys (bkdr_write_loop xs n)"
  by (induction xs arbitrary: n) auto

lemma bkdr_hash_with_append: "bkdr_hash_with (bkdr_hash_with h xs) ys = bkdr_hash_with h (xs @ ys)"
  by (simp add: bkdr_hash_with_def bkdr_write_loop_append)

subsection \<open>Bloom filter\<close>

record BloomFilter =
  bf_b :: bytes
  bf_mask :: u64

text \<open>The loop of \<^verbatim>\<open>pow2\<close>; \<^verbatim>\<open>i\<close> stays below \<open>2 ^ 62\<close>, so doubling never overflows.  It is entered with
  \<^verbatim>\<open>i = 8\<close>; from \<^verbatim>\<open>i = 0\<close>, which no call reaches, it would not end, and the model stops there.\<close>

function pow2_loop :: "u64 \<Rightarrow> u64 \<Rightarrow> (string, u64) result" where
  "pow2_loop num i =
     (if i < push_bit 62 1 then if i \<ge> num then Ok i else if i = 0 then Panic else pow2_loop num (i * 2) else Panic)"
  by pat_completeness auto
termination
proof (relation "measure (\<lambda>(num, i). 2 ^ 62 - unat i)", simp_all)
  fix num i :: u64
  assume "i < 4611686018427387904" "i \<noteq> 0"
  then have "unat i < 2 ^ 62" "0 < unat i" "unat (i * 2) = unat i * 2"
    by (auto simp: word_less_nat_alt unat_word_ariths unat_gt_0)
  then show "4611686018427387904 - unat (i * 2) < 4611686018427387904 - unat i" by simp
qed

declare pow2_loop.simps [simp del]

definition pow2 :: "u64 \<Rightarrow> (string, u64) result" where
  "pow2 num = pow2_loop num 8"

definition bloom_new :: "u64 \<Rightarrow> (string, BloomFilter) result" where
  "bloom_new m = rbind (pow2 m) (\<lambda>m.
     let l = drop_bit 3 (unat m) in Ok \<lparr>bf_b = resize l 0 [], bf_mask = m - 1\<rparr>)"

definition bloom_with_data :: "bytes \<Rightarrow> (string, BloomFilter) result" where
  "bloom_with_data data = rbind (pow2 (of_nat (length data))) (\<lambda>l.
     let b = (if l \<noteq> of_nat (length data) then resize (unat l) 0 data else data);
         m = push_bit 3 l in
     Ok \<lparr>bf_b = b, bf_mask = m - 1\<rparr>)"

definition bloom_hash :: "bytes \<Rightarrow> u64" where
  "bloom_hash data = bkdr_number (bkdr_hash_with bkdr_new data)"

definition bloom_location :: "BloomFilter \<Rightarrow> u64 \<Rightarrow> nat" where
  "bloom_location f hash = unat (hash AND bf_mask f)"

definition bloom_insert :: "BloomFilter \<Rightarrow> bytes \<Rightarrow> (string, BloomFilter) result" where
  "bloom_insert f data =
     (let loc = bloom_location f (bloom_hash data) in
      rbind (index (bf_b f) (drop_bit 3 loc)) (\<lambda>x.
        Ok (f\<lparr>bf_b := (bf_b f)[drop_bit 3 loc := x OR push_bit (loc mod 8) 1]\<rparr>)))"

definition bloom_contains :: "BloomFilter \<Rightarrow> bytes \<Rightarrow> (string, bool) result" where
  "bloom_contains f data =
     (let loc = bloom_location f (bloom_hash data) in
      rmap (\<lambda>x. x AND push_bit (loc mod 8) 1 \<noteq> 0) (index (bf_b f) (drop_bit 3 loc)))"

definition bloom_len :: "BloomFilter \<Rightarrow> nat" where
  "bloom_len f = length (bf_b f)"

definition bloom_bytes :: "BloomFilter \<Rightarrow> bytes" where
  "bloom_bytes f = bf_b f"

subsection \<open>Powers of two\<close>

lemma pow2_loop_step:
  assumes "j \<le> 61"
  shows "pow2_loop num (2 ^ j) = (if num \<le> 2 ^ j then Ok (2 ^ j) else pow2_loop num (2 ^ Suc j))"
proof -
  have "(2::u64) ^ j < 2 ^ 62"
    using assms by (intro word_2_power_strict_mono) simp_all
  then show ?thesis using assms by (subst pow2_loop.simps) (simp add: mult.commute)
qed

lemma pow2_loop_eq:
  assumes "j \<le> 61" "num \<le> 2 ^ 61"
  shows "\<exists>k. j \<le> k \<and> k \<le> 61 \<and> pow2_loop num (2 ^ j) = Ok (2 ^ k) \<and> num \<le> 2 ^ k \<and>
    (k = j \<or> 2 ^ (k - 1) < num)"
  using assms
proof (induction "61 - j" arbitrary: j)
  case 0
  then show ?case using pow2_loop_step[of j num] by auto
next
  case (Suc d)
  show ?case
  proof (cases "num \<le> 2 ^ j")
    case True
    then show ?thesis using pow2_loop_step[OF Suc.prems(1), of num] Suc.prems by (intro exI[of _ j]) auto
  next
    case False
    have j: "d = 61 - Suc j" "Suc j \<le> 61" using Suc.hyps(2) by auto
    from Suc.hyps(1)[OF j Suc.prems(2)] obtain k where
      "Suc j \<le> k" "k \<le> 61" "pow2_loop num (2 ^ Suc j) = Ok (2 ^ k)" "num \<le> 2 ^ k"
      "k = Suc j \<or> 2 ^ (k - 1) < num"
      by (elim exE conjE)
    with False show ?thesis
      using pow2_loop_step[OF Suc.prems(1), of num] by (intro exI[of _ k]) (auto simp: not_le)
  qed
qed

lemma pow2_power: "3 \<le> k \<Longrightarrow> k \<le> 61 \<Longrightarrow> pow2 (2 ^ k) = Ok (2 ^ k)"
proof -
  assume k: "3 \<le> k" "k \<le> 61"
  have le: "(2::u64) ^ k \<le> 2 ^ 61" using k by (intro word_2_power_mono) simp_all
  obtain m where m: "3 \<le> m" "m \<le> 61" "pow2_loop (2 ^ k) (2 ^ 3) = Ok (2 ^ m)" "(2::u64) ^ k \<le> 2 ^ m"
    "m = 3 \<or> (2::u64) ^ (m - 1) < 2 ^ k"
    using pow2_loop_eq[OF _ le, of 3] by (elim meta_impE) auto
  have "k \<le> m" using m(2,4) k(2) by (simp add: word_le_def uint_2_power)
  moreover have "m = 3 \<or> m - 1 < k" using m(2,5) k(2) by (simp add: word_less_def uint_2_power)
  ultimately have "m = k" using k m(1) by auto
  then show ?thesis using m(3) by (simp add: pow2_def)
qed

lemma pow2_range:
  assumes "num \<le> 2 ^ 61"
  shows "\<exists>k. 3 \<le> k \<and> k \<le> 61 \<and> pow2 num = Ok (2 ^ k) \<and> num \<le> 2 ^ k"
  using pow2_loop_eq[OF _ assms, of 3] by (auto simp: pow2_def)

subsection \<open>The filter invariant\<close>

definition bloom_wf :: "BloomFilter \<Rightarrow> bool" where
  "bloom_wf f \<longleftrightarrow> (\<exists>k. 3 \<le> k \<and> k \<le> 61 \<and> bf_mask f = mask k \<and> length (bf_b f) = 2 ^ (k - 3))"

text \<open>An interface of sets that may over-approximate: inserting keeps the invariant and every
  earlier member, and makes the new element a member.\<close>

locale approx_set =
  fixes inv :: "'f \<Rightarrow> bool"
    and ins :: "'f \<Rightarrow> 'd \<Rightarrow> ('e, 'f) result"
    and mem :: "'f \<Rightarrow> 'd \<Rightarrow> ('e, bool) result"
  assumes ins_ok: "inv f \<Longrightarrow> \<exists>f'. ins f d = Ok f' \<and> inv f'"
    and mem_total: "inv f \<Longrightarrow> \<exists>b. mem f d = Ok b"
    and mem_ins: "inv f \<Longrightarrow> ins f d = Ok f' \<Longrightarrow> mem f' d = Ok True"
    and mem_mono: "inv f \<Longrightarrow> ins f d = Ok f' \<Longrightarrow> mem f e = Ok True \<Longrightarrow> mem f' e = Ok True"

fun insert_all :: "('f \<Rightarrow> 'd \<Rightarrow> ('e, 'f) result) \<Rightarrow> 'f \<Rightarrow> 'd list \<Rightarrow> ('e, 'f) result" where
  "insert_all ins f [] = Ok f"
| "insert_all ins f (d # ds) = rbind (ins f d) (\<lambda>f'. insert_all ins f' ds)"

context approx_set
begin

lemma insert_all_ok: "inv f \<Longrightarrow> \<exists>f'. insert_all ins f ds = Ok f' \<and> inv f'"
proof (induction ds arbitrary: f)
  case (Cons d ds)
  then show ?case using ins_ok[OF Cons.prems, of d] by (auto dest: Cons.IH)
qed simp

lemma insert_all_mono:
  "inv f \<Longrightarrow> insert_all ins f ds = Ok f' \<Longrightarrow> mem f e = Ok True \<Longrightarrow> mem f' e = Ok True"
proof (induction ds arbitrary: f)
  case (Cons d ds)
  then show ?case using ins_ok[OF Cons.prems(1), of d] by (auto dest: mem_mono)
qed simp

lemma mem_insert_all:
  "inv f \<Longrightarrow> insert_all ins f ds = Ok f' \<Longrightarrow> d \<in> set ds \<Longrightarrow> mem f' d = Ok True"
proof (induction ds arbitrary: f)
  case (Cons x ds)
  obtain g where g: "ins f x = Ok g" "inv g" using ins_ok[OF Cons.prems(1), of x] by blast
  show ?case
  proof (cases "d = x")
    case True
    then show ?thesis
      using g Cons.prems mem_ins[OF Cons.prems(1) g(1)] insert_all_mono[OF g(2)] by simp
  next
    case False
    then show ?thesis using Cons.IH[OF g(2)] Cons.prems g by simp
  qed
qed simp

end

lemma bloom_location_bound:
  assumes "bloom_wf f"
  shows "drop_bit 3 (bloom_location f h) < length (bf_b f)"
proof -
  obtain k where k: "3 \<le> k" "k \<le> 61" "bf_mask f = mask k" "length (bf_b f) = 2 ^ (k - 3)"
    using assms by (auto simp: bloom_wf_def)
  have "bloom_location f h < 2 ^ k"
    by (simp add: bloom_location_def k(3) unsigned_take_bit_eq flip: take_bit_eq_mask)
  also have "(2::nat) ^ k = 2 ^ (k - 3) * 8"
    using k(1) power_add[of "2::nat" "k - 3" 3] by simp
  finally show ?thesis
    by (simp add: k(4) drop_bit_eq_div less_mult_imp_div_less)
qed

lemma and_power_2_word: "(x::u8) AND 2 ^ n \<noteq> 0 \<longleftrightarrow> bit x n"
  unfolding bit_iff_and_push_bit_not_eq_0 push_bit_of_1 ..

lemma bloom_contains_eq:
  assumes "bloom_wf f"
  shows "bloom_contains f d = Ok (bit (bf_b f ! (bloom_location f (bloom_hash d) div 8))
    (bloom_location f (bloom_hash d) mod 8))"
  using bloom_location_bound[OF assms, of "bloom_hash d"]
  by (simp add: bloom_contains_def index_def Let_def drop_bit_eq_div and_power_2_word)

lemma bloom_insert_eq:
  assumes "bloom_wf f"
  shows "bloom_insert f d = Ok (f\<lparr>bf_b := (bf_b f)[bloom_location f (bloom_hash d) div 8 :=
    bf_b f ! (bloom_location f (bloom_hash d) div 8) OR 2 ^ (bloom_location f (bloom_hash d) mod 8)]\<rparr>)"
  using bloom_location_bound[OF assms, of "bloom_hash d"]
  by (simp add: bloom_insert_def index_def Let_def drop_bit_eq_div)

lemma bloom_location_update [simp]: "bloom_location (f\<lparr>bf_b := b\<rparr>) h = bloom_location f h"
  by (simp add: bloom_location_def)

lemma bloom_wf_update: "bloom_wf f \<Longrightarrow> bloom_wf (f\<lparr>bf_b := (bf_b f)[i := x]\<rparr>)"
  by (simp add: bloom_wf_def)

interpretation bloom: approx_set bloom_wf bloom_insert bloom_contains
proof unfold_locales
  fix f d assume wf: "bloom_wf f"
  show "\<exists>f'. bloom_insert f d = Ok f' \<and> bloom_wf f'"
    using wf bloom_wf_update by (simp add: bloom_insert_eq)
  show "\<exists>b. bloom_contains f d = Ok b"
    using wf by (simp add: bloom_contains_eq)
  fix f' assume ins: "bloom_insert f d = Ok f'"
  have wf': "bloom_wf f'" using wf ins bloom_wf_update by (auto simp: bloom_insert_eq)
  have loc: "drop_bit 3 (bloom_location f (bloom_hash d)) < length (bf_b f)"
    using bloom_location_bound[OF wf] .
  show "bloom_contains f' d = Ok True"
    using wf wf' ins loc
    by (auto simp: bloom_insert_eq bloom_contains_eq drop_bit_eq_div bit_or_iff bit_exp_iff)
  fix e assume "bloom_contains f e = Ok True"
  then show "bloom_contains f' e = Ok True"
    using wf wf' ins loc
    by (auto simp: bloom_insert_eq bloom_contains_eq drop_bit_eq_div nth_list_update bit_or_iff)
qed

lemma bloom_new_wf:
  assumes "m \<le> 2 ^ 61"
  shows "\<exists>f. bloom_new m = Ok f \<and> bloom_wf f \<and> (\<forall>d. bloom_contains f d = Ok False)"
proof -
  obtain k where k: "3 \<le> k" "k \<le> 61" "pow2 m = Ok (2 ^ k)" using pow2_range[OF assms] by blast
  let ?f = "\<lparr>bf_b = replicate (2 ^ (k - 3)) 0, bf_mask = mask k\<rparr> :: BloomFilter"
  have "unat ((2::u64) ^ k) div 8 = 2 ^ (k - 3)"
    using k(1,2) power_add[of "2::nat" "k - 3" 3] uint_2_power[of k, where 'a = 64]
    by (simp add: unat_eq_nat_uint nat_power_eq)
  then have "bloom_new m = Ok ?f"
    using k by (simp add: bloom_new_def resize_def drop_bit_eq_div mask_eq_exp_minus_1)
  moreover have wf: "bloom_wf ?f" using k by (auto simp: bloom_wf_def)
  moreover have "bloom_contains ?f d = Ok False" for d
    using bloom_contains_eq[OF wf, of d] bloom_location_bound[OF wf, of "bloom_hash d"]
    by (simp add: drop_bit_eq_div)
  ultimately show ?thesis by blast
qed

text \<open>C14: A Bloom filter built by \<^verbatim>\<open>new\<close> starts out empty, and after any sequence of insertions, none of
  which panics, it reports every inserted key as present: there are no false negatives.\<close>

theorem bloom_no_false_negatives:
  assumes "m \<le> 2 ^ 61"
  shows "\<exists>f f'. bloom_new m = Ok f \<and> (\<forall>d. bloom_contains f d = Ok False) \<and>
    insert_all bloom_insert f ds = Ok f' \<and> list_all (\<lambda>d. bloom_contains f' d = Ok True) ds"
proof -
  obtain f where f: "bloom_new m = Ok f" "bloom_wf f" "\<forall>d. bloom_contains f d = Ok False"
    using bloom_new_wf[OF assms] by blast
  obtain f' where "insert_all bloom_insert f ds = Ok f'" using bloom.insert_all_ok[OF f(2)] by blast
  with f show ?thesis
    using bloom.mem_insert_all[OF f(2)] by (intro exI[of _ f] exI[of _ f']) (auto simp: list_all_iff)
qed

theorem bloom_no_false_negatives_witness:
  "\<exists>f f'. bloom_new 64 = Ok f \<and> insert_all bloom_insert f [[1], [2, 3]] = Ok f' \<and> bloom_contains f' [2, 3] = Ok True"
  using bloom_no_false_negatives[of 64 "[[1], [2, 3]]"] by auto

text \<open>C15: Reading back the bytes of a filter restores the filter exactly when it has at least eight bytes;
  \<^verbatim>\<open>with_data\<close> pads a smaller one and widens its mask, so that lookups go to other bits.\<close>

theorem bloom_with_data_bytes:
  assumes "bloom_wf f"
  shows "bloom_with_data (bloom_bytes f) = Ok f \<longleftrightarrow> 8 \<le> bloom_len f"
proof -
  obtain k where k: "3 \<le> k" "k \<le> 61" "bf_mask f = mask k" "length (bf_b f) = 2 ^ (k - 3)"
    using assms by (auto simp: bloom_wf_def)
  have l: "of_nat (length (bf_b f)) = (2::u64) ^ (k - 3)" using k by simp
  have eight: "8 \<le> length (bf_b f) \<longleftrightarrow> 6 \<le> k"
    using power_increasing_iff[of "2::nat" 3 "k - 3"] k(1,4) by auto
  show ?thesis
  proof (cases "6 \<le> k")
    case True
    then have "pow2 (of_nat (length (bf_b f))) = Ok (2 ^ (k - 3))" using k l by (simp add: pow2_power)
    moreover have "push_bit 3 ((2::u64) ^ (k - 3)) - 1 = mask k"
      using k(1) power_add[of "2::u64" "k - 3" 3] by (simp add: push_bit_eq_mult mask_eq_exp_minus_1)
    ultimately show ?thesis
      using True eight k(3) l by (simp add: bloom_with_data_def bloom_bytes_def bloom_len_def Let_def)
  next
    case False
    then have ks: "k = 3 \<or> k = 4 \<or> k = 5" using k(1) by auto
    then have "pow2 (of_nat (length (bf_b f))) = Ok 8"
      unfolding l pow2_def by (elim disjE) (simp_all add: pow2_loop.simps)
    moreover have "mask k \<noteq> (63 :: u64)" using ks by (elim disjE) (simp_all add: mask_eq_exp_minus_1)
    ultimately show ?thesis
      using False eight k(3) by (auto simp: bloom_with_data_def bloom_bytes_def bloom_len_def Let_def
          dest: arg_cong[where f = bf_mask])
  qed
qed

theorem bloom_with_data_bytes_witness:
  "bloom_with_data (bloom_bytes \<lparr>bf_b = [4], bf_mask = 7\<rparr>) \<noteq> Ok \<lparr>bf_b = [4], bf_mask = 7\<rparr>"
proof -
  have "bloom_wf \<lparr>bf_b = [4], bf_mask = 7\<rparr>" unfolding bloom_wf_def by (rule exI[of _ 3]) (simp add: mask_eq_exp_minus_1)
  from bloom_with_data_bytes[OF this] show ?thesis by (simp add: bloom_len_def)
qed

end
