(* ===== verification/Models.thy ===== *)
theory Models
  imports Utils "HOL-Library.List_Lexorder" "HOL-Library.Multiset"
begin

text \<open>
  The data model of \<^verbatim>\<open>src/models/src\<close>: value types, fields, tags, series and points, and the
  hashes that make up their ids.  A flatbuffers message is the record of what its
  accessors return, an absent field being \<^const>\<open>None\<close>.  The results relate the two ways in
  which a series id is computed, for the index and for the cache.
\<close>

type_synonym SeriesId = u64
type_synonym FieldId = u64
type_synonym Timestamp = i64

subsection \<open>Errors and messages\<close>

datatype ModelError = InvalidPoint string | InvalidFlatbufferMessage string | InvalidField string | InvalidTag string

datatype FbFieldType = FbFloat | FbInteger | FbUnsigned | FbBoolean | FbString | FbUnknown

record FbTag =
  fbt_key :: "bytes option"
  fbt_value :: "bytes option"

record FbField =
  fbf_name :: "bytes option"
  fbf_type :: FbFieldType
  fbf_value :: "bytes option"

record FbPoint =
  fbp_tags :: "FbTag list option"
  fbp_fields :: "FbField list option"
  fbp_timestamp :: Timestamp

subsection \<open>Value types\<close>

datatype ValueType = VUnknown | VFloat | VInteger | VUnsigned | VBoolean | VString

definition value_type_from_u8 :: "u8 \<Rightarrow> ValueType" where
  "value_type_from_u8 v =
     (if v = 0 then VFloat else if v = 1 then VInteger else if v = 2 then VBoolean
      else if v = 3 then VString else if v = 4 then VUnsigned else VUnknown)"

fun u8_from_value_type :: "ValueType \<Rightarrow> u8" where
  "u8_from_value_type VFloat = 0"
| "u8_from_value_type VInteger = 1"
| "u8_from_value_type VBoolean = 2"
| "u8_from_value_type VString = 3"
| "u8_from_value_type VUnsigned = 4"
| "u8_from_value_type VUnknown = 5"

fun value_type_from_fb :: "FbFieldType \<Rightarrow> ValueType" where
  "value_type_from_fb FbFloat = VFloat"
| "value_type_from_fb FbInteger = VInteger"
| "value_type_from_fb FbUnsigned = VUnsigned"
| "value_type_from_fb FbBoolean = VBoolean"
| "value_type_from_fb FbString = VString"
| "value_type_from_fb FbUnknown = VUnknown"

subsection \<open>Tags\<close>

record Tag =
  tag_key :: bytes
  tag_value :: bytes

definition TAG_KEY_MAX_LEN :: nat where "TAG_KEY_MAX_LEN = 512"

definition TAG_VALUE_MAX_LEN :: nat where "TAG_VALUE_MAX_LEN = 4096"

text \<open>\<^verbatim>\<open>sort_by\<close> is a stable sort; byte vectors are compared lexicographically.\<close>

definition sort_tags :: "Tag list \<Rightarrow> Tag list" where
  "sort_tags tags = sort_key tag_key tags"

definition tag_from_flatbuffers :: "FbTag \<Rightarrow> (ModelError, Tag) result" where
  "tag_from_flatbuffers t =
     rbind (ok_or (InvalidFlatbufferMessage ''Tag key cannot be empty'') (fbt_key t)) (\<lambda>key.
     rbind (ok_or (InvalidFlatbufferMessage ''Tag value cannot be emptyt'') (fbt_value t)) (\<lambda>value.
     Ok \<lparr>tag_key = key, tag_value = value\<rparr>))"

definition tag_check :: "Tag \<Rightarrow> (ModelError, unit) result" where
  "tag_check t =
     (if tag_key t = [] then Err (InvalidTag ''Tag key cannot be empty'')
      else if tag_value t = [] then Err (InvalidTag ''Tag value cannot be empty'')
      else if length (tag_key t) > TAG_KEY_MAX_LEN
        then Err (InvalidTag ''Tag key exceeds the TAG_KEY_MAX_LEN(512)'')
      else if length (tag_value t) > TAG_VALUE_MAX_LEN
        then Err (InvalidTag ''Tag value exceeds the TAG_VALUE_MAX_LEN(4096)'')
      else Ok ())"

definition tag_to_bytes :: "Tag \<Rightarrow> bytes" where
  "tag_to_bytes t = tag_key t @ tag_value t"

subsection \<open>Fields\<close>

definition FIELD_NAME_MAX_LEN :: nat where "FIELD_NAME_MAX_LEN = 512"

record FieldInfo =
  fi_id :: FieldId
  fi_name :: bytes
  fi_value_type :: ValueType
  fi_finished :: bool

definition generate_field_id :: "bytes \<Rightarrow> SeriesId \<Rightarrow> FieldId" where
  "generate_field_id name sid = bkdr_number (bkdr_hash_with (bkdr_with_number sid) name)"

definition field_info_finish :: "FieldInfo \<Rightarrow> SeriesId \<Rightarrow> FieldInfo" where
  "field_info_finish fi sid = fi\<lparr>fi_finished := True, fi_id := generate_field_id (fi_name fi) sid\<rparr>"

definition field_info_new :: "SeriesId \<Rightarrow> bytes \<Rightarrow> ValueType \<Rightarrow> FieldInfo" where
  "field_info_new sid name vt =
     field_info_finish \<lparr>fi_id = 0, fi_name = name, fi_value_type = vt, fi_finished = True\<rparr> sid"

definition field_info_from_flatbuffers :: "FbField \<Rightarrow> (ModelError, FieldInfo) result" where
  "field_info_from_flatbuffers f =
     rbind (ok_or (InvalidFlatbufferMessage '''') (fbf_name f)) (\<lambda>name.
     Ok \<lparr>fi_id = 0, fi_name = name, fi_value_type = value_type_from_fb (fbf_type f), fi_finished = False\<rparr>)"

definition field_info_check :: "FieldInfo \<Rightarrow> (ModelError, unit) result" where
  "field_info_check fi =
     (if length (fi_name fi) > FIELD_NAME_MAX_LEN
      then Err (InvalidField ''TagKey exceeds the FIELD_NAME_MAX_LEN(512)'') else Ok ())"

subsection \<open>Series\<close>

record SeriesInfo =
  si_id :: SeriesId
  si_tags :: "Tag list"
  si_field_infos :: "FieldInfo list"
  si_finished :: bool

fun series_hash_loop :: "Tag list \<Rightarrow> BkdrHasher \<Rightarrow> BkdrHasher" where
  "series_hash_loop [] h = h"
| "series_hash_loop (t # tags) h =
     series_hash_loop tags (bkdr_hash_with (bkdr_hash_with h (tag_key t)) (tag_value t))"

definition generate_series_id :: "Tag list \<Rightarrow> SeriesId" where
  "generate_series_id tags = bkdr_number (series_hash_loop tags bkdr_new)"

definition series_info_finish :: "SeriesInfo \<Rightarrow> SeriesInfo" where
  "series_info_finish si =
     (let tags = sort_tags (si_tags si);
          sid = generate_series_id tags in
      si\<lparr>si_tags := tags, si_id := sid,
         si_field_infos := map (\<lambda>fi. field_info_finish fi sid) (si_field_infos si)\<rparr>)"

definition series_info_new :: "Tag list \<Rightarrow> FieldInfo list \<Rightarrow> SeriesInfo" where
  "series_info_new tags fis =
     series_info_finish \<lparr>si_id = 0, si_tags = tags, si_field_infos = fis, si_finished = True\<rparr>"

text \<open>\<^verbatim>\<open>for t in inner { out.push(f(t)?) }\<close>\<close>

fun try_map :: "('a \<Rightarrow> ('e, 'b) result) \<Rightarrow> 'a list \<Rightarrow> ('e, 'b list) result" where
  "try_map f [] = Ok []"
| "try_map f (x # xs) = rbind (f x) (\<lambda>y. rbind (try_map f xs) (\<lambda>ys. Ok (y # ys)))"

definition series_info_from_flatbuffers :: "FbPoint \<Rightarrow> (ModelError, SeriesInfo) result" where
  "series_info_from_flatbuffers p =
     rbind (case fbp_tags p of
              Some ts \<Rightarrow> try_map tag_from_flatbuffers ts
            | None \<Rightarrow> Err (InvalidFlatbufferMessage ''Point tags cannot be empty'')) (\<lambda>tags.
     rbind (case fbp_fields p of
              Some fs \<Rightarrow> try_map field_info_from_flatbuffers fs
            | None \<Rightarrow> Err (InvalidFlatbufferMessage ''Point fields cannot be empty'')) (\<lambda>fis.
     Ok (series_info_finish \<lparr>si_id = 0, si_tags = tags, si_field_infos = fis, si_finished = True\<rparr>)))"

definition push_field_info :: "SeriesInfo \<Rightarrow> FieldInfo \<Rightarrow> SeriesInfo" where
  "push_field_info si fi = si\<lparr>si_field_infos := si_field_infos si @ [fi]\<rparr>"

definition field_info_with_id :: "SeriesInfo \<Rightarrow> FieldId \<Rightarrow> FieldInfo list" where
  "field_info_with_id si fid = filter (\<lambda>f. fi_id f = fid) (si_field_infos si)"

definition field_info_with_name :: "SeriesInfo \<Rightarrow> bytes \<Rightarrow> FieldInfo list" where
  "field_info_with_name si name = filter (\<lambda>f. fi_name f = name) (si_field_infos si)"

subsection \<open>Points\<close>

record FieldValue =
  fv_field_id :: FieldId
  fv_value_type :: ValueType
  fv_value :: bytes

record InMemPoint =
  imp_series_id :: SeriesId
  imp_timestamp :: Timestamp
  imp_fields :: "FieldValue list"

definition field_value_from_flatbuffers :: "FbField \<Rightarrow> (ModelError, FieldValue) result" where
  "field_value_from_flatbuffers f =
     Ok \<lparr>fv_field_id = 0, fv_value_type = value_type_from_fb (fbf_type f),
         fv_value = (case fbf_value f of Some v \<Rightarrow> v | None \<Rightarrow> [])\<rparr>"

definition point_from_flatbuffers :: "FbPoint \<Rightarrow> (ModelError, InMemPoint) result" where
  "point_from_flatbuffers p =
     rbind (case fbp_fields p of
              Some fs \<Rightarrow> try_map field_value_from_flatbuffers fs
            | None \<Rightarrow> Err (InvalidFlatbufferMessage ''Point fields cannot be empty'')) (\<lambda>fields.
     Ok \<lparr>imp_series_id = 0, imp_timestamp = fbp_timestamp p, imp_fields = fields\<rparr>)"

fun unwrap_option :: "'a option \<Rightarrow> ('e, 'a) result" where
  "unwrap_option (Some x) = Ok x"
| "unwrap_option None = Panic"

text \<open>\<^verbatim>\<open>impl From<fb_models::Point> for InMemPoint\<close>: the tags are hashed in message order.\<close>

definition point_from :: "FbPoint \<Rightarrow> (ModelError, InMemPoint) result" where
  "point_from p =
     rbind (try_map (\<lambda>t. rbind (unwrap_option (fbt_key t)) (\<lambda>k. rbind (unwrap_option (fbt_value t)) (\<lambda>v.
              Ok \<lparr>tag_key = k, tag_value = v\<rparr>))) (case fbp_tags p of Some ts \<Rightarrow> ts | None \<Rightarrow> [])) (\<lambda>tags.
       let sid = generate_series_id tags in
       rbind (try_map (\<lambda>f. rbind (unwrap_option (fbf_name f)) (\<lambda>name. rbind (unwrap_option (fbf_value f)) (\<lambda>val.
              Ok \<lparr>fv_field_id = generate_field_id name sid, fv_value_type = value_type_from_fb (fbf_type f),
                  fv_value = val\<rparr>))) (case fbp_fields p of Some fs \<Rightarrow> fs | None \<Rightarrow> [])) (\<lambda>fields.
       Ok \<lparr>imp_series_id = sid, imp_timestamp = fbp_timestamp p, imp_fields = fields\<rparr>))"

subsection \<open>Ids\<close>

lemma value_type_u8_roundtrip: "value_type_from_u8 (u8_from_value_type v) = v"
  by (cases v) (simp_all add: value_type_from_u8_def)

lemma sort_tags_permuted:
  assumes "mset tags = mset tags'" "distinct (map tag_key tags)"
  shows "sort_tags tags = sort_tags tags'"
  unfolding sort_tags_def using assms by (intro sort_key_eq_sort_key) (simp_all add: distinct_map)

lemma sort_tags_sorted: "sorted (map tag_key tags) \<Longrightarrow> sort_tags tags = tags"
  unfolding sort_tags_def by (induction tags) (auto simp: insort_is_Cons)

lemma try_map_cong: "(\<And>x. x \<in> set xs \<Longrightarrow> f x = g x) \<Longrightarrow> try_map f xs = try_map g xs"
  by (induction xs) auto

lemma try_map_Ok_iff:
  "try_map f xs = Ok ys \<longleftrightarrow> list_all2 (\<lambda>x y. f x = Ok y) xs ys"
  by (induction xs arbitrary: ys) (auto simp: rbind_eq_Ok list_all2_Cons1)

lemma series_info_finish_simps [simp]:
  "si_tags (series_info_finish si) = sort_tags (si_tags si)"
  "si_id (series_info_finish si) = generate_series_id (sort_tags (si_tags si))"
  "si_field_infos (series_info_finish si) =
     map (\<lambda>fi. field_info_finish fi (generate_series_id (sort_tags (si_tags si)))) (si_field_infos si)"
  by (simp_all add: series_info_finish_def Let_def)

lemma tags_keys:
  "try_map tag_from_flatbuffers ts = Ok tags \<Longrightarrow> map tag_key tags = map (\<lambda>t. the (fbt_key t)) ts"
  unfolding try_map_Ok_iff
  by (induction rule: list_all2_induct) (auto simp: tag_from_flatbuffers_def rbind_eq_Ok elim: ok_or.elims)

lemma field_infos_names:
  "try_map field_info_from_flatbuffers fs = Ok fis \<Longrightarrow> map fi_name fis = map (\<lambda>f. the (fbf_name f)) fs"
  unfolding try_map_Ok_iff
  by (induction rule: list_all2_induct) (auto simp: field_info_from_flatbuffers_def rbind_eq_Ok elim: ok_or.elims)

lemma field_value_ids:
  "try_map (\<lambda>f. rbind (unwrap_option (fbf_name f)) (\<lambda>name. rbind (unwrap_option (fbf_value f)) (\<lambda>val.
      Ok \<lparr>fv_field_id = generate_field_id name sid, fv_value_type = value_type_from_fb (fbf_type f),
        fv_value = val\<rparr>))) fs = Ok fvs \<Longrightarrow>
    map fv_field_id fvs = map (\<lambda>f. generate_field_id (the (fbf_name f)) sid) fs"
  unfolding try_map_Ok_iff
  by (induction rule: list_all2_induct) (auto simp: rbind_eq_Ok elim: unwrap_option.elims)

text \<open>C13: The identity of a series does not depend on the order in which its tags are given: for tags
  with distinct keys, any reordering builds the same series, with the same id and field ids.\<close>

theorem series_info_tag_order:
  assumes "mset tags = mset tags'" and "distinct (map tag_key tags)"
  shows "series_info_new tags fis = series_info_new tags' fis"
  using sort_tags_permuted[OF assms] by (simp add: series_info_new_def series_info_finish_def)

theorem series_info_tag_order_witness:
  "series_info_new [\<lparr>tag_key = [2], tag_value = [1]\<rparr>, \<lparr>tag_key = [1], tag_value = [5]\<rparr>] [] =
   series_info_new [\<lparr>tag_key = [1], tag_value = [5]\<rparr>, \<lparr>tag_key = [2], tag_value = [1]\<rparr>] []"
  by (rule series_info_tag_order) simp_all

text \<open>C12: For a message whose tags are already sorted by key, the series id and the field ids under
  which the cache files a point are those under which the index registers its series.\<close>

theorem point_ids_match_index:
  assumes "series_info_from_flatbuffers p = Ok si" and "point_from p = Ok pt"
    and "sorted (map (\<lambda>t. the (fbt_key t)) (the (fbp_tags p)))"
  shows "imp_series_id pt = si_id si \<and> map fv_field_id (imp_fields pt) = map fi_id (si_field_infos si)"
proof -
  obtain ts tags where ts: "fbp_tags p = Some ts" "try_map tag_from_flatbuffers ts = Ok tags"
    using assms(1) by (auto simp: series_info_from_flatbuffers_def rbind_eq_Ok split: option.splits)
  obtain fs fis where fs: "fbp_fields p = Some fs" "try_map field_info_from_flatbuffers fs = Ok fis"
    and si: "si = series_info_finish \<lparr>si_id = 0, si_tags = tags, si_field_infos = fis, si_finished = True\<rparr>"
    using assms(1) ts by (auto simp: series_info_from_flatbuffers_def rbind_eq_Ok split: option.splits)
  have all: "list_all2 (\<lambda>x y. tag_from_flatbuffers x = Ok y) ts tags"
    using ts(2) by (simp add: try_map_Ok_iff)
  have "try_map (\<lambda>t. rbind (unwrap_option (fbt_key t)) (\<lambda>k. rbind (unwrap_option (fbt_value t)) (\<lambda>v.
      Ok \<lparr>tag_key = k, tag_value = v\<rparr>))) ts = (Ok tags :: (ModelError, Tag list) result)"
    unfolding try_map_Ok_iff by (rule list_all2_mono[OF all])
      (auto simp: tag_from_flatbuffers_def rbind_eq_Ok elim!: ok_or.elims)
  moreover have "sort_tags tags = tags"
    using assms(3) ts(1) by (intro sort_tags_sorted) (simp add: tags_keys[OF ts(2)])
  moreover have "map (\<lambda>fi. generate_field_id (fi_name fi) sid) fis =
      map (\<lambda>f. generate_field_id (the (fbf_name f)) sid) fs" for sid
    using arg_cong[OF field_infos_names[OF fs(2)], of "map (\<lambda>n. generate_field_id n sid)"]
    by (simp add: comp_def)
  ultimately show ?thesis
    using assms(2) fs(1) ts(1)
    by (auto simp: point_from_def si rbind_eq_Ok Let_def comp_def field_info_finish_def dest!: field_value_ids)
qed

definition sample_point :: FbPoint where
  "sample_point =
     \<lparr>fbp_tags = Some [\<lparr>fbt_key = Some [0x61], fbt_value = Some [0x31]\<rparr>, \<lparr>fbt_key = Some [0x62], fbt_value = Some [0x32]\<rparr>],
      fbp_fields = Some [\<lparr>fbf_name = Some [0x66], fbf_type = FbInteger, fbf_value = Some [0, 0, 0, 0, 0, 0, 0, 7]\<rparr>],
      fbp_timestamp = 1\<rparr>"

theorem point_ids_match_index_witness:
  "\<exists>si pt. series_info_from_flatbuffers sample_point = Ok si \<and> point_from sample_point = Ok pt \<and>
    imp_series_id pt = si_id si \<and> map fv_field_id (imp_fields pt) = map fi_id (si_field_infos si)"
proof -
  obtain si where si: "series_info_from_flatbuffers sample_point = Ok si"
    by (simp add: sample_point_def series_info_from_flatbuffers_def tag_from_flatbuffers_def field_info_from_flatbuffers_def)
  obtain pt where pt: "point_from sample_point = Ok pt"
    by (simp add: sample_point_def point_from_def Let_def)
  have "sorted (map (\<lambda>t. the (fbt_key t)) (the (fbp_tags sample_point)))"
    by (simp add: sample_point_def)
  from point_ids_match_index[OF si pt this] si pt show ?thesis by blast
qed

text \<open>For a message whose tags are not sorted the two ids can differ: the index sorts the tags before
  hashing, the cache hashes them in message order.\<close>

lemma point_ids_differ_unsorted:
  "\<exists>p si pt. series_info_from_flatbuffers p = Ok si \<and> point_from p = Ok pt \<and> imp_series_id pt \<noteq> si_id si"
proof -
  let ?t = "\<lambda>k v. \<lparr>fbt_key = Some [k], fbt_value = Some [v]\<rparr> :: FbTag"
  let ?p = "\<lparr>fbp_tags = Some [?t 0x62 0x31, ?t 0x61 0x32], fbp_fields = Some [], fbp_timestamp = 1\<rparr> :: FbPoint"
  let ?tags = "[\<lparr>tag_key = [0x62], tag_value = [0x31]\<rparr>, \<lparr>tag_key = [0x61], tag_value = [0x32]\<rparr>] :: Tag list"
  have "point_from ?p = Ok \<lparr>imp_series_id = generate_series_id ?tags, imp_timestamp = 1, imp_fields = []\<rparr>"
    by (simp add: point_from_def)
  moreover have "\<exists>si. series_info_from_flatbuffers ?p = Ok si \<and> si_id si = generate_series_id (rev ?tags)"
    by (simp add: series_info_from_flatbuffers_def tag_from_flatbuffers_def sort_tags_def)
  moreover have "generate_series_id ?tags \<noteq> generate_series_id (rev ?tags)"
    by (simp add: generate_series_id_def bkdr_hash_with_def bkdr_number_def bkdr_new_def SEED_def)
  ultimately show ?thesis by (metis InMemPoint.select_convs(1))
qed

end
