(* ===== verification/Errors.thy ===== *)
theory Errors
  imports Models
begin

text \<open>
  The error enum of the storage engine, \<^verbatim>\<open>src/tskv/src/error.rs\<close>.  The foreign error
  values it wraps (I/O, channels, bincode, flatbuffers) are strings.
\<close>

datatype TskvError =
    EIO string
  | EOpenFile string
  | EReadFile string
  | EWriteFile string
  | ESyncFile string
  | EInvalidFileName string string
  | ECancel
  | ESend
  | EReceive string
  | EInvalidFlatbuffer string
  | ELogRecordErr string
  | EEncode string
  | EDecode string
  | EForwardIndexErr string
  | EErrApplyEdit
  | EReadTsmErr string
  | EWriteTsmErr string
  | EUnableToWalkDir string
  | EDatabaseNotFound string
  | EInvalidModel ModelError

end
