(* ===== verification/MemCache.thy ===== *)
theory MemCache
  imports Errors
begin

text \<open>
  The mutable cache of \<^verbatim>\<open>src/tskv/src/memcache.rs\<close> with the byte decoders of
  \<^verbatim>\<open>byte_utils.rs\<close> and the time range of \<^verbatim>\<open>tseries_family.rs\<close>.  The hash map from field ids
  to entries is a partial map.  The results are the bounds invariant of an entry, the
  contents after insertion, deletion and freezing, and that \<^verbatim>\<open>overlap\<close> accepts every range.
\<close>

subsection \<open>Time ranges and signed order\<close>

record TimeRange =
  tr_min_ts :: i64
  tr_max_ts :: i64

definition i64_MAX :: i64 where "i64_MAX = 0x7fffffffffffffff"

definition i64_MIN :: i64 where "i64_MIN = 0x8000000000000000"

abbreviation slt :: "i64 \<Rightarrow> i64 \<Rightarrow> bool" where
  "slt a b \<equiv> sint a < sint b"

abbreviation sle :: "i64 \<Rightarrow> i64 \<Rightarrow> bool" where
  "sle a b \<equiv> sint a \<le> sint b"

subsection \<open>Byte decoders\<close>

text \<open>The decoders cast the slice to an array of the target's size without looking at its length; reading
  past the end is undefined, and the model has a panic there.\<close>

definition decode_be :: "nat \<Rightarrow> bytes \<Rightarrow> ('e, 'a::len word) result" where
  "decode_be n key = (if n \<le> length key then Ok (from_be (take n key)) else Panic)"

definition decode_be_u64 :: "bytes \<Rightarrow> ('e, u64) result" where
  "decode_be_u64 key = decode_be 8 key"

definition decode_be_i64 :: "bytes \<Rightarrow> ('e, i64) result" where
  "decode_be_i64 key = decode_be 8 key"

definition decode_be_f64 :: "bytes \<Rightarrow> ('e, f64) result" where
  "decode_be_f64 key = decode_be 8 key"

definition decode_be_u32 :: "bytes \<Rightarrow> ('e, u32) result" where
  "decode_be_u32 key = decode_be 4 key"

definition decode_be_u16 :: "bytes \<Rightarrow> ('e, u16) result" where
  "decode_be_u16 key = decode_be 2 key"

definition decode_be_u128 :: "bytes \<Rightarrow> ('e, 128 word) result" where
  "decode_be_u128 key = decode_be 16 key"

definition decode_be_bool :: "bytes \<Rightarrow> ('e, bool) result" where
  "decode_be_bool key = rmap (\<lambda>val. (val :: u8) > 0) (decode_be 1 key)"

subsection \<open>Cells and entries\<close>

datatype DataType =
    DU64 i64 u64
  | DI64 i64 i64
  | DStr i64 bytes
  | DF64 i64 f64
  | DBool i64 bool

fun timestamp :: "DataType \<Rightarrow> i64" where
  "timestamp (DU64 ts val) = ts"
| "timestamp (DI64 ts val) = ts"
| "timestamp (DStr ts val) = ts"
| "timestamp (DF64 ts val) = ts"
| "timestamp (DBool ts val) = ts"

record MemEntry =
  me_ts_min :: i64
  me_ts_max :: i64
  me_field_type :: ValueType
  me_cells :: "DataType list"

definition mem_entry_default :: MemEntry where
  "mem_entry_default = \<lparr>me_ts_min = i64_MAX, me_ts_max = i64_MIN, me_field_type = VUnknown, me_cells = []\<rparr>"

text \<open>\<^verbatim>\<open>read_cell\<close> logs the cells it visits; the model returns them.\<close>

definition read_cell :: "MemEntry \<Rightarrow> TimeRange \<Rightarrow> DataType list" where
  "read_cell me tr =
     filter (\<lambda>d. slt (tr_min_ts tr) (timestamp d) \<and> slt (timestamp d) (tr_max_ts tr)) (me_cells me)"

definition mem_entry_overlap :: "MemEntry \<Rightarrow> TimeRange \<Rightarrow> bool" where
  "mem_entry_overlap me tr \<longleftrightarrow> \<not> (slt (tr_max_ts tr) (me_ts_min me) \<and> slt (me_ts_max me) (tr_min_ts tr))"

definition delete_data_cell :: "MemEntry \<Rightarrow> TimeRange \<Rightarrow> MemEntry" where
  "delete_data_cell me tr =
     me\<lparr>me_cells := filter (\<lambda>x. slt (timestamp x) (tr_min_ts tr) \<or> slt (tr_max_ts tr) (timestamp x)) (me_cells me)\<rparr>"

subsection \<open>The cache\<close>

record MemCache =
  mc_immutable :: bool
  mc_tf_id :: u32
  mc_seq_no :: u64
  mc_max_buf_size :: u64
  mc_data_cache :: "FieldId \<rightharpoonup> MemEntry"
  mc_cache_size :: u64
  mc_is_delta :: bool

definition mem_cache_new :: "u32 \<Rightarrow> u64 \<Rightarrow> u64 \<Rightarrow> bool \<Rightarrow> MemCache" where
  "mem_cache_new tf_id max_size seq is_delta =
     \<lparr>mc_immutable = False, mc_tf_id = tf_id, mc_seq_no = seq, mc_max_buf_size = max_size,
      mc_data_cache = Map.empty, mc_cache_size = 0, mc_is_delta = is_delta\<rparr>"

definition mem_entry_push :: "MemEntry \<Rightarrow> DataType \<Rightarrow> ValueType \<Rightarrow> MemEntry" where
  "mem_entry_push item val vt =
     (let ts = timestamp val;
          item = (if slt (me_ts_max item) ts then item\<lparr>me_ts_max := ts\<rparr> else item);
          item = (if slt ts (me_ts_min item) then item\<lparr>me_ts_min := ts\<rparr> else item) in
      item\<lparr>me_field_type := vt, me_cells := me_cells item @ [val]\<rparr>)"

text \<open>\<^verbatim>\<open>size_of_val(&val)\<close> is the size of the enum, a constant \<^verbatim>\<open>cell_size\<close> of the platform.\<close>

definition mem_cache_insert ::
  "bool \<Rightarrow> u64 \<Rightarrow> MemCache \<Rightarrow> FieldId \<Rightarrow> DataType \<Rightarrow> ValueType \<Rightarrow> (TskvError, MemCache) result" where
  "mem_cache_insert oc cell_size mc fid val vt =
     (let item = (case mc_data_cache mc fid of Some e \<Rightarrow> e | None \<Rightarrow> mem_entry_default) in
      rbind (add_u64 oc (mc_cache_size mc) cell_size) (\<lambda>size.
      Ok (mc\<lparr>mc_data_cache := (mc_data_cache mc)(fid \<mapsto> mem_entry_push item val vt), mc_cache_size := size\<rparr>)))"

definition insert_raw ::
  "bool \<Rightarrow> u64 \<Rightarrow> MemCache \<Rightarrow> u64 \<Rightarrow> FieldId \<Rightarrow> Timestamp \<Rightarrow> ValueType \<Rightarrow> bytes \<Rightarrow> (TskvError, MemCache) result" where
  "insert_raw oc cell_size mc seq fid ts field_type buf =
     (let mc = mc\<lparr>mc_seq_no := seq\<rparr> in
      case field_type of
        VUnsigned \<Rightarrow> rbind (decode_be_u64 buf) (\<lambda>val. mem_cache_insert oc cell_size mc fid (DU64 ts val) VUnsigned)
      | VInteger \<Rightarrow> rbind (decode_be_i64 buf) (\<lambda>val. mem_cache_insert oc cell_size mc fid (DI64 ts val) VInteger)
      | VFloat \<Rightarrow> rbind (decode_be_f64 buf) (\<lambda>val. mem_cache_insert oc cell_size mc fid (DF64 ts val) VFloat)
      | VString \<Rightarrow> mem_cache_insert oc cell_size mc fid (DStr ts buf) VString
      | VBoolean \<Rightarrow> rbind (decode_be_bool buf) (\<lambda>val. mem_cache_insert oc cell_size mc fid (DBool ts val) VBoolean)
      | VUnknown \<Rightarrow> Panic)"

text \<open>\<^verbatim>\<open>sort_by\<close> on the timestamps is stable.\<close>

definition mem_switch_to_immutable :: "MemCache \<Rightarrow> MemCache" where
  "mem_switch_to_immutable mc =
     mc\<lparr>mc_data_cache := (\<lambda>fid. map_option (\<lambda>e. e\<lparr>me_cells := sort_key (\<lambda>c. sint (timestamp c)) (me_cells e)\<rparr>)
          (mc_data_cache mc fid)),
        mc_immutable := True\<rparr>"

definition mem_is_full :: "MemCache \<Rightarrow> bool" where
  "mem_is_full mc \<longleftrightarrow> mc_cache_size mc \<ge> mc_max_buf_size mc"

subsection \<open>Contents and invariant\<close>

definition mem_cells :: "MemCache \<Rightarrow> FieldId \<Rightarrow> DataType list" where
  "mem_cells mc fid = (case mc_data_cache mc fid of Some e \<Rightarrow> me_cells e | None \<Rightarrow> [])"

definition entry_wf :: "MemEntry \<Rightarrow> bool" where
  "entry_wf e \<longleftrightarrow> (\<forall>c \<in> set (me_cells e). sle (me_ts_min e) (timestamp c) \<and> sle (timestamp c) (me_ts_max e))"

definition mem_wf :: "MemCache \<Rightarrow> bool" where
  "mem_wf mc \<longleftrightarrow> (\<forall>fid e. mc_data_cache mc fid = Some e \<longrightarrow> entry_wf e)"

lemma sint_eq_iff: "sint (a :: i64) = sint b \<longleftrightarrow> a = b"
  by (auto intro: signed_word_eqI)

lemma sint_extremes [simp]: "sint i64_MAX = 2 ^ 63 - 1" "sint i64_MIN = - (2 ^ 63)"
  by (simp_all add: i64_MAX_def i64_MIN_def)

lemma entry_wf_default [simp]: "entry_wf mem_entry_default"
  by (simp add: entry_wf_def mem_entry_default_def)

lemma mem_entry_push_simps [simp]:
  "me_cells (mem_entry_push e c vt) = me_cells e @ [c]"
  "me_field_type (mem_entry_push e c vt) = vt"
  "sint (me_ts_min (mem_entry_push e c vt)) = min (sint (me_ts_min e)) (sint (timestamp c))"
  "sint (me_ts_max (mem_entry_push e c vt)) = max (sint (me_ts_max e)) (sint (timestamp c))"
  by (auto simp: mem_entry_push_def Let_def)

lemma entry_wf_push: "entry_wf e \<Longrightarrow> entry_wf (mem_entry_push e c vt)"
  by (auto simp: entry_wf_def)

lemma entry_wf_delete: "entry_wf e \<Longrightarrow> entry_wf (delete_data_cell e tr)"
  by (auto simp: entry_wf_def delete_data_cell_def)

lemma mem_wf_new [simp]: "mem_wf (mem_cache_new tf sz seq d)"
  by (simp add: mem_wf_def mem_cache_new_def)

lemma mem_cells_new [simp]: "mem_cells (mem_cache_new tf sz seq d) fid = []"
  by (simp add: mem_cells_def mem_cache_new_def)

lemma mem_cache_insert_Ok:
  assumes "mem_cache_insert oc cs mc fid c vt = Ok mc'"
  shows "mem_cells mc' = (mem_cells mc)(fid := mem_cells mc fid @ [c])"
    and "mem_wf mc \<Longrightarrow> mem_wf mc'" and "mc_seq_no mc' = mc_seq_no mc" and "mc_cache_size mc' = mc_cache_size mc + cs"
    and "mc_tf_id mc' = mc_tf_id mc"
  using assms
  by (auto simp: mem_cache_insert_def mem_cells_def mem_wf_def fun_eq_iff rbind_eq_Ok add_u64_def entry_wf_push
      mem_entry_default_def[THEN arg_cong[where f = me_cells]] split: option.splits if_splits)

text \<open>The value a raw buffer stands for.\<close>

fun raw_cell :: "Timestamp \<Rightarrow> ValueType \<Rightarrow> bytes \<Rightarrow> DataType option" where
  "raw_cell ts VUnsigned buf = (if 8 \<le> length buf then Some (DU64 ts (from_be (take 8 buf))) else None)"
| "raw_cell ts VInteger buf = (if 8 \<le> length buf then Some (DI64 ts (from_be (take 8 buf))) else None)"
| "raw_cell ts VFloat buf = (if 8 \<le> length buf then Some (DF64 ts (from_be (take 8 buf))) else None)"
| "raw_cell ts VString buf = Some (DStr ts buf)"
| "raw_cell ts VBoolean buf = (case buf of [] \<Rightarrow> None | b # _ \<Rightarrow> Some (DBool ts (b > 0)))"
| "raw_cell ts VUnknown buf = None"

lemma insert_raw_eq:
  "insert_raw oc cs mc seq fid ts vt buf =
    (case raw_cell ts vt buf of
       Some c \<Rightarrow> mem_cache_insert oc cs (mc\<lparr>mc_seq_no := seq\<rparr>) fid c vt
     | None \<Rightarrow> Panic)"
  by (cases vt; cases buf)
    (auto simp: insert_raw_def decode_be_u64_def decode_be_i64_def decode_be_f64_def decode_be_bool_def
      decode_be_def from_be_def)

lemma mem_cells_seq [simp]: "mem_cells (mc\<lparr>mc_seq_no := seq\<rparr>) = mem_cells mc"
  by (simp add: mem_cells_def fun_eq_iff)

lemma mem_wf_seq [simp]: "mem_wf (mc\<lparr>mc_seq_no := seq\<rparr>) = mem_wf mc"
  by (simp add: mem_wf_def)

lemma mem_cells_immutable:
  "mem_cells (mem_switch_to_immutable mc) fid = sort_key (\<lambda>c. sint (timestamp c)) (mem_cells mc fid)"
  by (auto simp: mem_cells_def mem_switch_to_immutable_def split: option.splits)

lemma mem_wf_immutable: "mem_wf mc \<Longrightarrow> mem_wf (mem_switch_to_immutable mc)"
  by (auto simp: mem_wf_def mem_switch_to_immutable_def entry_wf_def)

text \<open>C11: A successful raw insertion appends exactly the decoded value to the field's cells, leaves every
  other field alone, records the sequence number, grows the size by one cell and keeps the time bounds
  of every entry.\<close>

theorem insert_raw_contents:
  assumes "mem_wf mc" and "insert_raw oc cs mc seq fid ts vt buf = Ok mc'"
  shows "\<exists>c. raw_cell ts vt buf = Some c \<and> mem_cells mc' = (mem_cells mc)(fid := mem_cells mc fid @ [c]) \<and>
    mc_seq_no mc' = seq \<and> mc_cache_size mc' = mc_cache_size mc + cs \<and> mem_wf mc'"
  using assms mem_cache_insert_Ok[of oc cs "mc\<lparr>mc_seq_no := seq\<rparr>" fid _ vt mc']
  by (auto simp: insert_raw_eq split: option.splits)

theorem insert_raw_contents_witness:
  "\<exists>mc'. insert_raw True 32 (mem_cache_new 1 100 0 False) 9 5 77 VBoolean [1] = Ok mc' \<and>
    mem_cells mc' 5 = [DBool 77 True] \<and> mc_seq_no mc' = 9"
proof -
  obtain mc' where mc': "insert_raw True 32 (mem_cache_new 1 100 0 False) 9 5 77 VBoolean [1] = Ok mc'"
    by (simp add: insert_raw_eq mem_cache_insert_def add_u64_def mem_cache_new_def)
  from insert_raw_contents[OF mem_wf_new this] show ?thesis using mc' by auto
qed

text \<open>\<^verbatim>\<open>overlap\<close> joins its two conditions with \<^verbatim>\<open>&&\<close>, so it accepts every range for every entry that
  holds a cell, also ranges that lie completely outside the entry's bounds.\<close>

lemma mem_entry_overlap_always:
  assumes "entry_wf e" and "me_cells e \<noteq> []" and "sle (tr_min_ts tr) (tr_max_ts tr)"
  shows "mem_entry_overlap e tr"
  using assms by (cases "me_cells e") (auto simp: mem_entry_overlap_def entry_wf_def)

end
