(* ===== verification/Simple8b.thy ===== *)
theory Simple8b
  imports Prelude
begin

text \<open>
  The bit packing of \<^verbatim>\<open>src/tskv/src/tsm/coders/simple8b.rs\<close>: \<^verbatim>\<open>encode\<close> packs a slice of
  \<^verbatim>\<open>u64\<close> values into big-endian words with a four bit selector, \<^verbatim>\<open>decode\<close> unpacks them.
  The main results are that \<^verbatim>\<open>encode\<close> succeeds exactly on values of at most 60 bits
  and that \<^verbatim>\<open>decode\<close> restores what it packed.
\<close>

subsection \<open>The encoder\<close>

definition MAX_VALUE :: u64 where
  "MAX_VALUE = push_bit 60 1 - 1"

definition S8B_BIT_SIZE :: nat where
  "S8B_BIT_SIZE = 60"

definition NUM_BITS :: "(nat \<times> nat) list" where
  "NUM_BITS = [(60, 1), (30, 2), (20, 3), (15, 4), (12, 5), (10, 6), (8, 7), (7, 8), (6, 10),
    (5, 12), (4, 15), (3, 20), (2, 30), (1, 60)]"

text \<open>The loop over \<^verbatim>\<open>src[i..]\<close> that fills one word; \<^const>\<open>None\<close> is \<^verbatim>\<open>continue 'codes\<close>.\<close>

fun pack_loop :: "nat \<Rightarrow> nat \<Rightarrow> u64 \<Rightarrow> nat \<Rightarrow> u64 \<Rightarrow> u64 list \<Rightarrow> u64 option" where
  "pack_loop int_n bit_n max_val k val [] = Some val"
| "pack_loop int_n bit_n max_val k val (in_v # rest) =
     (if k < int_n then
        if in_v \<ge> max_val then None
        else pack_loop int_n bit_n max_val (k + 1)
               (val OR push_bit (take_bit 6 (take_bit 8 (k * bit_n))) in_v) rest
      else Some val)"

text \<open>The loop over \<^verbatim>\<open>NUM_BITS\<close>: the word of the first code that fits and the number of values it holds.\<close>

fun codes_loop :: "nat \<Rightarrow> (nat \<times> nat) list \<Rightarrow> u64 list \<Rightarrow> (u64 \<times> nat) option" where
  "codes_loop idx [] src = None"
| "codes_loop idx ((int_n, bit_n) # codes) src =
     (if int_n > length src then codes_loop (idx + 1) codes src
      else case pack_loop int_n bit_n (push_bit (take_bit 6 bit_n) 1) 0
                  (push_bit S8B_BIT_SIZE (of_nat (idx + 2))) src of
             None \<Rightarrow> codes_loop (idx + 1) codes src
           | Some val \<Rightarrow> Some (val, int_n))"

text \<open>The number of leading ones of the run that is tried first, zero if fewer than 120 values remain.\<close>

definition ones_run :: "u64 list \<Rightarrow> nat" where
  "ones_run src =
     (if length src \<ge> 120
      then length (takeWhile (\<lambda>x. x = 1) (if length src \<ge> 240 then take 240 src else take 120 src))
      else 0)"

lemma codes_loop_pos:
  "codes_loop idx codes src = Some (val, n) \<Longrightarrow> (\<forall>c \<in> set codes. 0 < fst c) \<Longrightarrow> 0 < n"
  by (induction idx codes src rule: codes_loop.induct) (auto split: if_splits option.splits)

lemma NUM_BITS_pos: "\<forall>c \<in> set NUM_BITS. 0 < fst c"
  by (simp add: NUM_BITS_def)

function simple8b_encode_loop :: "u64 list \<Rightarrow> bytes \<Rightarrow> (string, bytes) result" where
  "simple8b_encode_loop src dst =
     (if src = [] then Ok dst
      else if ones_run src = 240 then simple8b_encode_loop (drop 240 src) (resize (length dst + 8) 0 dst)
      else if ones_run src \<ge> 120 then simple8b_encode_loop (drop 120 src) (dst @ to_be_bytes (push_bit 60 1))
      else case codes_loop 0 NUM_BITS src of
             None \<Rightarrow> Err ''value out of bounds''
           | Some (val, int_n) \<Rightarrow> simple8b_encode_loop (drop int_n src) (dst @ to_be_bytes val))"
  by pat_completeness auto
termination
  by (relation "measure (\<lambda>(src, dst). length src)")
    (auto dest: codes_loop_pos[OF _ NUM_BITS_pos])

declare simple8b_encode_loop.simps [simp del]

definition simple8b_encode :: "u64 list \<Rightarrow> bytes \<Rightarrow> (string, bytes) result" where
  "simple8b_encode src dst = simple8b_encode_loop src dst"

subsection \<open>The decoder\<close>

text \<open>The loop \<^verbatim>\<open>for i in &mut dst[0..n] { *i = v & m; v >>= s }\<close>.\<close>

primrec unpack_loop :: "nat \<Rightarrow> u64 \<Rightarrow> nat \<Rightarrow> u64 \<Rightarrow> u64 list" where
  "unpack_loop 0 m s v = []"
| "unpack_loop (Suc n) m s v = (v AND m) # unpack_loop n m s (drop_bit s v)"

definition decode_value :: "u64 \<Rightarrow> u64 list \<Rightarrow> (string, u64 list \<times> nat) result" where
  "decode_value v dst =
     (let sel = drop_bit S8B_BIT_SIZE v;
          out = (\<lambda>vals. rmap (\<lambda>dst'. (dst', length vals)) (write_front dst vals)) in
      if sel = 0 then out (replicate 240 1)
      else if sel = 1 then out (replicate 120 1)
      else if sel = 2 then out (unpack_loop 60 0x01 1 v)
      else if sel = 3 then out (unpack_loop 30 0x03 2 v)
      else if sel = 4 then out (unpack_loop 20 0x07 3 v)
      else if sel = 5 then out (unpack_loop 15 0x0f 4 v)
      else if sel = 6 then out (unpack_loop 12 0x1f 5 v)
      else if sel = 7 then out (unpack_loop 10 0x3f 6 v)
      else if sel = 8 then out (unpack_loop 8 0x7f 7 v)
      else if sel = 9 then out (unpack_loop 7 0xff 8 v)
      else if sel = 10 then out (unpack_loop 6 0x03ff 10 v)
      else if sel = 11 then out (unpack_loop 5 0x0fff 12 v)
      else if sel = 12 then out [v AND 0x7fff, drop_bit 15 v AND 0x7fff, drop_bit 30 v AND 0x7fff,
        drop_bit 45 v AND 0x7fff]
      else if sel = 13 then out (unpack_loop 3 0x000fffff 20 v)
      else if sel = 14 then out (unpack_loop 2 0x3fffffff 30 v)
      else if sel = 15 then out [v AND 0x0fffffffffffffff]
      else Ok (dst, 0))"

function simple8b_decode_loop :: "bytes \<Rightarrow> nat \<Rightarrow> u64 list \<Rightarrow> (string, u64 list) result" where
  "simple8b_decode_loop src j dst =
     (if src = [] then Ok (take j dst)
      else let dst = (if length dst < j + 240 then resize (j + 240) 0 dst else dst) in
           if length src < 8 then Panic
           else rbind (decode_value (from_be (take 8 src)) (drop j dst))
                  (\<lambda>(tail, n). simple8b_decode_loop (drop 8 src) (j + n) (take j dst @ tail)))"
  by pat_completeness auto
termination
  by (relation "measure (\<lambda>(src, j, dst). length src)") auto

declare simple8b_decode_loop.simps [simp del]

definition simple8b_decode :: "bytes \<Rightarrow> u64 list \<Rightarrow> (string, u64 list) result" where
  "simple8b_decode src dst = simple8b_decode_loop src 0 dst"

subsection \<open>Packing and unpacking one word\<close>

primrec packw :: "nat \<Rightarrow> u64 list \<Rightarrow> u64" where
  "packw b [] = 0"
| "packw b (v # vs) = v OR push_bit b (packw b vs)"

lemma pack_loop_eq:
  assumes "k + n = int_n" "n \<le> length src" "int_n * b \<le> 60" "0 < b"
  shows "pack_loop int_n b mx k val src =
    (if \<forall>v \<in> set (take n src). v < mx
     then Some (val OR push_bit (k * b) (packw b (take n src))) else None)"
  using assms
proof (induction int_n b mx k val src arbitrary: n rule: pack_loop.induct)
  case (1 int_n b mx k val)
  then show ?case by simp
next
  case (2 int_n b mx k val v rest)
  show ?case
  proof (cases n)
    case 0
    then show ?thesis using 2 by simp
  next
    case (Suc m)
    have "k * b < int_n * b" using 2 Suc by simp
    then have "k * b < 60" using 2 by linarith
    then have small: "take_bit 6 (take_bit 8 (k * b)) = k * b"
      by (simp add: take_bit_nat_eq_self)
    have "push_bit (k * b) (v OR push_bit b (packw b (take m rest))) =
      push_bit (k * b) v OR push_bit (Suc k * b) (packw b (take m rest))"
      by (simp add: add.commute)
    then show ?thesis using 2 Suc small by (auto simp: or.assoc)
  qed
qed

lemma take_bit_packw:
  assumes "\<forall>v \<in> set vs. v < 2 ^ b" "b * length vs \<le> m" "m \<le> 64" "b < 64"
  shows "take_bit m (packw b vs) = packw b vs"
  using assms
proof (induction vs arbitrary: m)
  case Nil
  then show ?case by simp
next
  case (Cons v vs)
  have v: "take_bit b v = v" using Cons by (simp add: take_bit_word_eq_self_iff)
  have "take_bit m (push_bit b (packw b vs)) = push_bit b (packw b vs)"
    using Cons.IH[of "m - b"] Cons.prems by (simp add: take_bit_push_bit)
  moreover have "take_bit m v = v"
    using v Cons.prems by (metis add_leD1 length_Cons min.absorb2 mult_Suc_right take_bit_take_bit)
  ultimately show ?case by simp
qed

lemma unpack_packw:
  assumes "\<forall>v \<in> set vs. v < 2 ^ b" "b * length vs \<le> 60" "take_bit (b * length vs) w = packw b vs"
    "b < 64"
  shows "unpack_loop (length vs) (mask b) b w = vs"
  using assms
proof (induction vs arbitrary: w)
  case Nil
  then show ?case by simp
next
  case (Cons v vs)
  let ?n = "b * length (v # vs)" and ?P = "packw b vs"
  have v: "take_bit b v = v" using Cons.prems by (simp add: take_bit_word_eq_self_iff)
  have P: "take_bit (64 - b) ?P = ?P"
    using Cons.prems by (intro take_bit_packw) auto
  have "w AND mask b = take_bit b (take_bit ?n w)"
    by (simp flip: take_bit_eq_mask)
  also have "\<dots> = v"
    using Cons.prems v by (simp add: take_bit_push_bit)
  finally have hd: "w AND mask b = v" .
  have "take_bit (b * length vs) (drop_bit b w) = drop_bit b (take_bit ?n w)"
    by (simp add: drop_bit_take_bit)
  also have "\<dots> = drop_bit b v OR drop_bit b (push_bit b ?P)"
    using Cons.prems by simp
  also have "\<dots> = ?P"
  proof -
    have "drop_bit b (push_bit b ?P) = take_bit (64 - b) ?P"
      by (rule bit_word_eqI) (use Cons.prems in \<open>auto simp: bit_simps\<close>)
    moreover have "drop_bit b v = 0" using v by (metis drop_bit_take_bit cancel_comm_monoid_add_class.diff_cancel take_bit_0)
    ultimately show ?thesis using P by simp
  qed
  finally show ?case using Cons hd by simp
qed

subsection \<open>Decoding one word\<close>

definition values_of :: "u64 \<Rightarrow> u64 list" where
  "values_of v = (case decode_value v (replicate 240 0) of Ok (d, n) \<Rightarrow> take n d | _ \<Rightarrow> [])"

lemma length_unpack_loop [simp]: "length (unpack_loop n m s v) = n"
  by (induction n arbitrary: v) simp_all

lemma decode_value_values_of:
  "240 \<le> length dst \<Longrightarrow> decode_value v dst =
    Ok (values_of v @ drop (length (values_of v)) dst, length (values_of v))"
  unfolding decode_value_def values_of_def Let_def by (simp add: write_front_def)

lemma codes_cases:
  assumes "idx < 14"
  shows "idx = 0 \<or> idx = 1 \<or> idx = 2 \<or> idx = 3 \<or> idx = 4 \<or> idx = 5 \<or> idx = 6 \<or> idx = 7 \<or>
    idx = 8 \<or> idx = 9 \<or> idx = 10 \<or> idx = 11 \<or> idx = 12 \<or> idx = (13::nat)"
  using assms by presburger

lemma unpack_loop_1_4:
  "unpack_loop 1 m s v = [v AND m]"
  "unpack_loop 4 m s v = [v AND m, drop_bit s v AND m, drop_bit (2 * s) v AND m, drop_bit (3 * s) v AND m]"
  by (simp_all add: numeral_eq_Suc)

lemma values_of_code:
  assumes "idx < 14" "drop_bit 60 w = of_nat (idx + 2)"
  shows "values_of w = unpack_loop (fst (NUM_BITS ! idx)) (mask (snd (NUM_BITS ! idx))) (snd (NUM_BITS ! idx)) w"
  using codes_cases[OF assms(1)] assms(2)
  by (elim disjE) (simp_all add: values_of_def decode_value_def S8B_BIT_SIZE_def NUM_BITS_def
      write_front_def mask_eq_exp_minus_1 unpack_loop_1_4[simplified])

lemma length_NUM_BITS [simp]: "length NUM_BITS = 14"
  by (simp add: NUM_BITS_def)

lemma NUM_BITS_fit:
  "\<forall>c \<in> set NUM_BITS. fst c * snd c \<le> 60 \<and> 0 < snd c \<and> snd c \<le> 60"
  by (simp add: NUM_BITS_def)

lemma values_of_packed:
  assumes idx: "idx < 14" and code: "NUM_BITS ! idx = (n, b)" and len: "length vs = n"
    and fits: "\<forall>v \<in> set vs. v < 2 ^ b"
  shows "values_of (push_bit 60 (of_nat (idx + 2)) OR packw b vs) = vs"
proof -
  let ?w = "push_bit 60 (of_nat (idx + 2)) OR packw b vs"
  have nb: "n * b \<le> 60" "b \<le> 60"
    using NUM_BITS_fit idx code nth_mem[of idx NUM_BITS] by (auto simp: NUM_BITS_def)
  have P: "take_bit (b * n) (packw b vs) = packw b vs" "take_bit 60 (packw b vs) = packw b vs"
    using nb len fits by (auto intro!: take_bit_packw simp: mult.commute)
  have "drop_bit 60 (packw b vs) = 0"
    by (subst P(2) [symmetric]) (simp add: drop_bit_take_bit)
  moreover have "drop_bit 60 (push_bit 60 (of_nat (idx + 2))) = (of_nat (idx + 2) :: u64)"
    using codes_cases[OF idx] by (elim disjE) simp_all
  ultimately have sel: "drop_bit 60 ?w = of_nat (idx + 2)" by simp
  have "take_bit (b * n) ?w = packw b vs"
    using P nb by (simp add: take_bit_push_bit mult.commute)
  then show ?thesis
    using values_of_code[OF idx sel] unpack_packw[OF fits] code len nb by (simp add: mult.commute)
qed

lemma codes_loop_step:
  assumes "n * b \<le> 60" "0 < b" "b \<le> 60"
  shows "codes_loop i ((n, b) # cs) src =
    (if n \<le> length src \<and> (\<forall>v \<in> set (take n src). v < 2 ^ b)
     then Some (push_bit 60 (of_nat (i + 2)) OR packw b (take n src), n)
     else codes_loop (Suc i) cs src)"
  using assms by (auto simp: pack_loop_eq[of 0 n n] S8B_BIT_SIZE_def take_bit_nat_eq_self push_bit_eq_mult)

lemma codes_loop_Some:
  assumes "codes_loop i cs src = Some (val, n)"
    "\<forall>c \<in> set cs. fst c * snd c \<le> 60 \<and> 0 < snd c \<and> snd c \<le> 60"
  shows "\<exists>j b. j < length cs \<and> cs ! j = (n, b) \<and> n \<le> length src \<and>
    (\<forall>v \<in> set (take n src). v < 2 ^ b) \<and> b \<le> 60 \<and>
    val = push_bit 60 (of_nat (i + j + 2)) OR packw b (take n src)"
  using assms
proof (induction cs arbitrary: i)
  case Nil
  then show ?case by simp
next
  case (Cons c cs)
  obtain m b where c: "c = (m, b)" by (cases c)
  show ?case
  proof (cases "m \<le> length src \<and> (\<forall>v \<in> set (take m src). v < 2 ^ b)")
    case True
    then show ?thesis
      using Cons.prems c codes_loop_step[of m b i cs src] by (intro exI[of _ 0] exI[of _ b]) auto
  next
    case False
    then have "codes_loop (Suc i) cs src = Some (val, n)"
      using Cons.prems c codes_loop_step[of m b i cs src] by (auto simp del: codes_loop.simps split: if_splits)
    then obtain j b' where "j < length cs \<and> cs ! j = (n, b') \<and> n \<le> length src \<and>
      (\<forall>v \<in> set (take n src). v < 2 ^ b') \<and> b' \<le> 60 \<and>
      val = push_bit 60 (of_nat (Suc i + j + 2)) OR packw b' (take n src)"
      using Cons.IH Cons.prems(2) by (meson list.set_intros(2))
    then show ?thesis by (intro exI[of _ "Suc j"] exI[of _ b']) simp
  qed
qed

lemma codes_loop_None:
  assumes "codes_loop i cs src = None" "(1, 60) \<in> set cs" "src \<noteq> []"
    "\<forall>c \<in> set cs. fst c * snd c \<le> 60 \<and> 0 < snd c \<and> snd c \<le> 60"
  shows "\<not> hd src < 2 ^ 60"
  using assms
proof (induction cs arbitrary: i)
  case (Cons c cs)
  then show ?case
    by (cases c; cases src) (auto simp: codes_loop_step simp del: codes_loop.simps split: if_splits)
qed simp

subsection \<open>Whole buffers\<close>

text \<open>The sequence of values in a buffer of whole words.\<close>

fun unpacked :: "bytes \<Rightarrow> u64 list" where
  "unpacked bs = (if length bs < 8 then [] else values_of (from_be (take 8 bs)) @ unpacked (drop 8 bs))"

declare unpacked.simps [simp del]

lemma unpacked_Nil [simp]: "unpacked [] = []"
  by (simp add: unpacked.simps)

lemma unpacked_word: "unpacked (to_be_bytes w @ bs) = values_of w @ unpacked bs"
  by (subst unpacked.simps) simp

lemma values_of_ones:
  "values_of 0 = replicate 240 1" "values_of (push_bit 60 1) = replicate 120 1"
  by (simp_all add: values_of_def decode_value_def S8B_BIT_SIZE_def write_front_def)

lemma simple8b_decode_loop_eq:
  assumes "8 dvd length src" "j \<le> length dst"
  shows "simple8b_decode_loop src j dst = Ok (take j dst @ unpacked src)"
  using assms
proof (induction src j dst rule: simple8b_decode_loop.induct)
  case (1 src j dst)
  show ?case
  proof (cases "src = []")
    case True
    then show ?thesis by (simp add: simple8b_decode_loop.simps)
  next
    case False
    define d where "d = (if length dst < j + 240 then resize (j + 240) 0 dst else dst)"
    define vs where "vs = values_of (from_be (take 8 src))"
    have len: "8 \<le> length src" using 1(2) False by (auto dest: dvd_imp_le)
    have d: "take j d = take j dst" "j + 240 \<le> length d"
      using 1(3) by (auto simp: d_def take_resize)
    have dec: "decode_value (from_be (take 8 src)) (drop j d) = Ok (vs @ drop (length vs) (drop j d), length vs)"
      using d by (simp add: vs_def decode_value_values_of)
    have "simple8b_decode_loop (drop 8 src) (j + length vs) (take j d @ vs @ drop (length vs) (drop j d)) =
        Ok (take (j + length vs) (take j d @ vs @ drop (length vs) (drop j d)) @ unpacked (drop 8 src))"
      using len d 1(2,3) by (intro 1(1)[OF False d_def _ dec refl]) auto
    then show ?thesis
      using len False d dec 1(3) by (subst simple8b_decode_loop.simps)
        (simp add: Let_def unpacked.simps[of src] flip: d_def vs_def)
  qed
qed

lemma simple8b_decode_eq: "8 dvd length src \<Longrightarrow> simple8b_decode src dst = Ok (unpacked src)"
  by (simp add: simple8b_decode_def simple8b_decode_loop_eq)

lemma ones_run_prefix:
  assumes "n \<le> ones_run src" "0 < n"
  shows "src = replicate n 1 @ drop n src"
proof -
  define a where "a = (if length src \<ge> 240 then take 240 src else take 120 src)"
  have n: "n \<le> length (takeWhile (\<lambda>x. x = 1) a)"
    using assms by (simp add: ones_run_def a_def split: if_splits)
  then have "n \<le> length a" "\<forall>x \<in> set (take n a). x = 1"
    using takeWhile_all_prefix by auto
  moreover have "take n a = take n src"
    using \<open>n \<le> length a\<close> by (auto simp: a_def min_def split: if_splits)
  moreover have "length a \<le> length src" by (simp add: a_def)
  ultimately have "take n src = replicate n 1"
    by (intro replicate_eqI) auto
  then show ?thesis by (metis append_take_drop_id)
qed

lemma le_MAX_VALUE_iff: "v \<le> MAX_VALUE \<longleftrightarrow> v < 2 ^ 60"
  by (simp add: MAX_VALUE_def word_le_nat_alt word_less_nat_alt) linarith

lemma simple8b_encode_loop_Ok:
  assumes "simple8b_encode_loop src dst = Ok out"
  shows "\<exists>ws. out = dst @ ws \<and> 8 dvd length ws \<and> unpacked ws = src \<and> length ws \<le> 8 * length src"
  using assms
proof (induction src dst rule: simple8b_encode_loop.induct)
  case (1 src dst)
  have word: ?case
    if w: "values_of w @ drop n src = src" and n: "n = length (values_of w)" "0 < n"
      and IH: "\<exists>ws. out = (dst @ to_be_bytes w) @ ws \<and> 8 dvd length ws \<and> unpacked ws = drop n src \<and>
        length ws \<le> 8 * length (drop n src)" for w n
  proof -
    obtain ws where ws: "out = (dst @ to_be_bytes w) @ ws" "8 dvd length ws" "unpacked ws = drop n src"
      "length ws \<le> 8 * length (drop n src)" using IH by auto
    have "n \<le> length src" using w n by (metis le_add1 length_append)
    then have "8 + length ws \<le> 8 * length src" using ws(4) n(2) by simp
    with ws w n show ?thesis
      by (intro exI[of _ "to_be_bytes w @ ws"]) (auto simp: unpacked_word)
  qed
  note unf = 1(4)[unfolded simple8b_encode_loop.simps[of src dst]]
  have zeros: "resize (length dst + 8) 0 dst = dst @ to_be_bytes 0"
    by (simp add: resize_def be_bytes_def numeral_eq_Suc)
  consider "src = []" | "src \<noteq> []" "ones_run src = 240"
    | "src \<noteq> []" "ones_run src \<noteq> 240" "ones_run src \<ge> 120"
    | "src \<noteq> []" "ones_run src \<noteq> 240" "\<not> ones_run src \<ge> 120" by blast
  then show ?case
  proof cases
    case 1
    then show ?thesis using unf by simp
  next
    case 2
    then show ?thesis
      using 1(1)[OF 2] unf ones_run_prefix[of 240 src]
      by (intro word[of 0 240]) (simp_all add: values_of_ones zeros)
  next
    case 3
    then show ?thesis
      using 1(2)[OF 3] unf ones_run_prefix[of 120 src]
      by (intro word[of "push_bit 60 1" 120]) (simp_all only: values_of_ones, simp_all)
  next
    case 4
    then obtain w n where w: "codes_loop 0 NUM_BITS src = Some (w, n)"
      and rec: "simple8b_encode_loop (drop n src) (dst @ to_be_bytes w) = Ok out"
      using unf by (auto split: option.splits)
    obtain j b where j: "j < 14" "NUM_BITS ! j = (n, b)" "n \<le> length src"
      "\<forall>v \<in> set (take n src). v < 2 ^ b" "w = push_bit 60 (of_nat (j + 2)) OR packw b (take n src)"
      using codes_loop_Some[OF w NUM_BITS_fit] by auto
    have "values_of w = take n src" using values_of_packed[OF j(1,2) _ j(4)] j by simp
    then show ?thesis
      using 1(3)[OF 4 w refl rec] codes_loop_pos[OF w NUM_BITS_pos] j(3) by (intro word[of w n]) auto
  qed
qed

definition fits60 :: "u64 list \<Rightarrow> bool" where
  "fits60 src \<longleftrightarrow> (\<forall>v \<in> set src. v < 2 ^ 60)"

lemma fits60_drop: "fits60 (take n src) \<Longrightarrow> fits60 (drop n src) = fits60 src"
  unfolding fits60_def by (metis UnE append_take_drop_id in_set_dropD set_append)

lemma fits60_ones: "n \<le> ones_run src \<Longrightarrow> 0 < n \<Longrightarrow> fits60 (take n src)"
proof -
  assume "n \<le> ones_run src" "0 < n"
  then have "take n src = replicate n 1"
    by (metis ones_run_prefix append_eq_conv_conj length_replicate)
  then show ?thesis by (simp add: fits60_def)
qed

lemma fits60_code: "codes_loop 0 NUM_BITS src = Some (w, n) \<Longrightarrow> fits60 (take n src)"
proof -
  assume "codes_loop 0 NUM_BITS src = Some (w, n)"
  from codes_loop_Some[OF this NUM_BITS_fit] obtain b
    where b: "\<forall>v \<in> set (take n src). v < 2 ^ b" "b \<le> 60" by blast
  have "(2::u64) ^ b \<le> 2 ^ 60" using b(2) by (intro word_2_power_mono) simp_all
  then show ?thesis unfolding fits60_def using b(1) order.strict_trans2 by blast
qed

lemma not_fits60_None: "codes_loop 0 NUM_BITS src = None \<Longrightarrow> src \<noteq> [] \<Longrightarrow> \<not> fits60 src"
  using codes_loop_None[of 0 NUM_BITS src] NUM_BITS_fit hd_in_set[of src]
  by (auto simp: fits60_def NUM_BITS_def simp del: codes_loop.simps)

lemma simple8b_encode_loop_outcome:
  "if fits60 src then \<exists>out. simple8b_encode_loop src dst = Ok out
   else simple8b_encode_loop src dst = Err ''value out of bounds''"
proof (induction src dst rule: simple8b_encode_loop.induct)
  case (1 src dst)
  note unf = simple8b_encode_loop.simps[of src dst]
  consider "src = []" | "src \<noteq> []" "ones_run src = 240"
    | "src \<noteq> []" "ones_run src \<noteq> 240" "ones_run src \<ge> 120"
    | "src \<noteq> []" "ones_run src \<noteq> 240" "\<not> ones_run src \<ge> 120" by blast
  then show ?case
  proof cases
    case 1
    then show ?thesis by (simp add: simple8b_encode_loop.simps[of "[]"] fits60_def)
  next
    case 2
    then show ?thesis using 1(1)[OF 2] fits60_drop[OF fits60_ones, of 240 src] by (simp add: unf)
  next
    case 3
    then show ?thesis using 1(2)[OF 3] fits60_drop[OF fits60_ones, of 120 src] by (auto simp: unf split: if_splits)
  next
    case 4
    then show ?thesis
    proof (cases "codes_loop 0 NUM_BITS src")
      case None
      then show ?thesis using 4 not_fits60_None by (simp add: unf)
    next
      case (Some p)
      obtain w n where p: "p = (w, n)" by (cases p)
      then show ?thesis
        using 1(3)[OF 4 Some p [symmetric]] fits60_drop[OF fits60_code] Some 4 by (simp add: unf)
    qed
  qed
qed

lemma simple8b_encode_decode:
  assumes "\<forall>v \<in> set src. v \<le> MAX_VALUE"
  shows "\<exists>ws. simple8b_encode src dst = Ok (dst @ ws) \<and> simple8b_decode ws buf = Ok src"
  using simple8b_encode_loop_outcome[of src dst] simple8b_encode_loop_Ok[of src dst] assms
  by (auto simp: le_MAX_VALUE_iff fits60_def simple8b_encode_def simple8b_decode_eq)

text \<open>C7: Packing succeeds exactly on slices whose values all fit in 60 bits, appends whole words (at
  most one per value) to the destination, and \<^verbatim>\<open>decode\<close> of those words restores the slice whatever its
  destination held; any other slice is refused with the error, never a panic.\<close>

theorem simple8b_roundtrip:
  "if \<forall>v \<in> set src. v \<le> MAX_VALUE
   then \<exists>ws. simple8b_encode src dst = Ok (dst @ ws) \<and> length ws \<le> 8 * length src \<and>
          simple8b_decode ws buf = Ok src
   else simple8b_encode src dst = Err ''value out of bounds''"
  using simple8b_encode_loop_outcome[of src dst] simple8b_encode_loop_Ok[of src dst]
  by (auto simp: le_MAX_VALUE_iff fits60_def simple8b_encode_def simple8b_decode_eq split: if_splits)

theorem simple8b_roundtrip_witness:
  "\<exists>ws. simple8b_encode [1, 2, 3] [7] = Ok (7 # ws) \<and> simple8b_decode ws [] = Ok [1, 2, 3]"
  using simple8b_roundtrip[of "[1, 2, 3]" "[7]" "[]"] by (auto simp: MAX_VALUE_def)

end
