(* ===== verification/Varint.thy ===== *)
theory Varint
  imports Prelude
begin

text \<open>
  The interface of the \<^verbatim>\<open>integer_encoding\<close> crate that the block coders and the record
  files use: \<^verbatim>\<open>u64::encode_var\<close> and \<^verbatim>\<open>u64::decode_var\<close>.  The crate is not part of the
  sources, so the coders take both functions as arguments; what they rely on is the
  locale \<^verbatim>\<open>varint\<close>.  The base-128 little-endian encoding satisfies it.
\<close>

locale varint =
  fixes encode_var :: "u64 \<Rightarrow> bytes"
    and decode_var :: "bytes \<Rightarrow> (u64 \<times> nat) option"
  assumes decode_encode: "decode_var (encode_var v @ rest) = Some (v, length (encode_var v))"
    and encode_pos: "encode_var v \<noteq> []"
    and encode_len: "length (encode_var v) \<le> 10"
    and encode_len_bits: "v < 2 ^ (7 * k) \<Longrightarrow> 0 < k \<Longrightarrow> k < 10 \<Longrightarrow> length (encode_var v) \<le> k"

text \<open>\<^verbatim>\<open>v.encode_var(&mut dst[n..])\<close>: the crate asserts that the slice has room for the encoding.\<close>

definition encode_var_at :: "(u64 \<Rightarrow> bytes) \<Rightarrow> u64 \<Rightarrow> bytes \<Rightarrow> nat \<Rightarrow> ('e, bytes \<times> nat) result" where
  "encode_var_at enc v dst n =
     rbind (slice_from dst n)
       (\<lambda>t. rmap (\<lambda>t'. (take n dst @ t', n + length (enc v))) (write_front t (enc v)))"

context varint
begin

lemma encode_var_at_resize:
  assumes "n = length pre"
  shows "encode_var_at encode_var v (resize (n + 10) 0 (pre @ xs)) n =
    Ok (pre @ encode_var v @ drop (n + length (encode_var v)) (resize (n + 10) 0 (pre @ xs)),
        n + length (encode_var v))"
  using assms encode_len[of v]
  by (auto simp: encode_var_at_def slice_from_def write_front_def resize_def add.commute)

lemma decode_encode_nil: "decode_var (encode_var v) = Some (v, length (encode_var v))"
  using decode_encode[of v "[]"] by simp

end

subsection \<open>Base-128 integers\<close>

fun leb_encode_n :: "nat \<Rightarrow> u64 \<Rightarrow> bytes" where
  "leb_encode_n 0 v = [ucast v]"
| "leb_encode_n (Suc n) v =
     (if v < 0x80 then [ucast v] else (0x80 OR ucast (v AND 0x7f)) # leb_encode_n n (drop_bit 7 v))"

definition leb_encode :: "u64 \<Rightarrow> bytes" where
  "leb_encode v = leb_encode_n 9 v"

fun leb_decode :: "bytes \<Rightarrow> (u64 \<times> nat) option" where
  "leb_decode [] = None"
| "leb_decode (b # bs) =
     (if b < 0x80 then Some (ucast b, 1)
      else case leb_decode bs of
             None \<Rightarrow> None
           | Some (v, n) \<Rightarrow> Some (ucast (b AND 0x7f) OR push_bit 7 v, n + 1))"

lemma less_128_iff: "v < 0x80 \<longleftrightarrow> take_bit 7 (v :: 'a::len word) = v" if "7 < LENGTH('a)"
  using take_bit_word_eq_self_iff[OF that, of v] by simp

lemma leb_byte:
  fixes v :: u64
  shows "\<not> (0x80 OR ucast (v AND 0x7f) :: u8) < 0x80"
    and "ucast ((0x80 OR ucast (v AND 0x7f) :: u8) AND 0x7f) = take_bit 7 v"
proof -
  have m: "(0x7f :: u64) = mask 7" "(0x7f :: u8) = mask 7"
    by (simp_all add: mask_eq_exp_minus_1)
  have b: "bit (0x80 :: u8) n \<longleftrightarrow> n = 7" "bit (0x80 :: int) n \<longleftrightarrow> n = 7" for n
    using bit_exp_iff[where 'a = u8, of 7 n] bit_exp_iff[where 'a = int, of 7 n] by auto
  have "bit (0x80 OR ucast (v AND 0x7f) :: u8) 7"
    by (simp add: b bit_simps)
  then show "\<not> (0x80 OR ucast (v AND 0x7f) :: u8) < 0x80"
    by (simp add: less_128_iff) (metis bit_take_bit_iff less_irrefl)
  show "ucast ((0x80 OR ucast (v AND 0x7f) :: u8) AND 0x7f) = take_bit 7 v"
    unfolding m by (rule bit_word_eqI) (auto simp: bit_simps b)
qed

lemma ucast_less_128:
  fixes v :: u64
  assumes "take_bit 7 v = v"
  shows "(ucast v :: u8) < 0x80" "ucast (ucast v :: u8) = v"
proof -
  have b: "n < 7" if "bit v n" for n
    using that by (metis assms bit_take_bit_iff)
  show "(ucast v :: u8) < 0x80"
    by (simp add: less_128_iff, rule bit_word_eqI) (auto simp: bit_simps dest: b)
  show "ucast (ucast v :: u8) = v"
    by (rule bit_word_eqI) (auto simp: bit_simps dest: b)
qed

lemma leb_decode_encode_n:
  "take_bit (7 * Suc n) v = v \<Longrightarrow>
    leb_decode (leb_encode_n n v @ rest) = Some (v, length (leb_encode_n n v))"
proof (induction n arbitrary: v)
  case 0
  then show ?case by (simp add: ucast_less_128)
next
  case (Suc n)
  have "take_bit (7 * Suc n) (drop_bit 7 v) = drop_bit 7 (take_bit (7 * Suc (Suc n)) v)"
    by (simp add: drop_bit_take_bit)
  then have IH: "leb_decode (leb_encode_n n (drop_bit 7 v) @ rest) =
    Some (drop_bit 7 v, length (leb_encode_n n (drop_bit 7 v)))"
    using Suc by simp
  have "take_bit 7 v OR push_bit 7 (drop_bit 7 v) = v"
    by (rule bit_word_eqI) (simp add: bit_simps, metis le_add_diff_inverse not_less)
  then show ?case
    using IH leb_byte[of v] ucast_less_128[of v] by (auto simp: less_128_iff[where 'a = 64])
qed

lemma length_leb_encode_n: "length (leb_encode_n n v) \<le> Suc n"
  by (induction n v rule: leb_encode_n.induct) auto

lemma length_leb_encode_bits:
  "take_bit (7 * Suc k) v = v \<Longrightarrow> length (leb_encode_n n v) \<le> Suc k"
proof (induction n arbitrary: k v)
  case (Suc n)
  have d: "take_bit (7 * k) (drop_bit 7 v) = drop_bit 7 v"
    using Suc.prems by (metis add_diff_cancel_left' drop_bit_take_bit mult_Suc_right)
  show ?case
  proof (cases "v < 0x80")
    case False
    then have "k \<noteq> 0" using Suc.prems by (cases k) (auto simp: less_128_iff)
    then obtain m where "k = Suc m" by (cases k) auto
    with Suc.IH[of m "drop_bit 7 v"] d False show ?thesis by simp
  qed simp
qed simp

interpretation leb: varint leb_encode leb_decode
proof unfold_locales
  show "leb_decode (leb_encode v @ rest) = Some (v, length (leb_encode v))" for v rest
    unfolding leb_encode_def by (rule leb_decode_encode_n) (simp add: take_bit_word_eq_self)
  show "leb_encode v \<noteq> []" for v
    by (cases "v < 0x80") (simp_all add: leb_encode_def numeral_eq_Suc)
  show "length (leb_encode v) \<le> 10" for v
    using length_leb_encode_n[of 9 v] by (simp add: leb_encode_def)
  show "length (leb_encode v) \<le> k" if "v < 2 ^ (7 * k)" "0 < k" "k < 10" for v k
    using length_leb_encode_bits[of "k - 1" v 9] that take_bit_word_eq_self_iff[of "7 * k" v]
    by (simp add: leb_encode_def)
qed

end
