(* ===== verification/IntegerCoder.thy ===== *)
theory IntegerCoder
  imports Simple8b Varint
begin

text \<open>
  The integer block coder of \<^verbatim>\<open>src/tskv/src/tsm/coders/integer.rs\<close>: delta and zig-zag
  encoding followed by run-length encoding, simple8b packing or raw words.  A
  destination vector is passed in and returned; \<^verbatim>\<open>reserve_exact\<close> has no effect on its
  contents.  The results are the bijection of the zig-zag code, the round trip of the
  three encodings, and the exact condition under which the checked addition of
  \<^verbatim>\<open>decode_simple8b\<close> panics.
\<close>

definition MAX_VAR_INT_64 :: nat where
  "MAX_VAR_INT_64 = 10"

datatype Encoding = Uncompressed | Simple8b | Rle

fun encoding_u8 :: "Encoding \<Rightarrow> u8" where
  "encoding_u8 Uncompressed = 0"
| "encoding_u8 Simple8b = 1"
| "encoding_u8 Rle = 2"

definition zig_zag_encode :: "i64 \<Rightarrow> u64" where
  "zig_zag_encode v = push_bit 1 v XOR signed_drop_bit 63 v"

definition zig_zag_decode :: "u64 \<Rightarrow> i64" where
  "zig_zag_decode v = drop_bit 1 v XOR signed_drop_bit 63 (push_bit 63 (v AND 1))"

definition i64_to_u64_vector :: "i64 list \<Rightarrow> u64 list" where
  "i64_to_u64_vector src = map (\<lambda>x. x) src"

definition integer_encode_rle ::
  "(u64 \<Rightarrow> bytes) \<Rightarrow> u64 \<Rightarrow> u64 \<Rightarrow> u64 \<Rightarrow> bytes \<Rightarrow> (string, bytes) result" where
  "integer_encode_rle enc v delta count dst =
     (let dst = dst @ [0];
          dst = dst @ to_be_bytes v;
          n = 9;
          dst = (if length dst - n \<le> MAX_VAR_INT_64 then resize (n + MAX_VAR_INT_64) 0 dst else dst) in
      rbind (encode_var_at enc delta dst n) (\<lambda>(dst, n).
        let dst = (if length dst - n \<le> MAX_VAR_INT_64 then resize (n + MAX_VAR_INT_64) 0 dst else dst) in
        rbind (encode_var_at enc count dst n) (\<lambda>(dst, n). Ok (take n dst))))"

text \<open>The reversed loop that turns \<^verbatim>\<open>deltas[1..]\<close> into zig-zag deltas and finds their maximum.\<close>

primrec integer_delta_loop :: "nat \<Rightarrow> u64 list \<Rightarrow> u64 \<Rightarrow> u64 list \<times> u64" where
  "integer_delta_loop 0 deltas mx = (deltas, mx)"
| "integer_delta_loop (Suc i) deltas mx =
     (let d = zig_zag_encode (deltas ! Suc i - deltas ! i) in
      integer_delta_loop i (deltas[Suc i := d]) (if d > mx then d else mx))"

text \<open>The loop that sets \<^verbatim>\<open>use_rle\<close>.\<close>

definition use_rle :: "u64 list \<Rightarrow> bool" where
  "use_rle deltas \<longleftrightarrow> list_all (\<lambda>i. deltas ! 1 = deltas ! i) [2..<length deltas]"

text \<open>The second half of \<^verbatim>\<open>encode\<close>, from the computed deltas on.\<close>

definition integer_write_deltas ::
  "(u64 \<Rightarrow> bytes) \<Rightarrow> u64 list \<Rightarrow> u64 \<Rightarrow> (string, bytes) result" where
  "integer_write_deltas enc deltas mx =
     (if length deltas > 2 \<and> use_rle deltas then
        rbind (integer_encode_rle enc (deltas ! 0) (deltas ! 1) (of_nat (length deltas) - 1) [])
          (\<lambda>dst. Ok (dst[0 := dst ! 0 OR push_bit 4 (encoding_u8 Rle)]))
      else if mx > MAX_VALUE then
        Ok ([push_bit 4 (encoding_u8 Uncompressed)] @ concat (map to_be_bytes deltas))
      else
        simple8b_encode (drop 1 deltas) ([push_bit 4 (encoding_u8 Simple8b)] @ to_be_bytes (deltas ! 0)))"

definition integer_encode ::
  "(u64 \<Rightarrow> bytes) \<Rightarrow> i64 list \<Rightarrow> bytes \<Rightarrow> (string, bytes) result" where
  "integer_encode enc src dst =
     (if src = [] then Ok []
      else
        let (deltas, mx) = integer_delta_loop (length src - 1) (i64_to_u64_vector src) 0 in
        integer_write_deltas enc (deltas[0 := zig_zag_encode (src ! 0)]) mx)"

function integer_uncompressed_loop :: "bytes \<Rightarrow> i64 \<Rightarrow> i64 list \<Rightarrow> (string, i64 list) result" where
  "integer_uncompressed_loop src prev dst =
     (if src = [] then Ok dst
      else rbind (slice_range src 0 8) (\<lambda>buf.
        let prev = prev + zig_zag_decode (from_be buf) in
        integer_uncompressed_loop (drop 8 src) prev (dst @ [prev])))"
  by pat_completeness auto
termination
  by (relation "measure (\<lambda>(src, _). length src)") auto

declare integer_uncompressed_loop.simps [simp del]

definition integer_decode_uncompressed :: "bytes \<Rightarrow> i64 list \<Rightarrow> (string, i64 list) result" where
  "integer_decode_uncompressed src dst =
     (if src = [] \<or> length src mod 8 \<noteq> 0 then Err ''invalid uncompressed block length''
      else integer_uncompressed_loop src 0 dst)"

primrec integer_rle_loop :: "nat \<Rightarrow> i64 \<Rightarrow> i64 \<Rightarrow> i64 list \<Rightarrow> i64 list" where
  "integer_rle_loop 0 first delta dst = dst"
| "integer_rle_loop (Suc n) first delta dst =
     integer_rle_loop n (first + delta) delta (dst @ [first + delta])"

definition integer_decode_rle ::
  "(bytes \<Rightarrow> (u64 \<times> nat) option) \<Rightarrow> bytes \<Rightarrow> i64 list \<Rightarrow> (string, i64 list) result" where
  "integer_decode_rle dec src dst =
     (if length src < 8 then Err ''not enough data to decode using RLE''
      else
        rbind (slice_from src 8) (\<lambda>t. rbind (ok_or ''unable to decode delta'' (dec t)) (\<lambda>(delta, n).
        rbind (slice_from src (8 + n)) (\<lambda>t. rbind (ok_or ''unable to decode count'' (dec t)) (\<lambda>(count, _).
        rbind (slice_range src 0 8) (\<lambda>a.
          let first = zig_zag_decode (from_be a); delta_z = zig_zag_decode delta in
          Ok (integer_rle_loop (unat count) first delta_z (dst @ [first]))))))))"

fun integer_add_loop :: "bool \<Rightarrow> u64 list \<Rightarrow> i64 \<Rightarrow> i64 list \<Rightarrow> (string, i64 list) result" where
  "integer_add_loop oc [] next dst = Ok dst"
| "integer_add_loop oc (v # res) next dst =
     rbind (add_i64 oc next (zig_zag_decode v)) (\<lambda>next. integer_add_loop oc res next (dst @ [next]))"

definition integer_decode_simple8b :: "bool \<Rightarrow> bytes \<Rightarrow> i64 list \<Rightarrow> (string, i64 list) result" where
  "integer_decode_simple8b oc src dst =
     (if length src < 8 then Err ''not enough data to decode packed integer.''
      else
        let dst = dst @ [zig_zag_decode (from_be (take 8 src))] in
        rbind (simple8b_decode (drop 8 src) []) (\<lambda>res. integer_add_loop oc res (dst ! 0) dst))"

definition integer_decode ::
  "bool \<Rightarrow> (bytes \<Rightarrow> (u64 \<times> nat) option) \<Rightarrow> bytes \<Rightarrow> i64 list \<Rightarrow> (string, i64 list) result" where
  "integer_decode oc dec src dst =
     (if src = [] then Ok dst
      else
        let encoding = drop_bit 4 (src ! 0) in
        if encoding = encoding_u8 Uncompressed then integer_decode_uncompressed (drop 1 src) dst
        else if encoding = encoding_u8 Rle then integer_decode_rle dec (drop 1 src) dst
        else if encoding = encoding_u8 Simple8b then integer_decode_simple8b oc (drop 1 src) dst
        else Err ''invalid block encoding'')"

subsection \<open>Zig-zag codes\<close>

lemma bit_zig_zag_encode:
  "bit (zig_zag_encode v) n \<longleftrightarrow> n < 64 \<and> ((0 < n \<and> bit v (n - 1)) \<noteq> bit v 63)"
  unfolding zig_zag_encode_def bit_xor_iff bit_push_bit_iff bit_signed_drop_bit_iff
  by (cases n) (auto dest: bit_imp_le_length)

lemma bit_zig_zag_decode:
  "bit (zig_zag_decode v) n \<longleftrightarrow> n < 64 \<and> (bit v (Suc n) \<noteq> bit v 0)"
  unfolding zig_zag_decode_def bit_xor_iff bit_drop_bit_eq bit_push_bit_iff bit_signed_drop_bit_iff
    bit_and_iff bit_1_iff
  by (cases n) (auto dest: bit_imp_le_length)

lemma zig_zag_decode_encode [simp]: "zig_zag_decode (zig_zag_encode v) = v"
proof (rule bit_word_eqI)
  fix n assume "n < LENGTH(64)"
  then have "n < 63 \<or> n = 63" by auto
  then show "bit (zig_zag_decode (zig_zag_encode v)) n = bit v n"
    by (auto simp: bit_zig_zag_encode bit_zig_zag_decode)
qed

lemma zig_zag_encode_decode [simp]: "zig_zag_encode (zig_zag_decode v) = v"
proof (rule bit_word_eqI)
  fix n assume "n < LENGTH(64)"
  moreover have "\<not> bit v 64" by (auto dest: bit_imp_le_length)
  ultimately show "bit (zig_zag_encode (zig_zag_decode v)) n = bit v n"
    by (cases n) (auto simp: bit_zig_zag_encode bit_zig_zag_decode)
qed

lemma zig_zag_encode_inject [simp]: "zig_zag_encode v = zig_zag_encode w \<longleftrightarrow> v = w"
  by (metis zig_zag_decode_encode)

subsection \<open>The delta loop\<close>

lemma integer_delta_loop_nth:
  assumes "i < length ds"
  shows "fst (integer_delta_loop i ds mx) =
    map (\<lambda>k. if 0 < k \<and> k \<le> i then zig_zag_encode (ds ! k - ds ! (k - 1)) else ds ! k) [0..<length ds]"
  using assms
proof (induction i arbitrary: ds mx)
  case 0
  then show ?case by (auto intro: nth_equalityI)
next
  case (Suc i)
  then show ?case
    by (auto simp: Let_def nth_list_update le_Suc_eq intro!: nth_equalityI)
qed

lemma integer_delta_loop_max:
  assumes "i < length ds"
  shows "mx \<le> snd (integer_delta_loop i ds mx) \<and>
    (\<forall>k. 0 < k \<and> k \<le> i \<longrightarrow> zig_zag_encode (ds ! k - ds ! (k - 1)) \<le> snd (integer_delta_loop i ds mx))"
  using assms
proof (induction i arbitrary: ds mx)
  case 0
  then show ?case by simp
next
  case (Suc i)
  let ?d = "zig_zag_encode (ds ! Suc i - ds ! i)"
  let ?r = "snd (integer_delta_loop i (ds[Suc i := ?d]) (if ?d > mx then ?d else mx))"
  have IH: "(if ?d > mx then ?d else mx) \<le> ?r"
    "\<forall>k. 0 < k \<and> k \<le> i \<longrightarrow> zig_zag_encode (ds ! k - ds ! (k - 1)) \<le> ?r"
    using Suc.IH[of "ds[Suc i := ?d]" "if ?d > mx then ?d else mx"] Suc.prems by auto
  then have "mx \<le> ?r" "?d \<le> ?r" by (auto split: if_splits)
  with IH show ?case by (auto simp: Let_def le_Suc_eq)
qed

lemma integer_deltas:
  assumes "src \<noteq> []"
  shows "(fst (integer_delta_loop (length src - 1) (i64_to_u64_vector src) 0))[0 := zig_zag_encode (src ! 0)] =
      zig_zag_encode (hd src) # map zig_zag_encode (diffs src)"
    and "\<forall>d \<in> set (map zig_zag_encode (diffs src)).
      d \<le> snd (integer_delta_loop (length src - 1) (i64_to_u64_vector src) 0)"
proof -
  let ?ds = "i64_to_u64_vector src"
  have ds: "?ds = src" by (simp add: i64_to_u64_vector_def)
  have len: "length src - 1 < length src" using assms by simp
  show "(fst (integer_delta_loop (length src - 1) ?ds 0))[0 := zig_zag_encode (src ! 0)] =
      zig_zag_encode (hd src) # map zig_zag_encode (diffs src)"
    using assms by (intro nth_equalityI)
      (auto simp: ds integer_delta_loop_nth[OF len, simplified] nth_Cons' nth_diffs hd_conv_nth)
  show "\<forall>d \<in> set (map zig_zag_encode (diffs src)). d \<le> snd (integer_delta_loop (length src - 1) ?ds 0)"
  proof (clarsimp simp: ds in_set_conv_nth nth_diffs)
    fix i assume "i < length src - Suc 0"
    then show "zig_zag_encode (src ! Suc i - src ! i) \<le> snd (integer_delta_loop (length src - Suc 0) src 0)"
      using integer_delta_loop_max[OF len, of 0] by (auto dest: spec[of _ "Suc i"])
  qed
qed

subsection \<open>The decoder loops\<close>

lemma integer_uncompressed_loop_eq:
  "integer_uncompressed_loop (concat (map to_be_bytes ds)) prev dst =
    Ok (dst @ sums prev (map zig_zag_decode ds))"
proof (induction ds arbitrary: prev dst)
  case Nil
  then show ?case by (simp add: integer_uncompressed_loop.simps)
next
  case (Cons d ds)
  then show ?case
    by (subst integer_uncompressed_loop.simps) (simp add: slice_range_def Let_def)
qed

lemma integer_rle_loop_eq: "integer_rle_loop n a d dst = dst @ sums a (replicate n d)"
  by (induction n arbitrary: a dst) auto

lemma integer_add_loop_eq:
  "integer_add_loop oc (map zig_zag_encode ds) a dst =
    (if oc \<and> \<not> no_wrap (a # sums a ds) then Panic else Ok (dst @ sums a ds))"
  by (induction ds arbitrary: a dst) (auto simp: add_i64_def)

lemma use_rle_replicate:
  assumes "use_rle (z # zs)" "zs \<noteq> []"
  shows "zs = replicate (length zs) (zs ! 0)"
proof (rule nth_equalityI)
  fix i assume i: "i < length zs"
  then have "i = 0 \<or> Suc i \<in> set [2..<length (z # zs)]" by auto
  then have "zs ! 0 = zs ! i"
    using assms(1) unfolding use_rle_def list_all_iff by (metis One_nat_def nth_Cons_Suc)
  then show "zs ! i = replicate (length zs) (zs ! 0) ! i" using i by simp
qed simp

context varint
begin

lemma encode_two_vars:
  assumes len: "length pre = 9"
  shows "rbind (encode_var_at encode_var a (resize 19 0 pre) 9) (\<lambda>(dst, n).
      let dst = (if length dst - n \<le> MAX_VAR_INT_64 then resize (n + MAX_VAR_INT_64) 0 dst else dst) in
      rbind (encode_var_at encode_var b dst n) (\<lambda>(dst, n). Ok (take n dst))) =
    (Ok (pre @ encode_var a @ encode_var b) :: ('e, bytes) result)"
proof -
  let ?q = "pre @ encode_var a"
  have 1: "encode_var_at encode_var a (resize 19 0 pre) 9 =
    (Ok (?q @ drop (length ?q) (resize 19 0 pre), length ?q) :: ('e, bytes \<times> nat) result)"
    using encode_var_at_resize[of 9 pre a "[]"] len by simp
  let ?r = "?q @ drop (length ?q) (resize 19 0 pre)"
  have "length ?r - length ?q \<le> 10" using encode_len[of a] len by simp
  moreover have "encode_var_at encode_var b (resize (length ?q + 10) 0 ?r) (length ?q) =
    (Ok (?q @ encode_var b @ drop (length ?q + length (encode_var b)) (resize (length ?q + 10) 0 ?r),
      length ?q + length (encode_var b)) :: ('e, bytes \<times> nat) result)"
    by (rule encode_var_at_resize) simp
  ultimately show ?thesis
    using 1 by (simp add: MAX_VAR_INT_64_def Let_def)
qed

lemma integer_encode_rle_eq:
  "integer_encode_rle encode_var v delta count [] =
    Ok ([0] @ to_be_bytes v @ encode_var delta @ encode_var count)"
  using encode_two_vars[of "[0] @ to_be_bytes v" delta count]
  by (simp add: integer_encode_rle_def MAX_VAR_INT_64_def)

lemma integer_decode_rle_eq:
  "integer_decode_rle decode_var (to_be_bytes v @ encode_var delta @ encode_var count) [] =
    Ok (zig_zag_decode v # sums (zig_zag_decode v) (replicate (unat count) (zig_zag_decode delta)))"
  using decode_encode[of delta "encode_var count"] decode_encode_nil[of count]
  by (simp add: integer_decode_rle_def slice_from_def slice_range_def integer_rle_loop_eq Let_def)

text \<open>Every block decodes to the encoded values, or panics: with overflow checks on, in a packed block
  whose signed deltas wrap around.\<close>

lemma integer_write_rle:
  assumes "2 < length (z # zs)" "use_rle (z # zs)"
    "length (z # zs) < 2 ^ 64"
  shows "\<exists>bs. integer_write_deltas encode_var (z # zs) mx = Ok (0x20 # bs) \<and>
    integer_decode oc decode_var (0x20 # bs) [] =
      Ok (zig_zag_decode z # sums (zig_zag_decode z) (map zig_zag_decode zs))"
proof -
  have eq: "zs = replicate (length zs) (zs ! 0)"
    by (rule use_rle_replicate[OF assms(2)]) (use assms(1) in auto)
  have "unat (word_of_nat (length zs) :: u64) = length zs"
    using assms(3) by (simp add: unat_of_nat)
  moreover have "map zig_zag_decode zs = replicate (length zs) (zig_zag_decode (zs ! 0))"
    by (subst eq) simp
  ultimately show ?thesis
    using assms integer_decode_rle_eq[of z "zs ! 0" "word_of_nat (length zs)"]
    by (simp add: integer_write_deltas_def integer_encode_rle_eq integer_decode_def)
qed

lemma integer_write_uncompressed:
  assumes "\<not> (2 < length (z # zs) \<and> use_rle (z # zs))"
    "MAX_VALUE < mx"
  shows "\<exists>bs. integer_write_deltas encode_var (z # zs) mx = Ok (0 # bs) \<and>
    integer_decode oc decode_var (0 # bs) [] =
      Ok (zig_zag_decode z # sums (zig_zag_decode z) (map zig_zag_decode zs))"
  using assms integer_uncompressed_loop_eq[of "z # zs" 0 "[]"]
  by (auto simp: integer_write_deltas_def integer_decode_def integer_decode_uncompressed_def Let_def)

lemma integer_write_packed:
  assumes "\<not> (2 < length (z # zs) \<and> use_rle (z # zs))" "\<not> MAX_VALUE < mx" "\<forall>d \<in> set zs. d \<le> mx"
  shows "\<exists>bs. integer_write_deltas encode_var (z # zs) mx = Ok (0x10 # bs) \<and>
    integer_decode oc decode_var (0x10 # bs) [] = integer_add_loop oc zs (zig_zag_decode z) [zig_zag_decode z]"
proof -
  have "\<forall>d \<in> set zs. d \<le> MAX_VALUE" using assms(2,3) by auto
  then obtain ws where "simple8b_encode zs (0x10 # to_be_bytes z) = Ok ((0x10 # to_be_bytes z) @ ws)"
    "simple8b_decode ws [] = Ok zs"
    using simple8b_encode_decode by blast
  then show ?thesis
    using assms(1,2) by (auto simp: integer_write_deltas_def integer_decode_def integer_decode_simple8b_def Let_def)
qed

lemma integer_decode_encode:
  assumes "length src < 2 ^ 64"
  shows "\<exists>bs. integer_encode encode_var src dst = Ok bs \<and>
    integer_decode oc decode_var bs [] =
      (if oc \<and> bs \<noteq> [] \<and> hd bs = 0x10 \<and> \<not> no_wrap src then Panic else Ok src)"
proof (cases src)
  case Nil
  then show ?thesis by (simp add: integer_encode_def integer_decode_def)
next
  case (Cons x xs)
  obtain ds mx where loop: "integer_delta_loop (length src - 1) (i64_to_u64_vector src) 0 = (ds, mx)"
    by fastforce
  define z zs where z: "z = zig_zag_encode x" and zs: "zs = map zig_zag_encode (diffs src)"
  have ds: "ds[0 := zig_zag_encode (src ! 0)] = z # zs" and mx: "\<forall>d \<in> set zs. d \<le> mx"
    using integer_deltas[of src] loop Cons by (auto simp: z zs)
  have src: "zig_zag_decode z # sums (zig_zag_decode z) (map zig_zag_decode zs) = src"
    using Cons by (simp add: z zs comp_def)
  have len: "length (z # zs) < 2 ^ 64" using assms Cons by (simp add: zs)
  have enc: "integer_encode encode_var src dst = integer_write_deltas encode_var (z # zs) mx"
    unfolding integer_encode_def loop Let_def prod.case ds using Cons by simp
  let ?rle = "2 < length (z # zs) \<and> use_rle (z # zs)"
  consider "2 < length (z # zs)" "use_rle (z # zs)" | "\<not> ?rle" "MAX_VALUE < mx" | "\<not> ?rle" "\<not> MAX_VALUE < mx"
    by argo
  then show ?thesis
  proof cases
    case 1
    from integer_write_rle[OF this len, of mx oc] show ?thesis unfolding src enc by fastforce
  next
    case 2
    from integer_write_uncompressed[OF this, of oc] show ?thesis unfolding src enc by fastforce
  next
    case 3
    have "integer_add_loop oc zs (zig_zag_decode z) [zig_zag_decode z] =
      (if oc \<and> \<not> no_wrap src then Panic else Ok src)"
      using integer_add_loop_eq[of oc "diffs src" x "[x]"] Cons by (simp add: z zs)
    with integer_write_packed[OF 3 mx, of oc] show ?thesis unfolding enc by fastforce
  qed
qed

end

text \<open>C3: Decoding an encoded integer block gives back the values, for every one of the three block
  formats and every slice; the only exception is a build with overflow checks, a packed block and a
  signed difference that wraps, where the decoder panics.\<close>

theorem integer_roundtrip:
  assumes "varint enc dec" and "length src < 2 ^ 64"
  shows "\<exists>bs. integer_encode enc src dst = Ok bs \<and>
    integer_decode oc dec bs [] =
      (if oc \<and> bs \<noteq> [] \<and> hd bs = 0x10 \<and> \<not> no_wrap src then Panic else Ok src)"
  using varint.integer_decode_encode[OF assms] .

theorem integer_roundtrip_witness:
  "\<exists>bs. integer_encode leb_encode [5, - 3, 12] [] = Ok bs \<and> integer_decode True leb_decode bs [] = Ok [5, - 3, 12]"
  using integer_roundtrip[OF leb.varint_axioms, of "[5, - 3, 12]" "[]" True] by (simp add: sadd_ok_def)

end
