(* ===== verification/TimestampCoder.thy ===== *)
theory TimestampCoder
  imports IntegerCoder
begin

text \<open>
  The timestamp block coder of \<^verbatim>\<open>src/tskv/src/tsm/coders/timestamp.rs\<close>: plain deltas,
  scaled down by a common power of ten, and then run-length encoded, packed or stored
  raw.  The loop that looks for the power of ten is shown to end in a divisor of the
  deltas, and decoding restores the timestamps in every format.
\<close>

text \<open>The enum of \<^verbatim>\<open>timestamp.rs\<close> has the variants and discriminants of the one in \<^verbatim>\<open>integer.rs\<close>.\<close>

datatype TsEncoding = TsUncompressed | TsSimple8b | TsRle

fun ts_encoding_u8 :: "TsEncoding \<Rightarrow> u8" where
  "ts_encoding_u8 TsUncompressed = 0"
| "ts_encoding_u8 TsSimple8b = 1"
| "ts_encoding_u8 TsRle = 2"

text \<open>\<^verbatim>\<open>while div > 1 && delta % div != 0 { div /= 10; }\<close>\<close>

function ts_div_loop :: "u64 \<Rightarrow> u64 \<Rightarrow> u64" where
  "ts_div_loop delta dv = (if dv > 1 \<and> delta mod dv \<noteq> 0 then ts_div_loop delta (dv div 10) else dv)"
  by pat_completeness auto
termination
  by (relation "measure (\<lambda>(delta, dv). unat dv)")
    (auto simp: unat_div word_less_nat_alt intro: div_less_dividend)

declare ts_div_loop.simps [simp del]

text \<open>\<^verbatim>\<open>(div as f64).log10() as u8\<close>; the argument is a power of ten of at most thirteen digits.\<close>

function log10_u8 :: "u64 \<Rightarrow> u8" where
  "log10_u8 n = (if n < 10 then 0 else 1 + log10_u8 (n div 10))"
  by pat_completeness auto
termination
  by (relation "measure unat") (auto simp: unat_div word_less_nat_alt intro!: div_less_dividend)

declare log10_u8.simps [simp del]

text \<open>The loop over \<^verbatim>\<open>deltas.iter().skip(1)\<close> that narrows the divisor.\<close>

fun ts_common_div :: "u64 list \<Rightarrow> u64 \<Rightarrow> u64" where
  "ts_common_div [] dv = dv"
| "ts_common_div (delta # deltas) dv = (if dv \<le> 1 then dv else ts_common_div deltas (ts_div_loop delta dv))"

definition ts_encode_rle ::
  "(u64 \<Rightarrow> bytes) \<Rightarrow> u64 \<Rightarrow> u64 \<Rightarrow> u64 \<Rightarrow> bytes \<Rightarrow> (string, bytes) result" where
  "ts_encode_rle enc v delta count dst =
     (let dst = dst @ [0];
          n = 1;
          dst = dst @ to_be_bytes v;
          n = n + 8;
          dv = ts_div_loop delta 1000000000000;
          dst = (if length dst \<le> n + MAX_VAR_INT_64 then resize (n + MAX_VAR_INT_64) 0 dst else dst) in
      rbind
        (if dv > 1 then
           let scaler = log10_u8 dv in
           if \<not> scaler \<le> 15 then Panic
           else encode_var_at enc (delta div dv) (dst[0 := dst ! 0 OR scaler]) n
         else encode_var_at enc delta dst n)
        (\<lambda>(dst, n).
          let dst = (if length dst - n \<le> MAX_VAR_INT_64 then resize (n + MAX_VAR_INT_64) 0 dst else dst) in
          rbind (encode_var_at enc count dst n) (\<lambda>(dst, n). Ok (take n dst))))"

primrec ts_delta_loop :: "nat \<Rightarrow> u64 list \<Rightarrow> u64 \<Rightarrow> u64 list \<times> u64" where
  "ts_delta_loop 0 deltas mx = (deltas, mx)"
| "ts_delta_loop (Suc i) deltas mx =
     (let d = deltas ! Suc i - deltas ! i in
      ts_delta_loop i (deltas[Suc i := d]) (if d > mx then d else mx))"

text \<open>The second half of \<^verbatim>\<open>encode\<close>, from the computed deltas on.\<close>

definition ts_write_deltas ::
  "(u64 \<Rightarrow> bytes) \<Rightarrow> u64 list \<Rightarrow> u64 \<Rightarrow> (string, bytes) result" where
  "ts_write_deltas enc deltas mx =
     (if length deltas > 1 \<and> use_rle deltas then
        rbind (ts_encode_rle enc (deltas ! 0) (deltas ! 1) (of_nat (length deltas)) [])
          (\<lambda>dst. Ok (dst[0 := dst ! 0 OR push_bit 4 (ts_encoding_u8 TsRle)]))
      else if mx > MAX_VALUE then
        Ok ([push_bit 4 (ts_encoding_u8 TsUncompressed)] @ concat (map to_be_bytes deltas))
      else
        let dv = ts_common_div (drop 1 deltas) 1000000000000;
            deltas = (if dv > 1 then take 1 deltas @ map (\<lambda>d. d div dv) (drop 1 deltas) else deltas);
            dst = [push_bit 4 (ts_encoding_u8 TsSimple8b)];
            dst = dst[0 := dst ! 0 OR log10_u8 dv];
            dst = dst @ to_be_bytes (deltas ! 0) in
        simple8b_encode (drop 1 deltas) dst)"

definition ts_encode :: "(u64 \<Rightarrow> bytes) \<Rightarrow> i64 list \<Rightarrow> bytes \<Rightarrow> (string, bytes) result" where
  "ts_encode enc src dst =
     (if src = [] then Ok []
      else
        let (deltas, mx) = (if length src > 1
          then ts_delta_loop (length src - 1) (i64_to_u64_vector src) 0
          else (i64_to_u64_vector src, 0)) in
        ts_write_deltas enc deltas mx)"

function ts_uncompressed_loop :: "bool \<Rightarrow> bytes \<Rightarrow> i64 \<Rightarrow> i64 list \<Rightarrow> (string, i64 list) result" where
  "ts_uncompressed_loop oc src prev dst =
     (if src = [] then Ok dst
      else rbind (slice_range src 0 8) (\<lambda>buf.
        rbind (add_i64 oc prev (from_be buf)) (\<lambda>prev.
        ts_uncompressed_loop oc (drop 8 src) prev (dst @ [prev]))))"
  by pat_completeness auto
termination
  by (relation "measure (\<lambda>(oc, src, _). length src)") auto

declare ts_uncompressed_loop.simps [simp del]

definition ts_decode_uncompressed :: "bool \<Rightarrow> bytes \<Rightarrow> i64 list \<Rightarrow> (string, i64 list) result" where
  "ts_decode_uncompressed oc src dst =
     (if src = [] \<or> length src mod 8 \<noteq> 0 then Err ''invalid uncompressed block length''
      else ts_uncompressed_loop oc src 0 dst)"

primrec ts_rle_loop :: "nat \<Rightarrow> i64 \<Rightarrow> i64 \<Rightarrow> i64 list \<Rightarrow> i64 list" where
  "ts_rle_loop 0 first delta dst = dst"
| "ts_rle_loop (Suc n) first delta dst = ts_rle_loop n (first + delta) delta (dst @ [first])"

definition ts_decode_rle ::
  "bool \<Rightarrow> (bytes \<Rightarrow> (u64 \<times> nat) option) \<Rightarrow> bytes \<Rightarrow> i64 list \<Rightarrow> (string, i64 list) result" where
  "ts_decode_rle oc dec src dst =
     (if length src < 9 then Err ''not enough data to decode using RLE''
      else
        let scaler = 10 ^ unat (src ! 0 AND 0x0f) in
        rbind (slice_range src 1 9) (\<lambda>a.
        rbind (slice_from src 9) (\<lambda>t. rbind (ok_or ''unable to decode delta'' (dec t)) (\<lambda>(delta, n).
        rbind (mul_u64 oc delta scaler) (\<lambda>delta.
        rbind (slice_from src (9 + n)) (\<lambda>t. rbind (ok_or ''unable to decode count'' (dec t)) (\<lambda>(count, _).
          Ok (ts_rle_loop (unat count) (from_be a) delta dst))))))))"

fun ts_add_loop :: "bool \<Rightarrow> (u64 \<Rightarrow> (string, i64) result) \<Rightarrow> u64 list \<Rightarrow> i64 \<Rightarrow> i64 list \<Rightarrow> (string, i64 list) result" where
  "ts_add_loop oc f [] next dst = Ok dst"
| "ts_add_loop oc f (v # res) next dst =
     rbind (f v) (\<lambda>d. rbind (add_i64 oc next d) (\<lambda>next. ts_add_loop oc f res next (dst @ [next])))"

definition ts_decode_simple8b :: "bool \<Rightarrow> bytes \<Rightarrow> i64 list \<Rightarrow> (string, i64 list) result" where
  "ts_decode_simple8b oc src dst =
     (if length src < 9 then Err ''not enough data to decode packed timestamp''
      else
        let scaler = 10 ^ unat (src ! 0 AND 0x0f) in
        rbind (slice_range src 1 9) (\<lambda>buf.
          let dst = dst @ [from_be buf] in
          rbind (slice_from src 9) (\<lambda>t. rbind (simple8b_decode t []) (\<lambda>res.
            let next = dst ! (length dst - 1) in
            if scaler > 1 then ts_add_loop oc (\<lambda>v. mul_u64 oc v scaler) res next dst
            else ts_add_loop oc Ok res next dst))))"

definition ts_decode ::
  "bool \<Rightarrow> (bytes \<Rightarrow> (u64 \<times> nat) option) \<Rightarrow> bytes \<Rightarrow> i64 list \<Rightarrow> (string, i64 list) result" where
  "ts_decode oc dec src dst =
     (if src = [] then Ok dst
      else
        let encoding = drop_bit 4 (src ! 0) in
        if encoding = ts_encoding_u8 TsUncompressed then ts_decode_uncompressed oc (drop 1 src) dst
        else if encoding = ts_encoding_u8 TsRle then ts_decode_rle oc dec src dst
        else if encoding = ts_encoding_u8 TsSimple8b then ts_decode_simple8b oc src dst
        else Err ''invalid block encoding'')"

subsection \<open>Powers of ten\<close>

lemma unat_pow10: "k \<le> 15 \<Longrightarrow> unat ((10::u64) ^ k) = 10 ^ k"
proof -
  assume "k \<le> 15"
  then have "(10::nat) ^ k < 2 ^ 64"
    using power_increasing[of k 15 "10::nat"] by simp
  then have "unat (of_nat (10 ^ k) :: u64) = 10 ^ k"
    by (simp add: unat_of_nat del: of_nat_power)
  then show ?thesis by simp
qed

lemma pow10_div: "Suc k \<le> 15 \<Longrightarrow> (10::u64) ^ Suc k div 10 = 10 ^ k"
  unfolding word_unat_eq_iff unat_div by (simp only: unat_pow10 Suc_leD) simp

lemma pow10_gt_1: "k \<le> 15 \<Longrightarrow> 1 < (10::u64) ^ k \<longleftrightarrow> 0 < k"
  using power_strict_increasing_iff[of "10::nat" 0 k] by (simp add: word_less_nat_alt unat_pow10)

lemma ts_div_loop_pow10:
  assumes "k \<le> 15"
  shows "\<exists>j \<le> k. ts_div_loop delta (10 ^ k) = 10 ^ j \<and> delta mod 10 ^ j = 0"
  using assms
proof (induction k)
  case 0
  then show ?case by (simp add: ts_div_loop.simps)
next
  case (Suc k)
  show ?case
  proof (cases "delta mod 10 ^ Suc k = 0")
    case True
    then show ?thesis by (intro exI[of _ "Suc k"]) (simp add: ts_div_loop.simps)
  next
    case False
    then have "ts_div_loop delta (10 ^ Suc k) = ts_div_loop delta (10 ^ k)"
      using pow10_gt_1[OF Suc.prems] pow10_div[OF Suc.prems] by (subst ts_div_loop.simps) simp
    then show ?thesis using Suc by (metis Suc_leD le_SucI)
  qed
qed

lemma ts_div_loop_12: "\<exists>j \<le> 12. ts_div_loop delta 1000000000000 = 10 ^ j \<and> delta mod 10 ^ j = 0"
  using ts_div_loop_pow10[of 12 delta] by simp

lemma mod_pow10_le:
  assumes "i \<le> j" "j \<le> 15" "(d::u64) mod 10 ^ j = 0"
  shows "d mod 10 ^ i = 0"
proof -
  have "unat d mod 10 ^ j = 0" using assms by (metis unat_pow10 unat_mod unat_0)
  then have "unat d mod 10 ^ i = 0"
    using assms(1) by (meson dvd_trans le_imp_power_dvd mod_eq_0_iff_dvd)
  then have "unat (d mod 10 ^ i) = 0" using assms by (simp add: unat_mod unat_pow10)
  then show ?thesis by (simp add: unat_eq_0)
qed

lemma ts_common_div_pow10:
  assumes "k \<le> 15"
  shows "\<exists>j \<le> k. ts_common_div ds (10 ^ k) = 10 ^ j \<and> (\<forall>d \<in> set ds. d mod 10 ^ j = 0)"
  using assms
proof (induction ds arbitrary: k)
  case Nil
  then show ?case by (intro exI[of _ k]) simp
next
  case (Cons d ds)
  obtain i where i: "i \<le> k" "ts_div_loop d (10 ^ k) = 10 ^ i" "d mod 10 ^ i = 0"
    using ts_div_loop_pow10[OF Cons.prems, of d] by (elim exE conjE)
  obtain j where j: "j \<le> i" "ts_common_div ds (10 ^ i) = 10 ^ j" "\<forall>d \<in> set ds. d mod 10 ^ j = 0"
    using Cons.IH[OF order.trans[OF i(1) Cons.prems]] by (elim exE conjE)
  have "d mod 10 ^ j = 0" using mod_pow10_le[OF j(1) _ i(3)] i Cons.prems by simp
  show ?case
  proof (cases "k = 0")
    case True
    then show ?thesis by simp
  next
    case False
    then have "\<not> (10::u64) ^ k \<le> 1" using pow10_gt_1[OF Cons.prems] by simp
    then show ?thesis using i j \<open>d mod 10 ^ j = 0\<close> by (intro exI[of _ j]) simp
  qed
qed

lemma ts_common_div_12:
  "\<exists>j \<le> 12. ts_common_div ds 1000000000000 = 10 ^ j \<and> (\<forall>d \<in> set ds. d mod 10 ^ j = 0)"
  using ts_common_div_pow10[of 12 ds] by simp

lemma log10_u8_pow10: "k \<le> 15 \<Longrightarrow> log10_u8 (10 ^ k) = of_nat k"
proof (induction k)
  case 0
  then show ?case by (simp add: log10_u8.simps)
next
  case (Suc k)
  have "\<not> (10::u64) ^ Suc k < 10"
    unfolding word_less_nat_alt unat_pow10[OF Suc.prems] by simp
  then show ?case
    using Suc pow10_div[OF Suc.prems] by (subst log10_u8.simps) simp
qed

lemma low_nibble:
  assumes "j \<le> 15"
  shows "unat ((0x10 OR of_nat j :: u8) AND 0x0f) = j" "unat ((0x20 OR of_nat j :: u8) AND 0x0f) = j"
    "drop_bit 4 (0x10 OR of_nat j :: u8) = 1" "drop_bit 4 (0x20 OR of_nat j :: u8) = 2"
    "of_nat j \<le> (15::u8)"
proof -
  have "j = 0 \<or> j = 1 \<or> j = 2 \<or> j = 3 \<or> j = 4 \<or> j = 5 \<or> j = 6 \<or> j = 7 \<or> j = 8 \<or> j = 9 \<or> j = 10 \<or>
    j = 11 \<or> j = 12 \<or> j = 13 \<or> j = 14 \<or> j = 15" using assms by presburger
  then show "unat ((0x10 OR of_nat j :: u8) AND 0x0f) = j" "unat ((0x20 OR of_nat j :: u8) AND 0x0f) = j"
    "drop_bit 4 (0x10 OR of_nat j :: u8) = 1" "drop_bit 4 (0x20 OR of_nat j :: u8) = 2"
    "of_nat j \<le> (15::u8)"
    by (elim disjE; simp)+
qed

lemma mul_u64_div:
  assumes "d mod s = 0"
  shows "mul_u64 oc (d div s) s = Ok d"
proof -
  have "unat (d div s) * unat s \<le> unat d"
    by (simp add: unat_div)
  also have "unat d < 2 ^ 64" by (rule order.strict_trans2[OF unsigned_less]) simp
  finally have "unat (d div s) * unat s < 2 ^ 64" .
  moreover have "d div s * s = d" using assms div_mult_mod_eq[of d s] by simp
  ultimately show ?thesis by (simp add: mul_u64_def)
qed

subsection \<open>The delta loop\<close>

lemma ts_delta_loop_nth:
  assumes "i < length ds"
  shows "fst (ts_delta_loop i ds mx) =
    map (\<lambda>k. if 0 < k \<and> k \<le> i then ds ! k - ds ! (k - 1) else ds ! k) [0..<length ds]"
  using assms
proof (induction i arbitrary: ds mx)
  case 0
  then show ?case by (auto intro: nth_equalityI)
next
  case (Suc i)
  then show ?case
    by (auto simp: Let_def nth_list_update le_Suc_eq intro!: nth_equalityI)
qed

lemma ts_delta_loop_max:
  assumes "i < length ds"
  shows "mx \<le> snd (ts_delta_loop i ds mx) \<and>
    (\<forall>k. 0 < k \<and> k \<le> i \<longrightarrow> ds ! k - ds ! (k - 1) \<le> snd (ts_delta_loop i ds mx))"
  using assms
proof (induction i arbitrary: ds mx)
  case 0
  then show ?case by simp
next
  case (Suc i)
  let ?d = "ds ! Suc i - ds ! i"
  let ?r = "snd (ts_delta_loop i (ds[Suc i := ?d]) (if ?d > mx then ?d else mx))"
  have IH: "(if ?d > mx then ?d else mx) \<le> ?r"
    "\<forall>k. 0 < k \<and> k \<le> i \<longrightarrow> ds ! k - ds ! (k - 1) \<le> ?r"
    using Suc.IH[of "ds[Suc i := ?d]" "if ?d > mx then ?d else mx"] Suc.prems by auto
  then have "mx \<le> ?r" "?d \<le> ?r" by (auto split: if_splits)
  with IH show ?case by (auto simp: Let_def le_Suc_eq)
qed

lemma ts_deltas:
  shows "fst (ts_delta_loop (length xs) (x # xs) 0) = x # diffs (x # xs)"
    and "\<forall>d \<in> set (diffs (x # xs)). d \<le> snd (ts_delta_loop (length xs) (x # xs) 0)"
proof -
  have len: "length xs < length (x # xs)" by simp
  show "fst (ts_delta_loop (length xs) (x # xs) 0) = x # diffs (x # xs)"
  proof (rule nth_equalityI)
    fix i assume "i < length (fst (ts_delta_loop (length xs) (x # xs) 0))"
    then show "fst (ts_delta_loop (length xs) (x # xs) 0) ! i = (x # diffs (x # xs)) ! i"
      unfolding ts_delta_loop_nth[OF len] by (cases i) (auto simp: nth_diffs simp del: upt_Suc)
  qed (simp add: ts_delta_loop_nth[OF len])
  show "\<forall>d \<in> set (diffs (x # xs)). d \<le> snd (ts_delta_loop (length xs) (x # xs) 0)"
  proof
    fix d assume "d \<in> set (diffs (x # xs))"
    then obtain i where "i < length xs" "d = (x # xs) ! Suc i - (x # xs) ! i"
      by (auto simp: in_set_conv_nth nth_diffs)
    then show "d \<le> snd (ts_delta_loop (length xs) (x # xs) 0)"
      using ts_delta_loop_max[OF len, of 0] by (auto dest: spec[of _ "Suc i"])
  qed
qed

subsection \<open>The decoder loops\<close>

lemma no_wrap_Cons_0: "no_wrap (0 # xs) \<longleftrightarrow> no_wrap (xs :: u64 list)"
  by (cases xs) (auto simp: sadd_ok_def)

lemma ts_uncompressed_loop_eq:
  "ts_uncompressed_loop oc (concat (map to_be_bytes ds)) prev dst =
    (if oc \<and> \<not> no_wrap (prev # sums prev ds) then Panic else Ok (dst @ sums prev ds))"
proof (induction ds arbitrary: prev dst)
  case Nil
  then show ?case by (simp add: ts_uncompressed_loop.simps)
next
  case (Cons d ds)
  then show ?case
    by (subst ts_uncompressed_loop.simps) (simp add: slice_range_def add_i64_def)
qed

lemma ts_rle_loop_eq: "ts_rle_loop (Suc n) a d dst = dst @ a # sums a (replicate n d)"
proof (induction n arbitrary: a dst)
  case (Suc n)
  then show ?case using Suc[of "a + d" "dst @ [a]"] by simp
qed simp

lemma ts_add_loop_eq:
  assumes "\<forall>d \<in> set ds. f (g d) = Ok d"
  shows "ts_add_loop oc f (map g ds) a dst =
    (if oc \<and> \<not> no_wrap (a # sums a ds) then Panic else Ok (dst @ sums a ds))"
  using assms by (induction ds arbitrary: a dst) (auto simp: add_i64_def)

subsection \<open>Round trip\<close>

context varint
begin

lemma ts_encode_rle_eq:
  "\<exists>j \<le> 12. delta mod 10 ^ j = 0 \<and> ts_encode_rle encode_var v delta count [] =
    Ok ([of_nat j] @ to_be_bytes v @ encode_var (delta div 10 ^ j) @ encode_var count)"
proof -
  obtain j where j: "j \<le> 12" "ts_div_loop delta 1000000000000 = 10 ^ j" "delta mod 10 ^ j = 0"
    using ts_div_loop_12[of delta] by (elim exE conjE)
  have nib: "of_nat j \<le> (15::u8)" "log10_u8 (10 ^ j) = of_nat j"
    using j(1) by (auto intro: low_nibble log10_u8_pow10)
  have upd: "(resize 19 0 ([0] @ to_be_bytes v))[0 := 0 OR of_nat j] = resize 19 0 ([of_nat j] @ to_be_bytes v)"
    "resize 19 0 ([0] @ to_be_bytes v) ! 0 = 0"
    by (simp_all add: resize_def)
  have "ts_encode_rle encode_var v delta count [] =
    Ok ([of_nat j] @ to_be_bytes v @ encode_var (delta div 10 ^ j) @ encode_var count)"
  proof (cases "j = 0")
    case True
    then show ?thesis
      using encode_two_vars[of "[0] @ to_be_bytes v" delta count] j(2)
      by (simp add: ts_encode_rle_def MAX_VAR_INT_64_def)
  next
    case False
    then have "1 < (10::u64) ^ j" using pow10_gt_1[of j] j(1) by simp
    then show ?thesis
      using encode_two_vars[of "[of_nat j] @ to_be_bytes v" "delta div 10 ^ j" count] j(2) nib upd
      by (simp add: ts_encode_rle_def MAX_VAR_INT_64_def)
  qed
  then show ?thesis using j(1,3) by (intro exI[of _ j] conjI)
qed

lemma ts_write_rle:
  assumes "1 < length (z # zs)" "use_rle (z # zs)" "length (z # zs) < 2 ^ 64"
  shows "\<exists>b bs. ts_write_deltas encode_var (z # zs) mx = Ok (b # bs) \<and> drop_bit 4 b = 2 \<and>
    ts_decode oc decode_var (b # bs) [] = Ok (z # sums z zs)"
proof -
  have "zs \<noteq> []" using assms(1) by auto
  note eq = use_rle_replicate[OF assms(2) this]
  let ?n = "word_of_nat (length (z # zs)) :: u64"
  have cnt: "unat ?n = Suc (length zs)" using assms(3) by (simp add: unat_of_nat del: of_nat_Suc)
  obtain j where j: "j \<le> 12" "(zs ! 0) mod 10 ^ j = 0"
    "ts_encode_rle encode_var z (zs ! 0) ?n [] =
      Ok ([of_nat j] @ to_be_bytes z @ encode_var ((zs ! 0) div 10 ^ j) @ encode_var ?n)"
    using ts_encode_rle_eq[of "zs ! 0" z ?n] by (elim exE conjE)
  have nib: "unat ((0x20 OR of_nat j :: u8) AND 0x0f) = j" "drop_bit 4 (0x20 OR of_nat j :: u8) = 2"
    using j(1) by (intro low_nibble; simp)+
  let ?b = "0x20 OR of_nat j :: u8" and ?bs = "to_be_bytes z @ encode_var ((zs ! 0) div 10 ^ j) @ encode_var ?n"
  have "ts_write_deltas encode_var (z # zs) mx = Ok (?b # ?bs)"
    using assms j(3) by (simp add: ts_write_deltas_def or.commute)
  moreover have "ts_decode_rle oc decode_var (?b # ?bs) [] = Ok (z # sums z (replicate (length zs) (zs ! 0)))"
    using decode_encode[of "(zs ! 0) div 10 ^ j" "encode_var ?n"] decode_encode_nil[of ?n] cnt
    by (simp add: ts_decode_rle_def mul_u64_div[OF j(2)] drop_Cons' slice_from_def slice_range_def ts_rle_loop_eq nib(1) del: of_nat_Suc ts_rle_loop.simps)
  ultimately show ?thesis
    using nib(2) by (intro exI[of _ ?b] exI[of _ ?bs]) (simp add: ts_decode_def flip: eq)
qed

lemma ts_write_uncompressed:
  assumes "\<not> (1 < length (z # zs) \<and> use_rle (z # zs))" "MAX_VALUE < mx"
  shows "\<exists>bs. ts_write_deltas encode_var (z # zs) mx = Ok (0 # bs) \<and>
    ts_decode oc decode_var (0 # bs) [] =
      (if oc \<and> \<not> no_wrap (z # sums z zs) then Panic else Ok (z # sums z zs))"
proof -
  have "ts_write_deltas encode_var (z # zs) mx = Ok (0 # concat (map to_be_bytes (z # zs)))"
    using assms by (auto simp: ts_write_deltas_def)
  moreover have "ts_decode oc decode_var (0 # concat (map to_be_bytes (z # zs))) [] =
    ts_uncompressed_loop oc (concat (map to_be_bytes (z # zs))) 0 []"
    by (simp add: ts_decode_def ts_decode_uncompressed_def)
  ultimately show ?thesis
    using ts_uncompressed_loop_eq[of oc "z # zs" 0 "[]"] by (auto simp: sadd_ok_def)
qed

lemma ts_write_packed:
  assumes "\<not> (1 < length (z # zs) \<and> use_rle (z # zs))" "\<not> MAX_VALUE < mx" "\<forall>d \<in> set zs. d \<le> mx"
  shows "\<exists>b bs. ts_write_deltas encode_var (z # zs) mx = Ok (b # bs) \<and> drop_bit 4 b = 1 \<and>
    ts_decode oc decode_var (b # bs) [] =
      (if oc \<and> \<not> no_wrap (z # sums z zs) then Panic else Ok (z # sums z zs))"
proof -
  obtain j where j: "j \<le> 12" "ts_common_div zs 1000000000000 = 10 ^ j" "\<forall>d \<in> set zs. d mod 10 ^ j = 0"
    using ts_common_div_12[of zs] by (elim exE conjE)
  let ?b = "0x10 OR of_nat j :: u8" and ?q = "map (\<lambda>d. d div 10 ^ j) zs"
  have nib: "unat (?b AND 0x0f) = j" "drop_bit 4 ?b = 1" "log10_u8 (10 ^ j) = of_nat j"
    using j(1) by (intro low_nibble log10_u8_pow10; simp)+
  have "d div 10 ^ j \<le> MAX_VALUE" if "d \<in> set zs" for d
  proof -
    have "d div 10 ^ j \<le> d" by (simp add: word_le_nat_alt unat_div)
    also have "d \<le> MAX_VALUE" using that assms(2,3) by (meson leI order.trans)
    finally show ?thesis .
  qed
  then obtain ws where ws: "simple8b_encode ?q (?b # to_be_bytes z) = Ok ((?b # to_be_bytes z) @ ws)"
    "simple8b_decode ws [] = Ok ?q"
    using simple8b_encode_decode[of ?q "?b # to_be_bytes z" "[]"] by auto
  have q0: "?q = zs" if "j = 0" using that by simp
  have "ts_write_deltas encode_var (z # zs) mx = Ok (?b # to_be_bytes z @ ws)"
    using assms(1,2) j ws(1) nib(3) q0 pow10_gt_1[of j]
    by (auto simp: ts_write_deltas_def Let_def)
  moreover have "ts_add_loop oc (\<lambda>v. mul_u64 oc v (10 ^ j)) ?q z [z] =
    (if oc \<and> \<not> no_wrap (z # sums z zs) then Panic else Ok ([z] @ sums z zs))"
    using j(3) by (intro ts_add_loop_eq) (auto simp: mul_u64_div)
  moreover have "ts_add_loop oc Ok zs z [z] =
    (if oc \<and> \<not> no_wrap (z # sums z zs) then Panic else Ok ([z] @ sums z zs))"
    using ts_add_loop_eq[of zs Ok "\<lambda>d. d" oc z "[z]"] by simp
  ultimately show ?thesis
    using nib ws(2) q0 pow10_gt_1[of j] j(1)
    by (intro exI[of _ ?b] exI[of _ "to_be_bytes z @ ws"])
      (auto simp: ts_decode_def ts_decode_simple8b_def slice_range_def slice_from_def Let_def)
qed

lemma ts_decode_encode:
  assumes "length src < 2 ^ 64"
  shows "\<exists>bs. ts_encode encode_var src dst = Ok bs \<and>
    ts_decode oc decode_var bs [] =
      (if oc \<and> bs \<noteq> [] \<and> drop_bit 4 (hd bs) \<noteq> 2 \<and> \<not> no_wrap src then Panic else Ok src)"
proof (cases src)
  case Nil
  then show ?thesis by (simp add: ts_encode_def ts_decode_def)
next
  case (Cons x xs)
  obtain mx where loop: "ts_delta_loop (length xs) (x # xs) 0 = (x # diffs src, mx)"
    using ts_deltas(1)[of xs x] Cons by (metis prod.collapse)
  then have mx: "\<forall>d \<in> set (diffs src). d \<le> mx" using ts_deltas(2)[of x xs] Cons by simp
  have src: "x # sums x (diffs src) = src" using Cons by simp
  have len: "length (x # diffs src) < 2 ^ 64" using assms Cons by simp
  have enc: "ts_encode encode_var src dst = ts_write_deltas encode_var (x # diffs src) mx"
    using loop Cons by (cases xs) (auto simp: ts_encode_def i64_to_u64_vector_def)
  let ?rle = "1 < length (x # diffs src) \<and> use_rle (x # diffs src)"
  consider "1 < length (x # diffs src)" "use_rle (x # diffs src)" | "\<not> ?rle" "MAX_VALUE < mx"
    | "\<not> ?rle" "\<not> MAX_VALUE < mx" by argo
  then show ?thesis
  proof cases
    case 1
    from ts_write_rle[OF this len, of mx oc] show ?thesis unfolding src enc by fastforce
  next
    case 2
    from ts_write_uncompressed[OF this, of oc] show ?thesis unfolding src enc by fastforce
  next
    case 3
    from ts_write_packed[OF this mx, of oc] show ?thesis unfolding src enc by fastforce
  qed
qed

end

text \<open>C4: Decoding an encoded timestamp block gives back the timestamps, whatever common power of ten
  was divided out and whichever block format was chosen; the only exception is a build with overflow
  checks, a block that is not run-length encoded and a signed difference that wraps, where the
  decoder panics.\<close>

theorem ts_roundtrip:
  assumes "varint enc dec" and "length src < 2 ^ 64"
  shows "\<exists>bs. ts_encode enc src dst = Ok bs \<and>
    ts_decode oc dec bs [] =
      (if oc \<and> bs \<noteq> [] \<and> drop_bit 4 (hd bs) \<noteq> 2 \<and> \<not> no_wrap src then Panic else Ok src)"
  using varint.ts_decode_encode[OF assms] .

theorem ts_roundtrip_witness:
  "\<exists>bs. ts_encode leb_encode [1000, 2000, 4000] [] = Ok bs \<and> ts_decode True leb_decode bs [] = Ok [1000, 2000, 4000]"
  using ts_roundtrip[OF leb.varint_axioms, of "[1000, 2000, 4000]" "[]" True] by (simp add: sadd_ok_def)

end
