(* ===== verification/UnsignedCoder.thy ===== *)
theory UnsignedCoder
  imports IntegerCoder
begin

text \<open>
  The unsigned integer coder of \<^verbatim>\<open>src/tskv/src/tsm/coders/unsigned.rs\<close>, a wrapper around
  the signed coder.  The decoder subtracts the capacity of the destination from the
  number of decoded values without a check, so the capacity is part of the model.
\<close>

definition u64_to_i64_vector :: "u64 list \<Rightarrow> i64 list" where
  "u64_to_i64_vector src = map (\<lambda>x. x) src"

definition unsigned_encode :: "(u64 \<Rightarrow> bytes) \<Rightarrow> u64 list \<Rightarrow> bytes \<Rightarrow> (string, bytes) result" where
  "unsigned_encode enc src dst = integer_encode enc (u64_to_i64_vector src) dst"

text \<open>
  \<^verbatim>\<open>dst.reserve_exact(signed_results.len() - dst.capacity())\<close> panics when the capacity is
  larger than the number of values: with overflow checks in the subtraction, without
  them in the reservation of the wrapped amount.
\<close>

definition unsigned_decode ::
  "bool \<Rightarrow> (bytes \<Rightarrow> (u64 \<times> nat) option) \<Rightarrow> bytes \<Rightarrow> nat \<Rightarrow> u64 list \<Rightarrow> (string, u64 list) result" where
  "unsigned_decode oc dec src capacity dst =
     (if src = [] then Ok dst
      else rbind (integer_decode oc dec src []) (\<lambda>signed_results.
        if length signed_results < capacity then Panic
        else Ok (map (\<lambda>s. s) signed_results)))"

lemma unsigned_decode_encode:
  assumes "varint enc dec" and "length src < 2 ^ 64"
  shows "\<exists>bs. unsigned_encode enc src dst = Ok bs \<and> (bs = [] \<longleftrightarrow> src = []) \<and>
    unsigned_decode oc dec bs capacity buf =
      (if src = [] then Ok buf
       else if length src < capacity \<or> (oc \<and> hd bs = 0x10 \<and> \<not> no_wrap src) then Panic
       else Ok src)"
proof (cases "src = []")
  case True
  then show ?thesis by (simp add: unsigned_encode_def unsigned_decode_def u64_to_i64_vector_def integer_encode_def)
next
  case False
  obtain bs where bs: "integer_encode enc src dst = Ok bs"
    "integer_decode oc dec bs [] = (if oc \<and> bs \<noteq> [] \<and> hd bs = 0x10 \<and> \<not> no_wrap src then Panic else Ok src)"
    using varint.integer_decode_encode[OF assms, of dst oc] by blast
  then have "bs \<noteq> []" using False by (auto simp: integer_decode_def)
  with bs False show ?thesis
    by (auto simp: unsigned_encode_def unsigned_decode_def u64_to_i64_vector_def)
qed

text \<open>C10: Encoding a block of unsigned integers succeeds, and decoding it has exactly three outcomes.  The empty block is
  encoded as no bytes, and decoding these leaves the destination as it was, whatever its capacity.  For any other
  block the decoder panics if the capacity of the destination is larger than the number of values, or if the build
  checks overflows, the block is packed and a signed difference of neighbours wraps.  In all other cases it gives
  back the values.\<close>

theorem unsigned_roundtrip:
  assumes "varint enc dec" and "length src < 2 ^ 64"
  shows "\<exists>bs. unsigned_encode enc src dst = Ok bs \<and> (bs = [] \<longleftrightarrow> src = []) \<and>
    unsigned_decode oc dec bs capacity buf =
      (if src = [] then Ok buf
       else if length src < capacity \<or> (oc \<and> hd bs = 0x10 \<and> \<not> no_wrap src) then Panic
       else Ok src)"
  using unsigned_decode_encode[OF assms] .

theorem unsigned_roundtrip_witness:
  "\<exists>bs. unsigned_encode leb_encode [5, 3, 12] [] = Ok bs \<and> unsigned_decode True leb_decode bs 3 [] = Ok [5, 3, 12] \<and>
    unsigned_decode True leb_decode bs 4 [] = Panic"
  using unsigned_roundtrip[OF leb.varint_axioms, of "[5, 3, 12]" "[]" True 3 "[]"]
    unsigned_roundtrip[OF leb.varint_axioms, of "[5, 3, 12]" "[]" True 4 "[]"] by (auto simp: sadd_ok_def)

end
