(* ===== verification/StringCoder.thy ===== *)
theory StringCoder
  imports Varint
begin

text \<open>
  The string block coder of \<^verbatim>\<open>src/tskv/src/tsm/coders/string.rs\<close>.  The Snappy functions of
  the \<^verbatim>\<open>snap\<close> crate are parameters: \<^verbatim>\<open>max_compress_len\<close>, \<^verbatim>\<open>compress\<close> (the input and the
  size of the output slice) and \<^verbatim>\<open>decompress\<close>; the locale \<^verbatim>\<open>snappy\<close> states what the coder
  relies on.  The decoding loop ends only if each step reads at least one byte, so it
  is a partial function.
\<close>

definition STRING_COMPRESSED_SNAPPY :: u8 where
  "STRING_COMPRESSED_SNAPPY = 1"

definition STRING_HEADER_LEN :: nat where
  "STRING_HEADER_LEN = 1"

definition MAX_I32 :: nat where
  "MAX_I32 = 2147483647"

definition MAX_VAR_INT_32 :: nat where
  "MAX_VAR_INT_32 = 5"

text \<open>The loop that writes each string after its length into the tail of the buffer.\<close>

fun string_data_loop :: "(u64 \<Rightarrow> bytes) \<Rightarrow> bytes list \<Rightarrow> bytes \<Rightarrow> nat \<Rightarrow> (string, bytes \<times> nat) result" where
  "string_data_loop enc [] data n = Ok (data, n)"
| "string_data_loop enc (s # src) data n =
     rbind (encode_var_at enc (of_nat (length s)) data n) (\<lambda>(data, n).
       rbind (slice_from data n) (\<lambda>t.
       rbind (write_front t s) (\<lambda>t. string_data_loop enc src (take n data @ t) (n + length s))))"

text \<open>\<^verbatim>\<open>source_size\<close>: room for the lengths and the bytes of all strings.\<close>

definition string_source_size :: "bytes list \<Rightarrow> nat" where
  "string_source_size src = 2 + length src * MAX_VAR_INT_32 + sum_list (map length src)"

definition string_encode ::
  "(u64 \<Rightarrow> bytes) \<Rightarrow> (nat \<Rightarrow> nat) \<Rightarrow> (bytes \<Rightarrow> nat \<Rightarrow> (string, bytes) result) \<Rightarrow>
   bytes list \<Rightarrow> bytes \<Rightarrow> (string, bytes) result" where
  "string_encode enc max_compress_len compress src dst =
     (if src = [] then Ok []
      else if \<not> list_all (\<lambda>s. length s < MAX_I32) src then Panic
      else
        let source_size = string_source_size src;
            max_encoded_len = max_compress_len source_size in
        if max_encoded_len = 0 then Err ''source length too large''
        else
          let compressed_size = max_encoded_len + STRING_HEADER_LEN;
              total_size = source_size + compressed_size;
              dst = resize total_size 0 [];
              compressed_data = take compressed_size dst;
              data = drop compressed_size dst in
          rbind (string_data_loop enc src data 0) (\<lambda>(data, n).
          rbind (slice_range data 0 n) (\<lambda>data'.
            let header = take STRING_HEADER_LEN compressed_data;
                compressed_data = drop STRING_HEADER_LEN compressed_data;
                header = header[0 := push_bit 4 STRING_COMPRESSED_SNAPPY] in
            rbind (compress data' (length compressed_data)) (\<lambda>out.
            rbind (write_front compressed_data out) (\<lambda>compressed_data.
              Ok (take (STRING_HEADER_LEN + length out) (header @ compressed_data @ data)))))))"

partial_function (option) string_decode_loop ::
  "bool \<Rightarrow> (bytes \<Rightarrow> (u64 \<times> nat) option) \<Rightarrow> bytes \<Rightarrow> nat \<Rightarrow> bytes list \<Rightarrow> (string, bytes list) result option" where
  "string_decode_loop oc dec decoded i dst =
     (if i < length decoded then
        (case dec (drop i decoded) of
           None \<Rightarrow> Some (Err ''invalid encoded string length'')
         | Some (len, num_bytes_read) \<Rightarrow>
             let lower = i + num_bytes_read; upper = lower + unat len in
             if 2 ^ 64 \<le> upper then Some (if oc then Panic else Err ''length overflow'')
             else if upper > length decoded then Some (Err ''short buffer'')
             else string_decode_loop oc dec decoded (i + unat len + num_bytes_read)
                    (dst @ [take (upper - lower) (drop lower decoded)]))
      else Some (Ok dst))"

definition string_decode ::
  "bool \<Rightarrow> (bytes \<Rightarrow> (u64 \<times> nat) option) \<Rightarrow> (bytes \<Rightarrow> (string, bytes) result) \<Rightarrow>
   bytes \<Rightarrow> bytes list \<Rightarrow> (string, bytes list) result option" where
  "string_decode oc dec decompress src dst =
     (if src = [] then Some (Ok dst)
      else case decompress (drop STRING_HEADER_LEN src) of
             Ok decoded_bytes \<Rightarrow> string_decode_loop oc dec decoded_bytes 0 dst
           | Err e \<Rightarrow> Some (Err e)
           | Panic \<Rightarrow> Some Panic)"

subsection \<open>The Snappy interface\<close>

locale snappy =
  fixes max_compress_len :: "nat \<Rightarrow> nat"
    and compress :: "bytes \<Rightarrow> nat \<Rightarrow> (string, bytes) result"
    and decompress :: "bytes \<Rightarrow> (string, bytes) result"
  assumes max_compress_len_mono:
      "m \<le> n \<Longrightarrow> max_compress_len n \<noteq> 0 \<Longrightarrow> max_compress_len m \<noteq> 0 \<and> max_compress_len m \<le> max_compress_len n"
    and decompress_compress:
      "max_compress_len (length data) \<noteq> 0 \<Longrightarrow> max_compress_len (length data) \<le> cap \<Longrightarrow>
       \<exists>out. compress data cap = Ok out \<and> length out \<le> cap \<and> decompress out = Ok data"

text \<open>A format that stores its input uncompressed has the interface.\<close>

definition store_max_len :: "nat \<Rightarrow> nat" where
  "store_max_len n = (if n < 2 ^ 32 then 32 + n + n div 6 else 0)"

definition store_compress :: "bytes \<Rightarrow> nat \<Rightarrow> (string, bytes) result" where
  "store_compress data cap = (if cap < store_max_len (length data) then Err ''buffer too small'' else Ok data)"

interpretation store: snappy store_max_len store_compress Ok
  by unfold_locales (auto simp: store_max_len_def store_compress_def div_le_mono add_mono split: if_splits)

subsection \<open>The loops\<close>

definition string_flat :: "(u64 \<Rightarrow> bytes) \<Rightarrow> bytes list \<Rightarrow> bytes" where
  "string_flat enc src = concat (map (\<lambda>s. enc (of_nat (length s)) @ s) src)"

lemma string_flat_Cons:
  "string_flat enc (s # src) = enc (of_nat (length s)) @ s @ string_flat enc src"
  by (simp add: string_flat_def)

context varint
begin

lemma length_encode_string:
  assumes "length s < MAX_I32"
  shows "length (encode_var (of_nat (length s))) \<le> 5" "unat (of_nat (length s) :: u64) = length s"
proof -
  show un: "unat (of_nat (length s) :: u64) = length s"
    using assms by (simp add: unat_of_nat MAX_I32_def)
  show "length (encode_var (of_nat (length s))) \<le> 5"
    using encode_len_bits[of "of_nat (length s)" 5] assms un by (simp add: word_less_nat_alt MAX_I32_def)
qed

lemma length_string_flat:
  "list_all (\<lambda>s. length s < MAX_I32) src \<Longrightarrow>
    length (string_flat encode_var src) \<le> length src * 5 + sum_list (map length src)"
proof (induction src)
  case (Cons s src)
  then show ?case using length_encode_string(1)[of s] by (simp add: string_flat_Cons)
qed (simp add: string_flat_def)

lemma string_data_loop_eq:
  assumes "length pre = n" "n + length (string_flat encode_var src) \<le> length (pre @ rest)"
  shows "string_data_loop encode_var src (pre @ rest) n =
    Ok (pre @ string_flat encode_var src @ drop (length (string_flat encode_var src)) rest,
      n + length (string_flat encode_var src))"
  using assms
proof (induction src arbitrary: pre rest n)
  case Nil
  then show ?case by (simp add: string_flat_def)
next
  case (Cons s src)
  let ?e = "encode_var (of_nat (length s))"
  have "string_data_loop encode_var (s # src) (pre @ rest) n =
    string_data_loop encode_var src ((pre @ ?e @ s) @ drop (length (?e @ s)) rest) (length (pre @ ?e @ s))"
    using Cons.prems
    by (auto simp: encode_var_at_def slice_from_def write_front_def string_flat_Cons ac_simps)
  also have "\<dots> = Ok ((pre @ ?e @ s) @ string_flat encode_var src @
      drop (length (string_flat encode_var src)) (drop (length (?e @ s)) rest),
    length (pre @ ?e @ s) + length (string_flat encode_var src))"
    using Cons.prems by (intro Cons.IH) (auto simp: string_flat_Cons)
  finally show ?case using Cons.prems by (simp add: string_flat_Cons ac_simps del: string_data_loop.simps)
qed

lemma string_decode_loop_eq:
  assumes "list_all (\<lambda>s. length s < MAX_I32) src" "length (pre @ string_flat encode_var src) < 2 ^ 64"
  shows "string_decode_loop oc decode_var (pre @ string_flat encode_var src) (length pre) dst = Some (Ok (dst @ src))"
  using assms
proof (induction src arbitrary: pre dst)
  case Nil
  then show ?case by (subst string_decode_loop.simps) (simp add: string_flat_def)
next
  case (Cons s src)
  let ?e = "encode_var (of_nat (length s))"
  have un: "unat (of_nat (length s) :: u64) = length s"
    using Cons.prems(1) length_encode_string(2)[of s] by simp
  have "string_decode_loop oc decode_var (pre @ string_flat encode_var (s # src)) (length pre) dst =
    string_decode_loop oc decode_var ((pre @ ?e @ s) @ string_flat encode_var src) (length (pre @ ?e @ s)) (dst @ [s])"
    using Cons.prems(2) encode_pos[of "of_nat (length s)"] un
    by (subst string_decode_loop.simps) (simp add: string_flat_Cons decode_encode Let_def ac_simps)
  also have "\<dots> = Some (Ok ((dst @ [s]) @ src))"
    using Cons.prems by (intro Cons.IH) (auto simp: string_flat_Cons)
  finally show ?case by simp
qed

lemma string_decode_encode:
  assumes sn: "snappy mcl compress decompress"
    and len: "list_all (\<lambda>s. length s < MAX_I32) src"
    and size: "string_source_size src < 2 ^ 64" "mcl (string_source_size src) \<noteq> 0"
  shows "\<exists>bs. string_encode encode_var mcl compress src dst = Ok bs \<and>
    string_decode oc decode_var decompress bs [] = Some (Ok src)"
proof (cases "src = []")
  case True
  then show ?thesis by (simp add: string_encode_def string_decode_def)
next
  case False
  let ?f = "string_flat encode_var src" and ?m = "mcl (string_source_size src)"
  have fit: "length ?f + 2 \<le> string_source_size src"
    using length_string_flat[OF len] by (simp add: string_source_size_def MAX_VAR_INT_32_def)
  have "mcl (length ?f) \<noteq> 0 \<and> mcl (length ?f) \<le> ?m"
    using fit size(2) by (intro snappy.max_compress_len_mono[OF sn]) auto
  then obtain out where out: "compress ?f ?m = Ok out" "length out \<le> ?m" "decompress out = Ok ?f"
    using snappy.decompress_compress[OF sn] by blast
  have loop: "string_data_loop encode_var src (replicate (string_source_size src) 0) 0 =
    Ok (?f @ drop (length ?f) (replicate (string_source_size src) 0), length ?f)"
    using string_data_loop_eq[of "[]" 0 src "replicate (string_source_size src) 0"] fit by simp
  have "string_encode encode_var mcl compress src dst = Ok (0x10 # out)"
    using False len size(2) loop out
    by (simp add: string_encode_def STRING_HEADER_LEN_def STRING_COMPRESSED_SNAPPY_def resize_def
        slice_range_def write_front_def Let_def)
  moreover have "string_decode_loop oc decode_var ?f 0 [] = Some (Ok src)"
    using string_decode_loop_eq[OF len, of "[]" oc "[]"] fit size(1) by simp
  ultimately show ?thesis
    using out(3) by (simp add: string_decode_def STRING_HEADER_LEN_def)
qed

end

text \<open>C8: Decoding an encoded string block ends and gives back the strings, for strings shorter than
  \<^verbatim>\<open>i32::MAX\<close> whose total size the compressor accepts.\<close>

theorem string_roundtrip:
  assumes "varint enc dec" and "snappy mcl compress decompress"
    and "list_all (\<lambda>s. length s < MAX_I32) src"
    and "string_source_size src < 2 ^ 64" "mcl (string_source_size src) \<noteq> 0"
  shows "\<exists>bs. string_encode enc mcl compress src dst = Ok bs \<and>
    string_decode oc dec decompress bs [] = Some (Ok src)"
  using varint.string_decode_encode[OF assms] .

theorem string_roundtrip_witness:
  "\<exists>bs. string_encode leb_encode store_max_len store_compress [[1, 2], [], [3]] [] = Ok bs \<and>
    string_decode True leb_decode Ok bs [] = Some (Ok [[1, 2], [], [3]])"
  using string_roundtrip[OF leb.varint_axioms store.snappy_axioms, of "[[1, 2], [], [3]]" "[]" True]
  by (simp add: MAX_I32_def string_source_size_def store_max_len_def MAX_VAR_INT_32_def)

end
