(* ===== verification/BooleanCoder.thy ===== *)
theory BooleanCoder
  imports Varint
begin

text \<open>
  The boolean block coder of \<^verbatim>\<open>src/tskv/src/tsm/coders/boolean.rs\<close>: a header byte, the
  number of values as a variable length integer, and one bit per value.  The bit
  counter \<^verbatim>\<open>n\<close> is a \<^typ>\<open>nat\<close>.
\<close>

definition BOOLEAN_COMPRESSED_BIT_PACKED :: u8 where
  "BOOLEAN_COMPRESSED_BIT_PACKED = 1"

definition BOOLEAN_HEADER_LEN :: nat where
  "BOOLEAN_HEADER_LEN = 1"

text \<open>The loop over the values; \<^verbatim>\<open>dst[index]\<close> is bounds checked.\<close>

fun boolean_bits_loop :: "bool list \<Rightarrow> nat \<Rightarrow> bytes \<Rightarrow> (string, bytes \<times> nat) result" where
  "boolean_bits_loop [] n dst = Ok (dst, n)"
| "boolean_bits_loop (v # src) n dst =
     rbind (index dst (drop_bit 3 n)) (\<lambda>b.
       boolean_bits_loop src (n + 1)
         (dst[drop_bit 3 n := if v then b OR drop_bit (n mod 8) 128 else b AND NOT (drop_bit (n mod 8) 128)]))"

definition boolean_encode :: "(u64 \<Rightarrow> bytes) \<Rightarrow> bool list \<Rightarrow> bytes \<Rightarrow> (string, bytes) result" where
  "boolean_encode enc src dst =
     (if src = [] then Ok []
      else
        let size = BOOLEAN_HEADER_LEN + 8 + (length src + 7) div 8;
            dst = resize size 0 [];
            dst = dst[0 := push_bit 4 BOOLEAN_COMPRESSED_BIT_PACKED] in
        rbind (encode_var_at enc (of_nat (length src)) dst 1) (\<lambda>(dst, end).
          let i = end - 1;
              n = 8 + i * 8 in
          rbind (boolean_bits_loop src n dst) (\<lambda>(dst, n).
            let len = drop_bit 3 n;
                len = (if n mod 8 > 0 then len + 1 else len) in
            Ok (take len dst))))"

text \<open>The loop \<^verbatim>\<open>while i > 0 && j < count\<close> over the bits of one byte.\<close>

function boolean_byte_loop :: "u8 \<Rightarrow> u8 \<Rightarrow> nat \<Rightarrow> nat \<Rightarrow> bool list \<Rightarrow> bool list \<times> nat" where
  "boolean_byte_loop v i j count dst =
     (if i > 0 \<and> j < count
      then boolean_byte_loop v (drop_bit 1 i) (j + 1) count (dst @ [v AND i \<noteq> 0])
      else (dst, j))"
  by pat_completeness auto
termination
  by (relation "measure (\<lambda>(v, i, j, count, dst). count - j)") auto

declare boolean_byte_loop.simps [simp del]

fun boolean_bytes_loop :: "bytes \<Rightarrow> nat \<Rightarrow> nat \<Rightarrow> bool list \<Rightarrow> bool list" where
  "boolean_bytes_loop [] j count dst = dst"
| "boolean_bytes_loop (v # src) j count dst =
     (case boolean_byte_loop v 128 j count dst of (dst, j) \<Rightarrow> boolean_bytes_loop src j count dst)"

definition boolean_decode ::
  "(bytes \<Rightarrow> (u64 \<times> nat) option) \<Rightarrow> bytes \<Rightarrow> bool list \<Rightarrow> (string, bool list) result" where
  "boolean_decode dec src dst =
     (if src = [] then Ok dst
      else if src ! 0 \<noteq> push_bit 4 BOOLEAN_COMPRESSED_BIT_PACKED then Panic
      else rbind (slice_from src BOOLEAN_HEADER_LEN) (\<lambda>src.
        rbind (ok_or ''boolean decoder: invalid count'' (dec src)) (\<lambda>(count, num_bytes_read).
        rbind (slice_from src num_bytes_read) (\<lambda>src.
          let count = min (length src * 8) (unat count) in
          Ok (boolean_bytes_loop src 0 count dst)))))"

subsection \<open>Bits of a buffer\<close>

text \<open>The \<^verbatim>\<open>p\<close>-th bit of a buffer, counted from the most significant bit of its first byte.\<close>

definition gbit :: "bytes \<Rightarrow> nat \<Rightarrow> bool" where
  "gbit bs p = bit (bs ! (p div 8)) (7 - p mod 8)"

lemma bit_128: "bit (drop_bit m (128 :: u8)) k \<longleftrightarrow> k + m = 7"
  using bit_exp_iff[where 'a = u8, of 7 "m + k"] by (auto simp: bit_drop_bit_eq)

lemma gbit_update:
  assumes "p < 8 * length bs" "n < 8 * length bs"
  shows "gbit (bs[n div 8 := if v then bs ! (n div 8) OR drop_bit (n mod 8) 128
      else bs ! (n div 8) AND NOT (drop_bit (n mod 8) 128)]) p = (if p = n then v else gbit bs p)"
proof -
  have "(p = n) \<longleftrightarrow> (p div 8 = n div 8 \<and> p mod 8 = n mod 8)"
    by (metis div_mult_mod_eq)
  moreover have "7 - p mod 8 + n mod 8 = 7 \<longleftrightarrow> p mod 8 = n mod 8"
    using mod_less_divisor[of 8 p] mod_less_divisor[of 8 n] by linarith
  moreover have "n div 8 < length bs" using assms by linarith
  moreover have "7 - p mod 8 < 8" by simp
  ultimately show ?thesis
    by (auto simp: gbit_def nth_list_update bit_or_iff bit_and_iff bit_not_iff bit_128)
qed

lemma boolean_bits_loop_eq:
  assumes "n + length src \<le> 8 * length dst"
  shows "\<exists>dst'. boolean_bits_loop src n dst = Ok (dst', n + length src) \<and> length dst' = length dst \<and>
    take (n div 8) dst' = take (n div 8) dst \<and>
    (\<forall>p < 8 * length dst. gbit dst' p = (if n \<le> p \<and> p < n + length src then src ! (p - n) else gbit dst p))"
  using assms
proof (induction src n dst rule: boolean_bits_loop.induct)
  case (1 n dst)
  then show ?case by auto
next
  case (2 v src n dst)
  let ?d = "dst[n div 8 := if v then dst ! (n div 8) OR drop_bit (n mod 8) 128
      else dst ! (n div 8) AND NOT (drop_bit (n mod 8) 128)]"
  have n: "n < 8 * length dst" "n div 8 < length dst" "n div 8 \<le> (n + 1) div 8"
    using 2(2) by (auto simp: div_le_mono)
  have d3: "drop_bit 3 n = n div 8" by (simp add: drop_bit_eq_div)
  have ix: "index dst (drop_bit 3 n) = (Ok (dst ! (n div 8)) :: (string, u8) result)" using n(2) by (simp add: index_def d3)
  have le: "n + 1 + length src \<le> 8 * length dst" using 2(2) by simp
  obtain dst' where d: "boolean_bits_loop src (n + 1) ?d = Ok (dst', n + 1 + length src)"
    "length dst' = length dst" "take ((n + 1) div 8) dst' = take ((n + 1) div 8) ?d"
    "\<forall>p < 8 * length dst. gbit dst' p =
      (if n + 1 \<le> p \<and> p < n + 1 + length src then src ! (p - (n + 1)) else gbit ?d p)"
    using 2(1)[OF ix, unfolded d3 length_list_update, OF le] by (elim exE conjE)
  have "take (n div 8) dst' = take (n div 8) dst"
    using arg_cong[OF d(3), of "take (n div 8)"] n(3) by (simp only: take_take min.absorb1 take_update_cancel order_refl)
  moreover have "\<forall>p < 8 * length dst. gbit dst' p =
      (if n \<le> p \<and> p < n + length (v # src) then (v # src) ! (p - n) else gbit dst p)"
  proof (intro allI impI)
    fix p assume p: "p < 8 * length dst"
    show "gbit dst' p = (if n \<le> p \<and> p < n + length (v # src) then (v # src) ! (p - n) else gbit dst p)"
      unfolding d(4)[rule_format, OF p] gbit_update[OF p n(1)] by (auto simp: nth_Cons')
  qed
  moreover have "boolean_bits_loop (v # src) n dst = Ok (dst', n + length (v # src))"
    using d(1) ix by (simp add: d3)
  ultimately show ?case using d(2) by (intro exI[of _ dst'] conjI)
qed

lemma drop_bit_128: "k \<le> 7 \<Longrightarrow> drop_bit k (128 :: u8) = 2 ^ (7 - k)"
  by (rule bit_word_eqI) (auto simp: bit_128 bit_exp_iff)

lemma boolean_byte_loop_eq:
  assumes "k \<le> 8"
  shows "boolean_byte_loop v (drop_bit k 128) j count dst =
    (dst @ take (count - j) (map (\<lambda>b. bit v (7 - b)) [k..<8]), if j < count then min count (j + (8 - k)) else j)"
  using assms
proof (induction "8 - k" arbitrary: k j dst)
  case 0
  then have "k = 8" by simp
  then show ?case by (subst boolean_byte_loop.simps) simp
next
  case (Suc m)
  then have k: "k \<le> 7" by simp
  have "(drop_bit k 128 :: u8) \<noteq> 0"
    unfolding drop_bit_128[OF k] by simp
  then have pos: "(drop_bit k 128 :: u8) > 0" by (simp add: word_neq_0_conv)
  have tst: "v AND drop_bit k 128 \<noteq> 0 \<longleftrightarrow> bit v (7 - k)"
    unfolding drop_bit_128[OF k] bit_iff_and_push_bit_not_eq_0 push_bit_of_1 ..
  have upt: "[k..<8] = k # [Suc k..<8]" using k by (simp add: upt_conv_Cons)
  have "boolean_byte_loop v (drop_bit (Suc k) 128) (j + 1) count (dst @ [bit v (7 - k)]) =
    ((dst @ [bit v (7 - k)]) @ take (count - (j + 1)) (map (\<lambda>b. bit v (7 - b)) [Suc k..<8]),
      if j + 1 < count then min count (j + 1 + (8 - Suc k)) else j + 1)"
    by (rule Suc(1)) (use Suc k in auto)
  then have rec: "boolean_byte_loop v (drop_bit 1 (drop_bit k 128)) (j + 1) count (dst @ [bit v (7 - k)]) =
    (dst @ bit v (7 - k) # take (count - (j + 1)) (map (\<lambda>b. bit v (7 - b)) [Suc k..<8]),
      if j + 1 < count then min count (j + 1 + (8 - Suc k)) else j + 1)"
    by simp
  show ?case
  proof (cases "j < count")
    case True
    then have "boolean_byte_loop v (drop_bit k 128) j count dst =
      boolean_byte_loop v (drop_bit 1 (drop_bit k 128)) (j + 1) count (dst @ [bit v (7 - k)])"
      by (subst boolean_byte_loop.simps) (simp only: pos tst simp_thms if_True)
    also have "\<dots> = (dst @ take (count - j) (map (\<lambda>b. bit v (7 - b)) [k..<8]), min count (j + (8 - k)))"
      unfolding rec upt using True k by (auto simp: take_Cons' min_def)
    finally show ?thesis using True by simp
  next
    case False
    then show ?thesis by (subst boolean_byte_loop.simps) simp
  qed
qed

subsection \<open>Round trip\<close>

abbreviation byte_bits :: "u8 \<Rightarrow> bool list" where
  "byte_bits v \<equiv> map (\<lambda>b. bit v (7 - b)) [0..<8]"

lemma boolean_bytes_loop_eq:
  "j \<le> count \<Longrightarrow> boolean_bytes_loop bs j count dst = dst @ take (count - j) (concat (map byte_bits bs))"
proof (induction bs arbitrary: j dst)
  case (Cons v bs)
  have *: "boolean_byte_loop v 128 j count dst =
    (dst @ take (count - j) (byte_bits v), if j < count then min count (j + 8) else j)"
    using boolean_byte_loop_eq[of 0 v j count dst] by simp
  show ?case
  proof (cases "j + 8 \<le> count")
    case True
    then show ?thesis using Cons.IH[of "j + 8" "dst @ byte_bits v"] * by (simp del: upt_rec_numeral)
  next
    case False
    then show ?thesis using Cons.IH[of count "dst @ take (count - j) (byte_bits v)"] Cons.prems *
      by (auto simp del: upt_rec_numeral)
  qed
qed simp

lemma length_concat_byte_bits: "length (concat (map byte_bits bs)) = 8 * length bs"
  by (induction bs) auto

lemma nth_concat_byte_bits: "p < 8 * length bs \<Longrightarrow> concat (map byte_bits bs) ! p = gbit bs p"
proof (induction bs arbitrary: p)
  case (Cons v bs)
  show ?case
  proof (cases "p < 8")
    case True
    then show ?thesis by (simp add: gbit_def nth_append del: upt_rec_numeral)
  next
    case False
    then have "(v # bs) ! (p div 8) = bs ! ((p - 8) div 8)" "p mod 8 = (p - 8) mod 8"
      by (auto simp: nth_Cons' le_div_geq le_mod_geq)
    then show ?thesis using False Cons.IH[of "p - 8"] Cons.prems
      by (simp add: gbit_def nth_append del: upt_rec_numeral)
  qed
qed simp

lemma gbit_drop_take: "p < 8 * (m - k) \<Longrightarrow> m \<le> length bs \<Longrightarrow> gbit (drop k (take m bs)) p = gbit bs (8 * k + p)"
  by (simp add: gbit_def less_mult_imp_div_less mult.commute)

context varint
begin

lemma boolean_decode_encode:
  assumes len: "length src < 2 ^ 56"
  shows "\<exists>bs. boolean_encode encode_var src dst = Ok bs \<and> boolean_decode decode_var bs [] = Ok src"
proof (cases "src = []")
  case True
  then show ?thesis by (simp add: boolean_encode_def boolean_decode_def)
next
  case False
  define e where "e = encode_var (of_nat (length src))"
  define d where "d = 0x10 # e @ drop (length e) (replicate (8 + (length src + 7) div 8) 0)"
  have un: "unat (of_nat (length src) :: u64) = length src" using len by (simp add: unat_of_nat)
  have e8: "length e \<le> 8"
    using encode_len_bits[of "of_nat (length src)" 8] len un by (simp add: e_def word_less_nat_alt)
  have arr: "(resize (9 + x) 0 [])[0 := 16] = (16 # replicate (8 + x) 0 :: bytes)" for x
    by (rule nth_equalityI) (auto simp: resize_def nth_list_update nth_Cons')
  have var: "encode_var_at encode_var (of_nat (length src))
      ((resize (9 + (length src + 7) div 8) 0 [])[0 := push_bit 4 BOOLEAN_COMPRESSED_BIT_PACKED]) 1 =
    (Ok (d, 1 + length e) :: (string, bytes \<times> nat) result)"
    using e8 by (simp add: encode_var_at_def slice_from_def write_front_def d_def arr
        BOOLEAN_COMPRESSED_BIT_PACKED_def flip: e_def)
  have ld: "length d = 9 + (length src + 7) div 8" using e8 by (simp add: d_def)
  let ?n = "8 + length e * 8"
  have fits: "?n + length src \<le> 8 * length d" using e8 ld by linarith
  obtain d' where d': "boolean_bits_loop src ?n d = Ok (d', ?n + length src)" "length d' = length d"
    "take (?n div 8) d' = take (?n div 8) d"
    "\<forall>p < 8 * length d. gbit d' p = (if ?n \<le> p \<and> p < ?n + length src then src ! (p - ?n) else gbit d p)"
    using boolean_bits_loop_eq[OF fits] by (elim exE conjE)
  define L where "L = 1 + length e + (length src + 7) div 8"
  define pl where "pl = drop (1 + length e) (take L d')"
  have L: "(if (?n + length src) mod 8 > 0 then drop_bit 3 (?n + length src) + 1 else drop_bit 3 (?n + length src)) = L"
    by (simp add: L_def drop_bit_eq_div) presburger
  have Ld: "L \<le> length d'" using d'(2) ld e8 by (simp add: L_def)
  have "take (1 + length e) (take L d') = take (1 + length e) d"
    using d'(3) by (simp add: L_def min_def)
  also have "\<dots> = 0x10 # e" by (simp add: d_def)
  finally have out: "take L d' = 0x10 # e @ pl"
    by (metis append_Cons append_take_drop_id pl_def)
  have enc: "boolean_encode encode_var src dst = Ok (0x10 # e @ pl)"
    using False var d'(1) L out by (simp add: boolean_encode_def BOOLEAN_HEADER_LEN_def Let_def)
  have lpl: "length pl = (length src + 7) div 8" using Ld by (simp add: pl_def L_def)
  have "take (length src) (concat (map byte_bits pl)) = src"
  proof (rule nth_equalityI)
    show "length (take (length src) (concat (map byte_bits pl))) = length src"
      unfolding length_take length_concat_byte_bits lpl by linarith
    fix p assume "p < length (take (length src) (concat (map byte_bits pl)))"
    then have p: "p < length src" "p < 8 * length pl" unfolding length_take length_concat_byte_bits by auto
    have "gbit pl p = gbit d' (?n + p)"
      using gbit_drop_take[of p L "1 + length e" d'] p Ld lpl
      by (simp add: pl_def L_def algebra_simps)
    also have "\<dots> = src ! p" using d'(4)[rule_format, of "?n + p"] p(1) fits by simp
    finally show "take (length src) (concat (map byte_bits pl)) ! p = src ! p"
      using nth_concat_byte_bits[OF p(2)] p(1) by (simp del: upt_rec_numeral)
  qed
  moreover have "min (length pl * 8) (length src) = length src" using lpl by simp
  ultimately have "boolean_decode decode_var (0x10 # e @ pl) [] = Ok src"
    using decode_encode[of "of_nat (length src)" pl] un boolean_bytes_loop_eq[of 0 "length src" pl "[]"]
    by (simp add: boolean_decode_def BOOLEAN_COMPRESSED_BIT_PACKED_def BOOLEAN_HEADER_LEN_def slice_from_def
        del: upt_rec_numeral flip: e_def)
  with enc show ?thesis by blast
qed

end

text \<open>C9: Decoding an encoded boolean block gives back exactly the encoded values, one bit each; the
  encoder never runs out of the buffer it reserves.\<close>

theorem boolean_roundtrip:
  assumes "varint enc dec" and "length src < 2 ^ 56"
  shows "\<exists>bs. boolean_encode enc src dst = Ok bs \<and> boolean_decode dec bs [] = Ok src"
  using varint.boolean_decode_encode[OF assms] .

theorem boolean_roundtrip_witness:
  "\<exists>bs. boolean_encode leb_encode [True, False, True] [] = Ok bs \<and> boolean_decode leb_decode bs [] = Ok [True, False, True]"
  using boolean_roundtrip[OF leb.varint_axioms, of "[True, False, True]" "[]"] by simp

end
