(* ===== verification/FloatCoder.thy ===== *)
theory FloatCoder
  imports BooleanCoder
begin

text \<open>
  The float block coder of \<^verbatim>\<open>src/tskv/src/tsm/coders/float.rs\<close> (the XOR scheme of the
  Gorilla paper).  A value is its bit pattern.  The encoder keeps a byte buffer and the
  number \<^verbatim>\<open>n\<close> of bits written; the decoder keeps a 64 bit cache that it rotates.  The steps
  that the source repeats (growing the buffer, writing a few bits, refilling the cache)
  are functions of their own.
\<close>

subsection \<open>Encoder\<close>

definition SENTINEL :: u64 where "SENTINEL = 0x7ff80000000000ff"

definition SENTINEL_INFLUXDB :: u64 where "SENTINEL_INFLUXDB = 0x7ff8000000000001"

definition is_sentinel_f64 :: "f64 \<Rightarrow> u64 \<Rightarrow> bool" where
  "is_sentinel_f64 v sentinel \<longleftrightarrow> v = sentinel"

definition is_sentinel_u64 :: "u64 \<Rightarrow> u64 \<Rightarrow> bool" where
  "is_sentinel_u64 v sentinel \<longleftrightarrow> v = sentinel"

definition leading_zeros :: "u64 \<Rightarrow> nat" where
  "leading_zeros v = length (takeWhile (\<lambda>i. \<not> bit v i) (rev [0..<64]))"

definition trailing_zeros :: "u64 \<Rightarrow> nat" where
  "trailing_zeros v = length (takeWhile (\<lambda>i. \<not> bit v i) [0..<64])"

text \<open>The state of \<^verbatim>\<open>encode\<close> between two values; \<^verbatim>\<open>fw_leading\<close> is \<^const>\<open>None\<close> for \<^verbatim>\<open>!0u64\<close>.\<close>

record FloatWriter =
  fw_dst :: bytes
  fw_n :: nat
  fw_prev :: u64
  fw_leading :: "nat option"
  fw_trailing :: nat

text \<open>\<^verbatim>\<open>while k >= dst.len() { dst.push(0) }\<close> and \<^verbatim>\<open>if k >= dst.len() { dst.push(0) }\<close>.\<close>

definition grow_while :: "nat \<Rightarrow> bytes \<Rightarrow> bytes" where
  "grow_while k dst = dst @ replicate (Suc k - length dst) 0"

definition grow_if :: "nat \<Rightarrow> bytes \<Rightarrow> bytes" where
  "grow_if k dst = (if k \<ge> length dst then dst @ [0] else dst)"

text \<open>\<^verbatim>\<open>dst[i] |= x\<close>\<close>

definition or_at :: "bytes \<Rightarrow> nat \<Rightarrow> u8 \<Rightarrow> (string, bytes) result" where
  "or_at dst i x = rbind (index dst i) (\<lambda>b. Ok (dst[i := b OR x]))"

text \<open>\<^verbatim>\<open>dst[k..k + 8].clone_from_slice(vv)\<close>\<close>

definition copy_at :: "bytes \<Rightarrow> nat \<Rightarrow> bytes \<Rightarrow> (string, bytes) result" where
  "copy_at dst k vv =
     (if k + length vv \<le> length dst then Ok (take k dst @ vv @ drop (k + length vv) dst) else Panic)"

text \<open>The five bits of the leading zero count and the six bits of the length: the \<^verbatim>\<open>l\<close> most significant
  bits of \<^verbatim>\<open>v\<close>, in the current byte or split over two.\<close>

definition float_put_small :: "nat \<Rightarrow> u64 \<Rightarrow> bytes \<Rightarrow> nat \<Rightarrow> (string, bytes \<times> nat) result" where
  "float_put_small l v dst n =
     (let m = n mod 8; mask = drop_bit 56 v in
      if m \<le> 8 - l then
        rbind (or_at dst (drop_bit 3 n) (ucast (drop_bit m mask))) (\<lambda>dst. Ok (dst, n + l))
      else
        let written = 8 - m in
        rbind (or_at dst (drop_bit 3 n) (ucast (drop_bit m mask))) (\<lambda>dst.
          let n = n + written;
              mask = drop_bit 56 (push_bit written v);
              m = n mod 8 in
          rbind (or_at dst (drop_bit 3 n) (ucast (drop_bit m mask))) (\<lambda>dst. Ok (dst, n + (l - written)))))"

text \<open>The significant bits: the \<^verbatim>\<open>l\<close> most significant bits of \<^verbatim>\<open>v\<close>.\<close>

definition float_put_value :: "nat \<Rightarrow> u64 \<Rightarrow> bytes \<Rightarrow> nat \<Rightarrow> (string, bytes \<times> nat) result" where
  "float_put_value l v dst n =
     (let m = n mod 8;
          rest = (\<lambda>written dst n.
            let vv = push_bit written v;
                dst = grow_while (drop_bit 3 n + 8) dst;
                k = drop_bit 3 n in
            rbind (copy_at dst k (to_be_bytes vv)) (\<lambda>dst. Ok (dst, n + (l - written)))) in
      if m > 0 then
        let written = (if l < 8 - m then l else 8 - m);
            mask = drop_bit 56 v in
        rbind (or_at dst (drop_bit 3 n) (ucast (drop_bit m mask))) (\<lambda>dst.
          let n = n + written in
          if l - written = 0 then Ok (dst, n) else rest written dst n)
      else rest 0 dst n)"

text \<open>The branch that stores a new window of significant bits.\<close>

definition float_new_window ::
  "u64 \<Rightarrow> nat \<Rightarrow> nat \<Rightarrow> u64 \<Rightarrow> bytes \<Rightarrow> nat \<Rightarrow> FloatWriter \<Rightarrow> (string, FloatWriter) result" where
  "float_new_window v_delta leading trailing cur dst n w =
     rbind (or_at dst (drop_bit 3 n) (drop_bit (n mod 8) 128)) (\<lambda>dst.
       let n = n + 1;
           dst = grow_if (drop_bit 3 (n + 5)) dst in
       rbind (float_put_small 5 (push_bit 59 (of_nat leading)) dst n) (\<lambda>(dst, n).
         let sig_bits = 64 - leading - trailing;
             dst = grow_if (drop_bit 3 (n + 6)) dst in
         rbind (float_put_small 6 (push_bit 58 (of_nat sig_bits)) dst n) (\<lambda>(dst, n).
           let l = sig_bits;
               v = push_bit (64 - l) (drop_bit trailing v_delta);
               dst = grow_while (drop_bit 3 (n + l)) dst in
           rbind (float_put_value l v dst n) (\<lambda>(dst, n).
             Ok \<lparr>fw_dst = dst, fw_n = n, fw_prev = cur, fw_leading = Some leading, fw_trailing = trailing\<rparr>))))"

text \<open>One iteration of the loop for the value \<^verbatim>\<open>cur\<close>.\<close>

definition float_encode_step :: "u64 \<Rightarrow> FloatWriter \<Rightarrow> (string, FloatWriter) result" where
  "float_encode_step cur w =
     (let v_delta = cur XOR fw_prev w; n = fw_n w in
      if v_delta = 0 then Ok (w\<lparr>fw_n := n + 1, fw_prev := cur\<rparr>)
      else
        let dst = grow_while (drop_bit 3 n) (fw_dst w) in
        rbind (or_at dst (drop_bit 3 n) (drop_bit (n mod 8) 128)) (\<lambda>dst.
          let n = n + 1;
              leading = take_bit 5 (leading_zeros v_delta);
              trailing = trailing_zeros v_delta;
              dst = grow_if (drop_bit 3 (n + 2)) dst in
          case fw_leading w of
            Some prev_leading \<Rightarrow>
              if leading \<ge> prev_leading \<and> trailing \<ge> fw_trailing w then
                let n = n + 1;
                    l = 64 - prev_leading - fw_trailing w;
                    dst = grow_while (drop_bit 3 (n + 1)) dst;
                    v = push_bit (64 - l) (drop_bit (fw_trailing w) v_delta) in
                rbind (float_put_value l v dst n) (\<lambda>(dst, n).
                  Ok (w\<lparr>fw_dst := dst, fw_n := n, fw_prev := cur\<rparr>))
              else float_new_window v_delta leading trailing cur dst n w
          | None \<Rightarrow> float_new_window v_delta leading trailing cur dst n w))"

fun float_encode_loop :: "f64 list \<Rightarrow> FloatWriter \<Rightarrow> (string, FloatWriter) result" where
  "float_encode_loop [] w = float_encode_step SENTINEL w"
| "float_encode_loop (x # src) w =
     (if is_sentinel_f64 x SENTINEL then Err ''unsupported value''
      else rbind (float_encode_step x w) (\<lambda>w. float_encode_loop src w))"

definition float_encode :: "f64 list \<Rightarrow> bytes \<Rightarrow> (string, bytes) result" where
  "float_encode src dst =
     (case src of
        [] \<Rightarrow> Ok []
      | first # rest \<Rightarrow>
          rbind (float_encode_loop rest
            \<lparr>fw_dst = [push_bit 4 1] @ to_be_bytes first, fw_n = 72, fw_prev = first,
             fw_leading = None, fw_trailing = 0\<rparr>) (\<lambda>w.
            let len = drop_bit 3 (fw_n w);
                len = (if fw_n w mod 8 > 0 then len + 1 else len) in
            Ok (take len (fw_dst w))))"

subsection \<open>Decoder\<close>

definition BIT_MASK :: "u64 list" where
  "BIT_MASK =
    [0xffffffffffffffff, 0x0001, 0x0003, 0x0007, 0x000f, 0x001f,
     0x003f, 0x007f, 0x00ff, 0x01ff, 0x03ff, 0x07ff,
     0x0fff, 0x1fff, 0x3fff, 0x7fff, 0xffff, 0x0001ffff,
     0x0003ffff, 0x0007ffff, 0x000fffff, 0x001fffff, 0x003fffff, 0x007fffff,
     0x00ffffff, 0x01ffffff, 0x03ffffff, 0x07ffffff, 0x0fffffff, 0x1fffffff,
     0x3fffffff, 0x7fffffff, 0xffffffff, 0x0001ffffffff, 0x0003ffffffff, 0x0007ffffffff,
     0x000fffffffff, 0x001fffffffff, 0x003fffffffff, 0x007fffffffff, 0x00ffffffffff, 0x01ffffffffff,
     0x03ffffffffff, 0x07ffffffffff, 0x0fffffffffff, 0x1fffffffffff, 0x3fffffffffff, 0x7fffffffffff,
     0xffffffffffff, 0x0001ffffffffffff, 0x0003ffffffffffff, 0x0007ffffffffffff, 0x000fffffffffffff, 0x001fffffffffffff,
     0x003fffffffffffff, 0x007fffffffffffff, 0x00ffffffffffffff, 0x01ffffffffffffff, 0x03ffffffffffffff, 0x07ffffffffffffff,
     0x0fffffffffffffff, 0x1fffffffffffffff, 0x3fffffffffffffff, 0x7fffffffffffffff]"

record FloatReader =
  fr_val :: u64
  fr_cached :: u64
  fr_valid :: u8
  fr_i :: nat
  fr_trailing_n :: u8
  fr_meaningful_n :: u8
  fr_dst :: "f64 list"

text \<open>The closure \<^verbatim>\<open>refill_cache\<close>.\<close>

definition float_refill_cache :: "bytes \<Rightarrow> nat \<Rightarrow> (string, u64 \<times> u8 \<times> nat) result" where
  "float_refill_cache src i =
     (let remaining_bytes = length src - i in
      if remaining_bytes \<ge> 8 then Ok (from_be (take 8 (drop i src)), 64, 8)
      else if remaining_bytes > 0 then
        let br_cached_val = from_be (drop i src);
            br_valid_bits = of_nat (remaining_bytes * 8) in
        Ok (word_rotr (unat br_valid_bits) br_cached_val, br_valid_bits, length (drop i src))
      else Err ''unexpected end of block'')"

definition float_refill :: "bytes \<Rightarrow> FloatReader \<Rightarrow> (string, FloatReader) result" where
  "float_refill src r = rbind (float_refill_cache src (fr_i r)) (\<lambda>(c, v, k).
     Ok (r\<lparr>fr_cached := c, fr_valid := v, fr_i := fr_i r + k\<rparr>))"

text \<open>Reading one control bit.\<close>

definition float_read_bit :: "bool \<Rightarrow> bytes \<Rightarrow> FloatReader \<Rightarrow> (string, FloatReader \<times> bool) result" where
  "float_read_bit oc src r =
     rbind (if fr_valid r = 0 then float_refill src r else Ok r) (\<lambda>r.
     rbind (sub_u8 oc (fr_valid r) 1) (\<lambda>v.
       let c = word_rotl 1 (fr_cached r) in
       Ok (r\<lparr>fr_valid := v, fr_cached := c\<rparr>, c AND 1 \<noteq> 0)))"

text \<open>Reading the eleven bits of a new window, and what they stand for.\<close>

definition float_window_bits :: "bool \<Rightarrow> bytes \<Rightarrow> FloatReader \<Rightarrow> (string, FloatReader \<times> u64) result" where
  "float_window_bits oc src r =
     (if fr_valid r \<ge> 11 then
        rbind (sub_u8 oc (fr_valid r) 11) (\<lambda>v.
          let c = word_rotl 11 (fr_cached r) in Ok (r\<lparr>fr_valid := v, fr_cached := c\<rparr>, c))
      else
        rbind (if fr_valid r > 0
               then rbind (sub_u8 oc 11 (fr_valid r)) (\<lambda>b. Ok (b, word_rotl 11 (fr_cached r)))
               else Ok (11, 0)) (\<lambda>(bits_01, lm_bits).
        rbind (float_refill src r) (\<lambda>r.
          let c = word_rotl (unat bits_01) (fr_cached r) in
          rbind (sub_u8 oc (fr_valid r) bits_01) (\<lambda>v.
          rbind (index BIT_MASK (unat (bits_01 AND 0x3f))) (\<lambda>bm.
            Ok (r\<lparr>fr_valid := v, fr_cached := c\<rparr>, lm_bits AND NOT bm OR c AND bm))))))"

definition float_read_window :: "bool \<Rightarrow> bytes \<Rightarrow> FloatReader \<Rightarrow> (string, FloatReader) result" where
  "float_read_window oc src r =
     rbind (float_window_bits oc src r) (\<lambda>(r, lm_bits).
       let lm_bits = lm_bits AND 0x7ff;
           leading_n = (ucast (drop_bit 6 lm_bits) :: u8) AND 0x1f;
           meaningful_n = (ucast (lm_bits AND 0x3f) :: u8) in
       if meaningful_n > 0 then
         rbind (sub_u8 oc 64 leading_n) (\<lambda>t. rbind (sub_u8 oc t meaningful_n) (\<lambda>t.
           Ok (r\<lparr>fr_trailing_n := t, fr_meaningful_n := meaningful_n\<rparr>)))
       else Ok (r\<lparr>fr_trailing_n := 0, fr_meaningful_n := 64\<rparr>))"

text \<open>Reading the significant bits, and forming the next value.\<close>

definition float_value_bits :: "bool \<Rightarrow> bytes \<Rightarrow> FloatReader \<Rightarrow> (string, FloatReader \<times> u64) result" where
  "float_value_bits oc src r =
     (if fr_valid r \<ge> fr_meaningful_n r then
        rbind (sub_u8 oc (fr_valid r) (fr_meaningful_n r)) (\<lambda>v.
          let c = word_rotl (unat (fr_meaningful_n r)) (fr_cached r) in
          Ok (r\<lparr>fr_valid := v, fr_cached := c\<rparr>, c))
      else
        rbind (if fr_valid r > 0
               then rbind (sub_u8 oc (fr_meaningful_n r) (fr_valid r)) (\<lambda>b.
                 Ok (b, word_rotl (unat (fr_meaningful_n r)) (fr_cached r)))
               else Ok (fr_meaningful_n r, 0)) (\<lambda>(m_bits, s_bits).
        rbind (float_refill src r) (\<lambda>r.
          let c = word_rotl (unat m_bits) (fr_cached r);
              v = fr_valid r - m_bits in
          rbind (index BIT_MASK (unat (m_bits AND 0x3f))) (\<lambda>bm.
            Ok (r\<lparr>fr_valid := v, fr_cached := c\<rparr>, s_bits AND NOT bm OR c AND bm)))))"

definition float_read_value :: "bool \<Rightarrow> bytes \<Rightarrow> FloatReader \<Rightarrow> (string, FloatReader) result" where
  "float_read_value oc src r =
     rbind (float_value_bits oc src r) (\<lambda>(r, s_bits).
       rbind (index BIT_MASK (unat (fr_meaningful_n r AND 0x3f))) (\<lambda>bm.
         let s_bits = s_bits AND bm in
         Ok (r\<lparr>fr_val := fr_val r XOR push_bit (unat (fr_trailing_n r AND 0x3f)) s_bits\<rparr>)))"

text \<open>One iteration of \<^verbatim>\<open>loop\<close>; the flag says whether the loop is left at the sentinel.\<close>

definition float_decode_step :: "bool \<Rightarrow> bytes \<Rightarrow> u64 \<Rightarrow> FloatReader \<Rightarrow> (string, bool \<times> FloatReader) result" where
  "float_decode_step oc src sentinel r =
     rbind (float_read_bit oc src r) (\<lambda>(r, b).
       if \<not> b then Ok (False, r\<lparr>fr_dst := fr_dst r @ [fr_val r]\<rparr>)
       else rbind (float_read_bit oc src r) (\<lambda>(r, b).
         rbind (if b then float_read_window oc src r else Ok r) (\<lambda>r.
         rbind (float_read_value oc src r) (\<lambda>r.
           if is_sentinel_u64 (fr_val r) sentinel then Ok (True, r)
           else Ok (False, r\<lparr>fr_dst := fr_dst r @ [fr_val r]\<rparr>)))))"

text \<open>Every iteration reads at least one bit: bytes not yet read count more than any number of bits in
  the cache, so that a refill makes up for whatever is left in it.\<close>

definition reader_size :: "bytes \<Rightarrow> FloatReader \<Rightarrow> nat" where
  "reader_size src r = (length src - fr_i r) * 256 + unat (fr_valid r)"

lemma float_refill_advances:
  assumes "float_refill src r = Ok r'"
  shows "fr_i r < fr_i r'" "fr_i r < length src" "fr_i r' \<le> length src"
  using assms by (auto simp: float_refill_def float_refill_cache_def Let_def split: if_splits)

lemma reader_size_refilled:
  assumes "float_refill src r = Ok r'" "fr_i r'' = fr_i r'"
  shows "reader_size src r'' < reader_size src r"
proof -
  have "(length src - fr_i r') * 256 + 256 \<le> (length src - fr_i r) * 256"
    using float_refill_advances[OF assms(1)] by (simp add: diff_less_mono2 Suc_leI flip: mult_Suc)
  moreover have "unat (fr_valid r'') < 256"
    by (rule order.strict_trans2[OF unsigned_less]) simp
  ultimately show ?thesis using assms(2) by (simp add: reader_size_def)
qed

lemma unat_sub_le: "(b :: u8) \<le> a \<Longrightarrow> unat (a - b) \<le> unat a"
  by (simp add: unat_sub)

lemma float_read_bit_size:
  assumes "float_read_bit oc src r = Ok (r', b)"
  shows "reader_size src r' < reader_size src r"
proof (cases "fr_valid r = 0")
  case True
  then show ?thesis
    using assms reader_size_refilled[of src r] by (auto simp: float_read_bit_def rbind_eq_Ok Let_def)
next
  case False
  then have "1 \<le> fr_valid r" "unat (fr_valid r) \<noteq> 0" by (auto simp: unat_eq_0 word_le_nat_alt Suc_le_eq unat_gt_0)
  then show ?thesis
    using assms False by (auto simp: float_read_bit_def rbind_eq_Ok Let_def reader_size_def sub_u8_def unat_sub
        split: if_splits)
qed

lemma float_window_bits_size:
  assumes "float_window_bits oc src r = Ok (r', x)"
  shows "reader_size src r' \<le> reader_size src r"
proof (cases "11 \<le> fr_valid r")
  case True
  then have "fr_i r' = fr_i r" "fr_valid r' = fr_valid r - 11"
    using assms by (auto simp: float_window_bits_def sub_u8_def Let_def split: if_splits)
  then show ?thesis using unat_sub_le[OF True] by (simp add: reader_size_def)
next
  case False
  then obtain r1 where "float_refill src r = Ok r1" "fr_i r' = fr_i r1"
    using assms unfolding float_window_bits_def by (auto simp: rbind_eq_Ok Let_def)
  then show ?thesis using reader_size_refilled less_imp_le by blast
qed

lemma float_value_bits_size:
  assumes "float_value_bits oc src r = Ok (r', x)"
  shows "reader_size src r' \<le> reader_size src r"
proof (cases "fr_meaningful_n r \<le> fr_valid r")
  case True
  then have "fr_i r' = fr_i r" "fr_valid r' = fr_valid r - fr_meaningful_n r"
    using assms by (auto simp: float_value_bits_def sub_u8_def Let_def split: if_splits)
  then show ?thesis using unat_sub_le[OF True] by (simp add: reader_size_def)
next
  case False
  then obtain r1 where "float_refill src r = Ok r1" "fr_i r' = fr_i r1"
    using assms unfolding float_value_bits_def by (auto simp: rbind_eq_Ok Let_def)
  then show ?thesis using reader_size_refilled less_imp_le by blast
qed

lemma reader_size_cong: "fr_i r = fr_i r' \<Longrightarrow> fr_valid r = fr_valid r' \<Longrightarrow> reader_size src r = reader_size src r'"
  by (simp add: reader_size_def)

lemma float_read_window_size:
  assumes "float_read_window oc src r = Ok r'"
  shows "reader_size src r' \<le> reader_size src r"
proof -
  obtain r1 x where r1: "float_window_bits oc src r = Ok (r1, x)"
    using assms by (cases "float_window_bits oc src r") (auto simp: float_read_window_def)
  then have "fr_i r' = fr_i r1 \<and> fr_valid r' = fr_valid r1"
    using assms by (auto simp: float_read_window_def rbind_eq_Ok Let_def split: if_splits)
  then show ?thesis using float_window_bits_size[OF r1] reader_size_cong[of r' r1] by simp
qed

lemma float_read_value_size:
  assumes "float_read_value oc src r = Ok r'"
  shows "reader_size src r' \<le> reader_size src r"
proof -
  obtain r1 x where r1: "float_value_bits oc src r = Ok (r1, x)"
    using assms by (cases "float_value_bits oc src r") (auto simp: float_read_value_def)
  then have "fr_i r' = fr_i r1 \<and> fr_valid r' = fr_valid r1"
    using assms by (auto simp: float_read_value_def rbind_eq_Ok Let_def)
  then show ?thesis using float_value_bits_size[OF r1] reader_size_cong[of r' r1] by simp
qed

lemma reader_size_dst [simp]: "reader_size src (r\<lparr>fr_dst := d\<rparr>) = reader_size src r"
  by (simp add: reader_size_def)

lemma float_decode_step_size:
  assumes "float_decode_step oc src sentinel r = Ok (False, r')"
  shows "reader_size src r' < reader_size src r"
proof -
  obtain r1 b where r1: "float_read_bit oc src r = Ok (r1, b)"
    using assms by (auto simp: float_decode_step_def rbind_eq_Ok)
  note 1 = float_read_bit_size[OF r1]
  show ?thesis
  proof (cases b)
    case False
    then show ?thesis using assms r1 1 by (auto simp: float_decode_step_def)
  next
    case True
    obtain r2 b2 where r2: "float_read_bit oc src r1 = Ok (r2, b2)"
      using assms r1 True by (cases "float_read_bit oc src r1") (auto simp: float_decode_step_def)
    obtain r3 where r3: "(if b2 then float_read_window oc src r2 else Ok r2) = Ok r3"
      using assms r1 r2 True
      by (cases "if b2 then float_read_window oc src r2 else Ok r2") (auto simp: float_decode_step_def)
    obtain r4 where r4: "float_read_value oc src r3 = Ok r4" "reader_size src r' = reader_size src r4"
      using assms r1 r2 r3 True
      by (cases "float_read_value oc src r3") (auto simp: float_decode_step_def split: if_splits)
    have "reader_size src r3 \<le> reader_size src r2"
      using r3 float_read_window_size[of oc src r2 r3] by (auto split: if_splits)
    then show ?thesis
      using 1 float_read_bit_size[OF r2] float_read_value_size[OF r4(1)] r4(2) by linarith
  qed
qed

function float_decode_loop :: "bool \<Rightarrow> bytes \<Rightarrow> u64 \<Rightarrow> FloatReader \<Rightarrow> (string, FloatReader) result" where
  "float_decode_loop oc src sentinel r =
     rbind (float_decode_step oc src sentinel r) (\<lambda>(done, r).
       if done then Ok r else float_decode_loop oc src sentinel r)"
  by pat_completeness auto
termination
  by (relation "measure (\<lambda>(oc, src, sentinel, r). reader_size src r)") (auto dest: float_decode_step_size)

declare float_decode_loop.simps [simp del]

definition float_decode_with_sentinel :: "bool \<Rightarrow> bytes \<Rightarrow> f64 list \<Rightarrow> u64 \<Rightarrow> (string, f64 list) result" where
  "float_decode_with_sentinel oc src dst sentinel =
     (if length src < 9 then Ok dst
      else
        let val = from_be (take 8 (drop 1 src)) in
        rbind (float_refill src \<lparr>fr_val = val, fr_cached = 0, fr_valid = 0, fr_i = 9, fr_trailing_n = 0,
          fr_meaningful_n = 64, fr_dst = dst @ [val]\<rparr>) (\<lambda>r.
        rbind (float_decode_loop oc src sentinel r) (\<lambda>r. Ok (fr_dst r))))"

definition float_decode :: "bool \<Rightarrow> bytes \<Rightarrow> f64 list \<Rightarrow> (string, f64 list) result" where
  "float_decode oc src dst = float_decode_with_sentinel oc src dst SENTINEL"

definition float_decode_influxdb :: "bool \<Rightarrow> bytes \<Rightarrow> f64 list \<Rightarrow> (string, f64 list) result" where
  "float_decode_influxdb oc src dst = float_decode_with_sentinel oc src dst SENTINEL_INFLUXDB"

end
