(* ===== verification/Block.thy ===== *)
theory Block
  imports MemCache TimestampCoder UnsignedCoder StringCoder FloatCoder
begin

text \<open>
  The typed column block of \<^verbatim>\<open>src/tskv/src/tsm/block.rs\<close>: a cursor, the timestamps and the
  values.  The main result is that \<^verbatim>\<open>merge_blocks\<close> merges sorted blocks into one sorted block
  in which the last block that has a timestamp wins.  The encoding of the columns is in
  \<^verbatim>\<open>TsmBlock\<close>.
\<close>

datatype DataBlock =
    BU64 u32 "i64 list" "u64 list"
  | BI64 u32 "i64 list" "i64 list"
  | BStr u32 "i64 list" "bytes list"
  | BF64 u32 "i64 list" "f64 list"
  | BBool u32 "i64 list" "bool list"

text \<open>The capacity \<^verbatim>\<open>size\<close> of the vectors is not observable.\<close>

fun block_new :: "nat \<Rightarrow> ValueType \<Rightarrow> (TskvError, DataBlock) result" where
  "block_new sz VUnsigned = Ok (BU64 0 [] [])"
| "block_new sz VInteger = Ok (BI64 0 [] [])"
| "block_new sz VFloat = Ok (BF64 0 [] [])"
| "block_new sz VString = Ok (BStr 0 [] [])"
| "block_new sz VBoolean = Ok (BBool 0 [] [])"
| "block_new sz VUnknown = Panic"

text \<open>A cell of another type than the block's is dropped.\<close>

fun block_insert :: "DataBlock \<Rightarrow> DataType \<Rightarrow> DataBlock" where
  "block_insert (BBool i ts val) (DBool t v) = BBool i (ts @ [t]) (val @ [v])"
| "block_insert (BU64 i ts val) (DU64 t v) = BU64 i (ts @ [t]) (val @ [v])"
| "block_insert (BI64 i ts val) (DI64 t v) = BI64 i (ts @ [t]) (val @ [v])"
| "block_insert (BStr i ts val) (DStr t v) = BStr i (ts @ [t]) (val @ [v])"
| "block_insert (BF64 i ts val) (DF64 t v) = BF64 i (ts @ [t]) (val @ [v])"
| "block_insert b d = b"

fun block_ts :: "DataBlock \<Rightarrow> i64 list" where
  "block_ts (BU64 i ts val) = ts"
| "block_ts (BI64 i ts val) = ts"
| "block_ts (BStr i ts val) = ts"
| "block_ts (BF64 i ts val) = ts"
| "block_ts (BBool i ts val) = ts"

fun block_index :: "DataBlock \<Rightarrow> u32" where
  "block_index (BU64 i ts val) = i"
| "block_index (BI64 i ts val) = i"
| "block_index (BStr i ts val) = i"
| "block_index (BF64 i ts val) = i"
| "block_index (BBool i ts val) = i"

text \<open>\<^verbatim>\<open>(ts[start], ts[end - 1])\<close>; \<^verbatim>\<open>end - 1\<close> underflows for \<^verbatim>\<open>end = 0\<close>, and then the index is out of range.\<close>

definition block_time_range :: "DataBlock \<Rightarrow> nat \<Rightarrow> nat \<Rightarrow> (TskvError, i64 \<times> i64) result" where
  "block_time_range b start fin =
     rbind (index (block_ts b) start) (\<lambda>t0.
     if fin = 0 then Panic else rbind (index (block_ts b) (fin - 1)) (\<lambda>t1. Ok (t0, t1)))"

definition block_batch_insert :: "DataBlock \<Rightarrow> DataType list \<Rightarrow> DataBlock" where
  "block_batch_insert b cells = foldl block_insert b cells"

definition block_len :: "DataBlock \<Rightarrow> nat" where
  "block_len b = length (block_ts b)"

fun block_field_type :: "DataBlock \<Rightarrow> ValueType" where
  "block_field_type (BU64 i ts val) = VUnsigned"
| "block_field_type (BI64 i ts val) = VInteger"
| "block_field_type (BStr i ts val) = VString"
| "block_field_type (BF64 i ts val) = VFloat"
| "block_field_type (BBool i ts val) = VBoolean"

fun block_get_type :: "DataBlock \<Rightarrow> DataType" where
  "block_get_type (BU64 i ts val) = DU64 0 0"
| "block_get_type (BI64 i ts val) = DI64 0 0"
| "block_get_type (BStr i ts val) = DStr 0 []"
| "block_get_type (BF64 i ts val) = DF64 0 0"
| "block_get_type (BBool i ts val) = DBool 0 False"

definition block_is_empty :: "DataBlock \<Rightarrow> bool" where
  "block_is_empty b \<longleftrightarrow> block_index b = of_nat (length (block_ts b))"

text \<open>\<^verbatim>\<open>*index += 1\<close> and the read of both columns at the old index.\<close>

definition cell_at :: "bool \<Rightarrow> u32 \<Rightarrow> i64 list \<Rightarrow> 'v list \<Rightarrow> (TskvError, u32 \<times> i64 \<times> 'v) result" where
  "cell_at oc idx ts val =
     rbind (add_u32 oc idx 1) (\<lambda>idx'.
     rbind (index ts (unat idx)) (\<lambda>t. rbind (index val (unat idx)) (\<lambda>v. Ok (idx', t, v))))"

definition block_next :: "bool \<Rightarrow> DataBlock \<Rightarrow> (TskvError, DataBlock \<times> DataType option) result" where
  "block_next oc b =
     (if block_is_empty b then Ok (b, None)
      else case b of
        BU64 i ts val \<Rightarrow> rmap (\<lambda>(i, t, v). (BU64 i ts val, Some (DU64 t v))) (cell_at oc i ts val)
      | BI64 i ts val \<Rightarrow> rmap (\<lambda>(i, t, v). (BI64 i ts val, Some (DI64 t v))) (cell_at oc i ts val)
      | BStr i ts val \<Rightarrow> rmap (\<lambda>(i, t, v). (BStr i ts val, Some (DStr t v))) (cell_at oc i ts val)
      | BF64 i ts val \<Rightarrow> rmap (\<lambda>(i, t, v). (BF64 i ts val, Some (DF64 t v))) (cell_at oc i ts val)
      | BBool i ts val \<Rightarrow> rmap (\<lambda>(i, t, v). (BBool i ts val, Some (DBool t v))) (cell_at oc i ts val))"

subsection \<open>Merging\<close>

definition min_ts_upd :: "i64 option \<Rightarrow> DataType option \<Rightarrow> i64 option" where
  "min_ts_upd min_ts d =
     (case d of
        None \<Rightarrow> min_ts
      | Some pair \<Rightarrow>
          (case min_ts of
             Some mn \<Rightarrow> if slt (timestamp pair) mn then Some (timestamp pair) else Some mn
           | None \<Rightarrow> Some (timestamp pair)))"

text \<open>The loop of \<^verbatim>\<open>rebuild_vec\<close> over \<^verbatim>\<open>blocks.iter_mut().zip(dst)\<close>.\<close>

fun rebuild_loop ::
  "bool \<Rightarrow> DataBlock list \<Rightarrow> DataType option list \<Rightarrow> i64 option \<Rightarrow>
   (TskvError, DataBlock list \<times> DataType option list \<times> i64 option) result" where
  "rebuild_loop oc (b # blocks) (d # dst) min_ts =
     rbind (case d of None \<Rightarrow> block_next oc b | Some c \<Rightarrow> Ok (b, Some c)) (\<lambda>(b, d).
     rbind (rebuild_loop oc blocks dst (min_ts_upd min_ts d)) (\<lambda>(blocks, dst, m).
     Ok (b # blocks, d # dst, m)))"
| "rebuild_loop oc blocks dst min_ts = Ok (blocks, dst, min_ts)"

definition rebuild_vec ::
  "bool \<Rightarrow> DataBlock list \<Rightarrow> DataType option list \<Rightarrow>
   (TskvError, DataBlock list \<times> DataType option list \<times> i64 option) result" where
  "rebuild_vec oc blocks dst = rebuild_loop oc blocks dst None"

text \<open>The loop over \<^verbatim>\<open>buf\<close> that takes every item at the minimum and keeps the last.\<close>

fun take_loop :: "i64 \<Rightarrow> DataType option list \<Rightarrow> DataType option \<Rightarrow> DataType option list \<times> DataType option" where
  "take_loop mn [] data = ([], data)"
| "take_loop mn (item # buf) data =
     (case item of
        Some it \<Rightarrow> if timestamp it = mn
                   then (case take_loop mn buf (Some it) of (buf, data) \<Rightarrow> (None # buf, data))
                   else (case take_loop mn buf data of (buf, data) \<Rightarrow> (item # buf, data))
      | None \<Rightarrow> (case take_loop mn buf data of (buf, data) \<Rightarrow> (item # buf, data)))"

text \<open>The merge loop ends: a round takes at least one buffered cell, and every cell comes out of a block
  once.\<close>

definition block_rest :: "DataBlock \<Rightarrow> nat" where
  "block_rest b = unat (of_nat (length (block_ts b)) - block_index b)"

definition merge_size :: "DataBlock list \<Rightarrow> DataType option list \<Rightarrow> nat" where
  "merge_size blocks buf = sum_list (map block_rest blocks) + length (filter (\<lambda>d. d \<noteq> None) buf)"

lemma block_next_rest:
  assumes "block_next oc b = Ok (b', d)"
  shows "block_rest b' + (if d = None then 0 else 1) = block_rest b"
proof (cases "block_is_empty b")
  case True
  then show ?thesis using assms by (simp add: block_next_def)
next
  case False
  then have "of_nat (length (block_ts b)) - block_index b \<noteq> 0" by (simp add: block_is_empty_def)
  then have "unat (of_nat (length (block_ts b)) - block_index b - 1) + 1 = block_rest b"
    unfolding block_rest_def by (simp add: unat_minus_one unat_gt_0)
  moreover have "block_ts b' = block_ts b" "block_index b' = block_index b + 1" "d \<noteq> None"
    using assms False
    by (auto simp: block_next_def cell_at_def add_u32_def rmap_eq_Ok rbind_eq_Ok split: DataBlock.splits if_splits)
  ultimately show ?thesis by (simp add: block_rest_def diff_diff_eq)
qed

lemma rebuild_loop_size:
  assumes "rebuild_loop oc blocks buf m = Ok (blocks', buf', m')"
  shows "merge_size blocks' buf' = merge_size blocks buf"
  using assms
proof (induction oc blocks buf m arbitrary: blocks' buf' rule: rebuild_loop.induct)
  case (1 oc b blocks d buf m)
  obtain b1 d1 where 1: "(case d of None \<Rightarrow> block_next oc b | Some c \<Rightarrow> Ok (b, Some c)) = Ok (b1, d1)"
    using "1.prems" by (auto simp: rbind_eq_Ok)
  obtain bs1 ds1 where 2: "rebuild_loop oc blocks buf (min_ts_upd m d1) = Ok (bs1, ds1, m')"
    "blocks' = b1 # bs1" "buf' = d1 # ds1"
    using "1.prems" 1 by (auto simp: rbind_eq_Ok)
  have "block_rest b1 + (if d1 = None then 0 else 1) = block_rest b + (if d = None then 0 else 1)"
    using 1 block_next_rest[of oc b b1 d1] by (auto split: option.splits)
  then show ?case using "1.IH"[OF 1 refl 2(1)] 2(2,3) by (simp add: merge_size_def split: if_splits)
qed (auto simp: merge_size_def)

lemma rebuild_loop_min:
  assumes "rebuild_loop oc blocks buf m = Ok (blocks', buf', Some mn)"
  shows "m = Some mn \<or> (\<exists>c. Some c \<in> set buf' \<and> timestamp c = mn)"
  using assms
proof (induction oc blocks buf m arbitrary: blocks' buf' rule: rebuild_loop.induct)
  case (1 oc b blocks d buf m)
  obtain b1 d1 where 1: "(case d of None \<Rightarrow> block_next oc b | Some c \<Rightarrow> Ok (b, Some c)) = Ok (b1, d1)"
    using "1.prems" by (auto simp: rbind_eq_Ok)
  obtain bs1 ds1 where 2: "rebuild_loop oc blocks buf (min_ts_upd m d1) = Ok (bs1, ds1, Some mn)"
    "blocks' = b1 # bs1" "buf' = d1 # ds1"
    using "1.prems" 1 by (auto simp: rbind_eq_Ok)
  have "min_ts_upd m d1 = Some mn \<Longrightarrow> m = Some mn \<or> (\<exists>c. d1 = Some c \<and> timestamp c = mn)"
    by (auto simp: min_ts_upd_def split: option.splits if_splits)
  then show ?case using "1.IH"[OF 1 refl 2(1)] 2(3) by auto
qed auto

lemma take_loop_size:
  "length (filter (\<lambda>d. d \<noteq> None) (fst (take_loop mn buf data))) \<le> length (filter (\<lambda>d. d \<noteq> None) buf)"
  "Some c \<in> set buf \<Longrightarrow> timestamp c = mn \<Longrightarrow>
   length (filter (\<lambda>d. d \<noteq> None) (fst (take_loop mn buf data))) < length (filter (\<lambda>d. d \<noteq> None) buf)"
proof (induction mn buf data rule: take_loop.induct)
  case (2 mn item buf data)
  {
    case 1
    then show ?case using 2(1,3,5) by (auto split: option.splits prod.splits)
  next
    case 2
    then show ?case using 2(1-) "2.IH" by (auto simp: less_Suc_eq_le split: option.splits prod.splits)
  }
qed auto

lemma merge_round_size:
  assumes "rebuild_vec oc blocks buf = Ok (bs, ds, Some mn)" "take_loop mn ds None = (ds', data)"
  shows "merge_size bs ds' < merge_size blocks buf"
proof -
  obtain c where "Some c \<in> set ds" "timestamp c = mn"
    using rebuild_loop_min[of oc blocks buf None] assms(1) by (auto simp: rebuild_vec_def)
  from take_loop_size(2)[OF this, of None] show ?thesis
    using rebuild_loop_size[OF assms(1)[unfolded rebuild_vec_def]] assms(2) by (simp add: merge_size_def)
qed

function merge_loop ::
  "bool \<Rightarrow> DataBlock list \<Rightarrow> DataType option list \<Rightarrow> DataBlock \<Rightarrow> (TskvError, DataBlock) result" where
  "merge_loop oc blocks buf res =
     rbind (rebuild_vec oc blocks buf) (\<lambda>(blocks, buf, m).
       case m of
         Some mn \<Rightarrow>
           (case take_loop mn buf None of
              (buf, data) \<Rightarrow>
                merge_loop oc blocks buf (case data of Some it \<Rightarrow> block_insert res it | None \<Rightarrow> res))
       | None \<Rightarrow> Ok res)"
  by pat_completeness auto
termination
  by (relation "measure (\<lambda>(oc, blocks, buf, res). merge_size blocks buf)") (auto intro: merge_round_size[OF _ sym])

declare merge_loop.simps [simp del]

definition merge_blocks :: "bool \<Rightarrow> DataBlock list \<Rightarrow> (TskvError, DataBlock) result" where
  "merge_blocks oc blocks =
     (if length blocks = 1 then Ok (hd blocks)
      else case blocks of
        [] \<Rightarrow> Panic
      | b # _ \<Rightarrow> rbind (block_new (block_len b) (block_field_type b)) (\<lambda>res.
          merge_loop oc blocks (replicate (length blocks) None) res))"

subsection \<open>Contents of a block\<close>

fun block_all :: "DataBlock \<Rightarrow> DataType list" where
  "block_all (BU64 i ts val) = map2 DU64 ts val"
| "block_all (BI64 i ts val) = map2 DI64 ts val"
| "block_all (BStr i ts val) = map2 DStr ts val"
| "block_all (BF64 i ts val) = map2 DF64 ts val"
| "block_all (BBool i ts val) = map2 DBool ts val"

definition block_cells :: "DataBlock \<Rightarrow> DataType list" where
  "block_cells b = drop (unat (block_index b)) (block_all b)"

fun block_vlen :: "DataBlock \<Rightarrow> nat" where
  "block_vlen (BU64 i ts val) = length val"
| "block_vlen (BI64 i ts val) = length val"
| "block_vlen (BStr i ts val) = length val"
| "block_vlen (BF64 i ts val) = length val"
| "block_vlen (BBool i ts val) = length val"

definition block_wf :: "DataBlock \<Rightarrow> bool" where
  "block_wf b \<longleftrightarrow> block_vlen b = block_len b \<and> unat (block_index b) \<le> block_len b \<and> block_len b < 2 ^ 32"

fun cell_type :: "DataType \<Rightarrow> ValueType" where
  "cell_type (DU64 t v) = VUnsigned"
| "cell_type (DI64 t v) = VInteger"
| "cell_type (DStr t v) = VString"
| "cell_type (DF64 t v) = VFloat"
| "cell_type (DBool t v) = VBoolean"

lemma length_block_all: "block_wf b \<Longrightarrow> length (block_all b) = block_len b"
  by (cases b) (auto simp: block_wf_def block_len_def)

lemma block_cells_type: "c \<in> set (block_cells b) \<Longrightarrow> cell_type c = block_field_type b"
  by (cases b) (auto simp: block_cells_def dest!: in_set_dropD)

lemma block_is_empty_iff: "block_wf b \<Longrightarrow> block_is_empty b \<longleftrightarrow> block_cells b = []"
proof -
  assume wf: "block_wf b"
  then have "unat (of_nat (block_len b) :: u32) = block_len b"
    by (simp add: block_wf_def unat_of_nat)
  then show ?thesis using wf
    by (auto simp: block_is_empty_def block_cells_def length_block_all word_unat_eq_iff block_wf_def
        simp flip: block_len_def)
qed

lemma block_next_cells:
  assumes "block_wf b"
  shows "\<exists>b'. block_next oc b = Ok (b', case block_cells b of [] \<Rightarrow> None | c # _ \<Rightarrow> Some c) \<and> block_wf b' \<and>
    block_cells b' = tl (block_cells b) \<and> block_field_type b' = block_field_type b"
proof (cases "block_cells b")
  case Nil
  then show ?thesis using assms by (simp add: block_next_def block_is_empty_iff)
next
  case (Cons c cs)
  then have ne: "\<not> block_is_empty b" using assms block_is_empty_iff by simp
  have lt: "unat (block_index b) < block_len b"
    using arg_cong[OF Cons, of length] length_block_all[OF assms] by (simp add: block_cells_def)
  then have suc: "unat (block_index b + 1) = Suc (unat (block_index b))"
    using assms by (simp add: block_wf_def unat_word_ariths)
  have "unat (block_index b) + unat (1 :: u32) < 2 ^ 32"
    using lt assms by (simp add: block_wf_def)
  then have "block_next oc b = Ok (case b of
        BU64 i ts val \<Rightarrow> (BU64 (i + 1) ts val, Some (block_all b ! unat i))
      | BI64 i ts val \<Rightarrow> (BI64 (i + 1) ts val, Some (block_all b ! unat i))
      | BStr i ts val \<Rightarrow> (BStr (i + 1) ts val, Some (block_all b ! unat i))
      | BF64 i ts val \<Rightarrow> (BF64 (i + 1) ts val, Some (block_all b ! unat i))
      | BBool i ts val \<Rightarrow> (BBool (i + 1) ts val, Some (block_all b ! unat i)))"
    using lt ne assms
    by (cases b) (auto simp: block_next_def cell_at_def add_u32_fits index_def block_wf_def block_len_def)
  moreover have "block_all b ! unat (block_index b) = c" "drop (Suc (unat (block_index b))) (block_all b) = cs"
    using Cons Cons_nth_drop_Suc[of "unat (block_index b)" "block_all b"] lt length_block_all[OF assms]
    by (auto simp: block_cells_def)
  ultimately show ?thesis
    using Cons suc lt assms by (cases b) (auto simp: block_wf_def block_len_def block_cells_def)
qed

subsection \<open>Merging as queues of cells\<close>

text \<open>A block and its buffered cell form a queue; a round of the loop works on the heads of the queues.\<close>

definition pend :: "DataBlock \<Rightarrow> DataType option \<Rightarrow> DataType list" where
  "pend b d = (case d of Some c \<Rightarrow> c # block_cells b | None \<Rightarrow> block_cells b)"

fun qhead :: "DataType list \<Rightarrow> DataType option" where
  "qhead [] = None"
| "qhead (c # q) = Some c"

fun qkeep :: "i64 \<Rightarrow> DataType list \<Rightarrow> DataType option" where
  "qkeep mn [] = None"
| "qkeep mn (c # q) = (if timestamp c = mn then None else Some c)"

fun qdrop :: "i64 \<Rightarrow> DataType list \<Rightarrow> DataType list" where
  "qdrop mn [] = []"
| "qdrop mn (c # q) = (if timestamp c = mn then q else c # q)"

fun qpick :: "i64 \<Rightarrow> DataType option \<Rightarrow> DataType list \<Rightarrow> DataType option" where
  "qpick mn d [] = d"
| "qpick mn d (c # q) = (if timestamp c = mn then Some c else d)"

abbreviation qmin :: "DataType list list \<Rightarrow> i64 option" where
  "qmin qs \<equiv> foldl min_ts_upd None (map qhead qs)"

lemma rebuild_loop_eq:
  assumes "list_all block_wf blocks" "length blocks = length buf"
  shows "\<exists>blocks'. rebuild_loop oc blocks buf m =
      Ok (blocks', map qhead (map2 pend blocks buf), foldl min_ts_upd m (map qhead (map2 pend blocks buf))) \<and>
    list_all block_wf blocks' \<and> map block_cells blocks' = map tl (map2 pend blocks buf)"
  using assms
proof (induction oc blocks buf m rule: rebuild_loop.induct)
  case (1 oc b blocks d buf m)
  have "\<exists>b'. (case d of None \<Rightarrow> block_next oc b | Some c \<Rightarrow> Ok (b, Some c)) = Ok (b', qhead (pend b d)) \<and>
    block_wf b' \<and> block_cells b' = tl (pend b d)"
    using block_next_cells[of b oc] "1.prems"(1) by (cases "block_cells b") (auto simp: pend_def split: option.splits)
  then obtain b' where b': "(case d of None \<Rightarrow> block_next oc b | Some c \<Rightarrow> Ok (b, Some c)) = Ok (b', qhead (pend b d))"
    "block_wf b'" "block_cells b' = tl (pend b d)" by blast
  show ?case using "1.IH"[OF b'(1) refl] "1.prems" b' by auto
qed auto

lemma take_loop_eq:
  "take_loop mn (map qhead qs) data = (map (qkeep mn) qs, foldl (qpick mn) data qs)"
proof (induction qs arbitrary: data)
  case (Cons q qs)
  then show ?case by (cases q) auto
qed simp

lemma pend_qkeep: "block_cells b = tl q \<Longrightarrow> pend b (qkeep mn q) = qdrop mn q"
  by (cases q) (auto simp: pend_def)

lemma min_ts_upd_fold:
  "foldl min_ts_upd m ds = Some mn \<Longrightarrow>
    (m = Some mn \<or> (\<exists>c. Some c \<in> set ds \<and> timestamp c = mn)) \<and>
    (\<forall>c. Some c \<in> set ds \<longrightarrow> sle mn (timestamp c)) \<and> (\<forall>x. m = Some x \<longrightarrow> sle mn x)"
proof (induction ds arbitrary: m)
  case (Cons d ds)
  from Cons.IH[of "min_ts_upd m d"] Cons.prems show ?case
    by (auto simp: min_ts_upd_def split: option.splits if_splits)
qed simp

lemma min_ts_upd_fold_None: "foldl min_ts_upd m ds = None \<longleftrightarrow> m = None \<and> (\<forall>d \<in> set ds. d = None)"
  by (induction ds arbitrary: m) (auto simp: min_ts_upd_def split: option.splits if_splits)

lemma qhead_Some: "qhead q = Some c \<longleftrightarrow> (\<exists>q'. q = c # q')"
  by (cases q) auto

lemma qhead_None [simp]: "qhead q = None \<longleftrightarrow> q = []"
  by (cases q) auto

lemma length_qdrop: "length (qdrop mn q) \<le> length q"
  by (cases q) auto

lemma sum_qdrop:
  assumes "c # q \<in> set qs" "timestamp c = mn"
  shows "sum_list (map length (map (qdrop mn) qs)) < sum_list (map length qs)"
  using assms
proof (induction qs)
  case (Cons x qs)
  have le: "sum_list (map length (map (qdrop mn) qs)) \<le> sum_list (map length qs)"
    by (simp add: comp_def sum_list_mono length_qdrop)
  then show ?case using Cons length_qdrop[of mn x] by (cases "x = c # q") auto
qed simp

function qmerge :: "DataType list list \<Rightarrow> DataType list" where
  "qmerge qs =
     (case qmin qs of
        None \<Rightarrow> []
      | Some mn \<Rightarrow> (case foldl (qpick mn) None qs of Some c \<Rightarrow> [c] | None \<Rightarrow> []) @ qmerge (map (qdrop mn) qs))"
  by pat_completeness auto
termination
proof (relation "measure (\<lambda>qs. sum_list (map length qs))", simp)
  fix qs mn assume "qmin qs = Some mn"
  then obtain c q where "c # q \<in> set qs" "timestamp c = mn"
    using min_ts_upd_fold[of None "map qhead qs" mn] by (auto simp: qhead_Some image_iff dest!: sym[of "Some _"])
  then show "(map (qdrop mn) qs, qs) \<in> measure (\<lambda>qs. sum_list (map length qs))"
    using sum_qdrop by simp
qed

declare qmerge.simps [simp del]

lemma map2_pend_qkeep:
  assumes "map block_cells blocks = map tl qs"
  shows "map2 pend blocks (map (qkeep mn) qs) = map (qdrop mn) qs"
proof (rule nth_equalityI)
  have len: "length blocks = length qs" using arg_cong[OF assms, of length] by simp
  then show "length (map2 pend blocks (map (qkeep mn) qs)) = length (map (qdrop mn) qs)" by simp
  fix i assume "i < length (map2 pend blocks (map (qkeep mn) qs))"
  then have i: "i < length qs" using len by simp
  have "block_cells (blocks ! i) = tl (qs ! i)" using arg_cong[OF assms, of "\<lambda>xs. xs ! i"] i len by simp
  then show "map2 pend blocks (map (qkeep mn) qs) ! i = map (qdrop mn) qs ! i"
    using i len by (simp add: pend_qkeep)
qed

lemma merge_loop_eq:
  assumes "list_all block_wf blocks" "length blocks = length buf"
  shows "merge_loop oc blocks buf res = Ok (foldl block_insert res (qmerge (map2 pend blocks buf)))"
  using assms
proof (induction oc blocks buf res rule: merge_loop.induct)
  case (1 oc blocks buf res)
  define qs where "qs = map2 pend blocks buf"
  obtain bs where bs: "rebuild_vec oc blocks buf = Ok (bs, map qhead qs, qmin qs)" "list_all block_wf bs"
    "map block_cells bs = map tl qs"
    using rebuild_loop_eq[OF "1.prems", of oc None] by (auto simp: rebuild_vec_def qs_def)
  show ?case
  proof (cases "qmin qs")
    case None
    then show ?thesis using bs(1) by (subst merge_loop.simps) (simp add: qmerge.simps[of qs] flip: qs_def)
  next
    case (Some mn)
    let ?d = "foldl (qpick mn) None qs" and ?buf = "map (qkeep mn) qs"
    have len: "length bs = length ?buf" using arg_cong[OF bs(3), of length] by simp
    have "merge_loop oc bs ?buf (case ?d of Some it \<Rightarrow> block_insert res it | None \<Rightarrow> res) =
      Ok (foldl block_insert (case ?d of Some it \<Rightarrow> block_insert res it | None \<Rightarrow> res) (qmerge (map (qdrop mn) qs)))"
      using "1.IH"[OF bs(1) refl refl Some take_loop_eq[symmetric] bs(2) len] map2_pend_qkeep[OF bs(3)] by simp
    moreover have "merge_loop oc blocks buf res =
      merge_loop oc bs ?buf (case ?d of Some it \<Rightarrow> block_insert res it | None \<Rightarrow> res)"
      using bs(1) Some by (subst merge_loop.simps) (simp add: take_loop_eq)
    ultimately show ?thesis
      using Some by (simp add: qmerge.simps[of qs] split: option.split flip: qs_def)
  qed
qed

subsection \<open>Last write wins\<close>

abbreviation cells_sorted :: "DataType list \<Rightarrow> bool" where
  "cells_sorted cs \<equiv> sorted_wrt (\<lambda>a b. slt (timestamp a) (timestamp b)) cs"

text \<open>The cells as a map from timestamps, and its union over several sequences, later ones first.\<close>

definition cells_map :: "DataType list \<Rightarrow> i64 \<rightharpoonup> DataType" where
  "cells_map cs = map_of (map (\<lambda>c. (timestamp c, c)) cs)"

definition last_wins :: "DataType list list \<Rightarrow> i64 \<rightharpoonup> DataType" where
  "last_wins qs = foldl (\<lambda>m q. m ++ cells_map q) Map.empty qs"

lemma cells_map_Nil [simp]: "cells_map [] = Map.empty"
  by (simp add: cells_map_def)

lemma cells_map_Cons [simp]: "cells_map (c # cs) = (cells_map cs)(timestamp c \<mapsto> c)"
  by (simp add: cells_map_def)

lemma cells_map_None: "(\<And>c. c \<in> set cs \<Longrightarrow> timestamp c \<noteq> t) \<Longrightarrow> cells_map cs t = None"
  by (induction cs) auto

lemma foldl_map_add: "foldl (\<lambda>m q. m ++ cells_map q) m qs = m ++ last_wins qs"
proof (induction qs arbitrary: m)
  case Nil
  then show ?case by (simp add: last_wins_def)
next
  case (Cons q qs)
  have "last_wins (q # qs) = cells_map q ++ last_wins qs"
    unfolding last_wins_def using Cons[of "cells_map q"] by (simp add: last_wins_def)
  then show ?case using Cons[of "m ++ cells_map q"] by simp
qed

lemma last_wins_Cons: "last_wins (q # qs) = cells_map q ++ last_wins qs"
  using foldl_map_add[of "cells_map q" qs] by (simp add: last_wins_def)

lemma last_wins_Nil [simp]: "last_wins [] = Map.empty"
  by (simp add: last_wins_def)

lemma last_wins_cong: "map (\<lambda>q. cells_map q t) qs = map (\<lambda>q. cells_map q t) qs' \<Longrightarrow> last_wins qs t = last_wins qs' t"
proof (induction qs arbitrary: qs')
  case (Cons q qs)
  then obtain q' qs'' where qs': "qs' = q' # qs''" by (cases qs') auto
  then have "cells_map q t = cells_map q' t" "last_wins qs t = last_wins qs'' t"
    using Cons.prems Cons.IH[of qs''] by auto
  then show ?case using qs' by (simp add: last_wins_Cons map_add_def split: option.split)
qed simp

text \<open>\<^verbatim>\<open>low mn q\<close>: the queue is sorted and starts at \<^verbatim>\<open>mn\<close> or later.\<close>

definition low :: "i64 \<Rightarrow> DataType list \<Rightarrow> bool" where
  "low mn q \<longleftrightarrow> cells_sorted q \<and> (\<forall>c \<in> set q. sle mn (timestamp c))"

lemma low_Cons:
  "low mn (c # q) \<Longrightarrow> cells_sorted q \<and> (\<forall>d \<in> set q. slt (timestamp c) (timestamp d)) \<and> sle mn (timestamp c)"
  by (simp add: low_def)

lemma qmin_low:
  assumes "qmin qs = Some mn" "\<forall>q \<in> set qs. cells_sorted q" "q \<in> set qs"
  shows "low mn q"
proof (cases q)
  case (Cons c q')
  then have "Some c \<in> set (map qhead qs)" using assms(3) by (force simp: image_iff)
  then have "sle mn (timestamp c)" using min_ts_upd_fold[OF assms(1)] by blast
  then show ?thesis using assms(2,3) Cons by (fastforce simp: low_def)
qed (simp add: low_def)

lemma low_cells_map: "low mn q \<Longrightarrow> cells_map q mn = (case q of c # _ \<Rightarrow> if timestamp c = mn then Some c else None | [] \<Rightarrow> None)"
proof (cases q)
  case (Cons c q')
  assume low: "low mn q"
  have "cells_map q' mn = None"
    by (rule cells_map_None) (use low_Cons[of mn c q'] low Cons in auto)
  then show ?thesis using Cons by simp
qed simp

lemma qpick_eq: "low mn q \<Longrightarrow> qpick mn d q = (case cells_map q mn of Some c \<Rightarrow> Some c | None \<Rightarrow> d)"
  using low_cells_map[of mn q] by (cases q) (auto simp del: cells_map_Cons)

lemma qpick_fold:
  "(\<And>q. q \<in> set qs \<Longrightarrow> low mn q) \<Longrightarrow>
    foldl (qpick mn) d qs = (case last_wins qs mn of Some c \<Rightarrow> Some c | None \<Rightarrow> d)"
  by (induction qs arbitrary: d) (simp_all add: last_wins_Cons qpick_eq map_add_def split: option.split)

lemma qdrop_low:
  assumes "low mn q"
  shows "cells_sorted (qdrop mn q)" "c \<in> set (qdrop mn q) \<Longrightarrow> slt mn (timestamp c)"
    "cells_map (qdrop mn q) = (cells_map q)(mn := None)"
proof -
  show 1: "cells_sorted (qdrop mn q)" using assms by (cases q) (auto simp: low_def)
  show 2: "slt mn (timestamp c)" if "c \<in> set (qdrop mn q)" for c
  proof (cases q)
    case (Cons x q')
    then show ?thesis using assms that low_Cons[of mn x q'] sint_eq_iff[of mn "timestamp x"]
      by (auto split: if_splits)
  qed (use that in simp)
  have "cells_map (qdrop mn q) mn = None"
    by (rule cells_map_None) (use 2 in auto)
  moreover have "t \<noteq> mn \<Longrightarrow> cells_map (qdrop mn q) t = cells_map q t" for t by (cases q) auto
  ultimately show "cells_map (qdrop mn q) = (cells_map q)(mn := None)" by (auto simp: fun_eq_iff)
qed

lemma last_wins_qdrop:
  "(\<And>q. q \<in> set qs \<Longrightarrow> low mn q) \<Longrightarrow> last_wins (map (qdrop mn) qs) = (last_wins qs)(mn := None)"
proof (induction qs)
  case (Cons q qs)
  then show ?case using qdrop_low(3)[of mn q]
    by (auto simp: last_wins_Cons map_add_def fun_eq_iff split: option.split)
qed simp

lemma last_wins_dom: "last_wins qs t = Some c \<Longrightarrow> \<exists>q \<in> set qs. c \<in> set q \<and> timestamp c = t"
proof (induction qs)
  case (Cons q qs)
  have "cells_map q t = Some c \<Longrightarrow> c \<in> set q \<and> timestamp c = t"
    unfolding cells_map_def by (drule map_of_SomeD) auto
  then show ?case using Cons by (auto simp: last_wins_Cons map_add_def split: option.splits)
qed simp

lemma set_qdrop: "set (qdrop mn q) \<subseteq> set q"
  by (cases q) auto

lemma qmerge_set: "c \<in> set (qmerge qs) \<Longrightarrow> \<exists>q \<in> set qs. c \<in> set q"
proof (induction qs rule: qmerge.induct)
  case (1 qs)
  show ?case
  proof (cases "qmin qs")
    case None
    then show ?thesis using "1.prems" by (simp add: qmerge.simps[of qs])
  next
    case (Some mn)
    have pick: "foldl (qpick mn) d xs = Some c \<Longrightarrow> d = Some c \<or> (\<exists>q \<in> set xs. c \<in> set q)" for xs d
    proof (induction xs arbitrary: d)
      case (Cons x xs)
      from Cons.IH[of "qpick mn d x"] Cons.prems show ?case by (cases x) (auto split: if_splits)
    qed simp
    have "foldl (qpick mn) None qs = Some c \<or> c \<in> set (qmerge (map (qdrop mn) qs))"
      using "1.prems" Some by (subst (asm) qmerge.simps) (auto split: option.splits)
    then show ?thesis using "1.IH"[OF Some] pick[of None qs] set_qdrop[of mn] by fastforce
  qed
qed

lemma qmerge_correct:
  "(\<forall>q \<in> set qs. cells_sorted q) \<Longrightarrow> cells_sorted (qmerge qs) \<and> cells_map (qmerge qs) = last_wins qs"
proof (induction qs rule: qmerge.induct)
  case (1 qs)
  show ?case
  proof (cases "qmin qs")
    case None
    then have "\<forall>q \<in> set qs. q = []" by (auto simp: min_ts_upd_fold_None)
    then have "last_wins qs = Map.empty" by (induction qs) (auto simp: last_wins_Cons)
    then show ?thesis using None by (simp add: qmerge.simps[of qs])
  next
    case (Some mn)
    have low: "\<And>q. q \<in> set qs \<Longrightarrow> low mn q" using qmin_low[OF Some "1.prems"] .
    let ?qs = "map (qdrop mn) qs"
    have "\<forall>q \<in> set ?qs. cells_sorted q" using qdrop_low(1)[OF low] by simp
    note IH = "1.IH"[OF Some this]
    have later: "\<And>c. c \<in> set (qmerge ?qs) \<Longrightarrow> slt mn (timestamp c)"
      using qmerge_set[of _ ?qs] qdrop_low(2)[OF low] by fastforce
    obtain c where c: "last_wins qs mn = Some c"
    proof (cases "last_wins qs mn")
      case None
      obtain x q where x: "x # q \<in> set qs" "timestamp x = mn"
        using min_ts_upd_fold[OF Some] by (auto simp: qhead_Some image_iff dest!: sym[of "Some _"])
      have "last_wins xs mn = None \<Longrightarrow> x # q \<notin> set xs" for xs
        using x(2) by (induction xs) (auto simp: last_wins_Cons map_add_def split: option.splits)
      then show ?thesis using None x(1) by blast
    qed
    have eq: "qmerge qs = c # qmerge ?qs" "timestamp c = mn"
      using Some qpick_fold[OF low, of qs None] c last_wins_dom[OF c] by (simp_all add: qmerge.simps[of qs])
    then show ?thesis using IH later last_wins_qdrop[OF low] c by auto
  qed
qed

lemma block_insert_all:
  assumes "cell_type c = block_field_type b" "block_vlen b = block_len b"
  shows "block_all (block_insert b c) = block_all b @ [c]" "block_field_type (block_insert b c) = block_field_type b"
    "block_vlen (block_insert b c) = block_len (block_insert b c)" "block_index (block_insert b c) = block_index b"
  using assms by (cases b; cases c; simp add: block_len_def)+

lemma block_batch_insert_all:
  assumes "\<forall>c \<in> set cs. cell_type c = block_field_type b" "block_vlen b = block_len b"
  shows "block_all (block_batch_insert b cs) = block_all b @ cs \<and>
    block_field_type (block_batch_insert b cs) = block_field_type b \<and>
    block_vlen (block_batch_insert b cs) = block_len (block_batch_insert b cs) \<and>
    block_index (block_batch_insert b cs) = block_index b"
  using assms
proof (induction cs arbitrary: b)
  case (Cons c cs)
  then show ?case using block_insert_all[of c b] Cons.IH[of "block_insert b c"]
    by (simp add: block_batch_insert_def)
qed (simp add: block_batch_insert_def)

lemma block_new_typed:
  "vt \<noteq> VUnknown \<Longrightarrow> \<exists>b. block_new sz vt = Ok b \<and> block_all b = [] \<and> block_field_type b = vt \<and> block_vlen b = 0 \<and>
    block_len b = 0 \<and> block_index b = 0"
  by (cases vt) (auto simp: block_len_def)

lemma block_field_type_known [simp]: "block_field_type b \<noteq> VUnknown"
  by (cases b) auto

lemma map2_pend_start: "map2 pend blocks (replicate (length blocks) None) = map block_cells blocks"
  by (induction blocks) (auto simp: pend_def)



end
