(* ===== verification/DirectFile.thy ===== *)
theory DirectFile
  imports Prelude
begin

text \<open>
  Files and cursors of \<^verbatim>\<open>src/tskv/src/direct_io/file.rs\<close>, \<^verbatim>\<open>file/scope.rs\<close> and
  \<^verbatim>\<open>file/cursor.rs\<close>.  A file is a length and, for every page number, the page image the page
  cache delivers; \<^verbatim>\<open>f_fault\<close> says for which pages the operating system fails to deliver one.
  Positions are natural numbers with the checked 64-bit operations of the code written out.
  The results give what a read returns and what a write leaves behind, as a flat sequence of
  bytes; among them that a write before the end of a file cuts the file off after it.
\<close>

subsection \<open>Pages\<close>

type_synonym PageId = u32

record File =
  f_page_len :: nat
  f_len :: nat
  f_page :: "PageId \<Rightarrow> bytes"
  f_fault :: "PageId \<Rightarrow> bool"

definition page_pos :: "PageId \<Rightarrow> nat \<Rightarrow> (string, nat) result" where
  "page_pos pid page_len = (if unat pid * page_len < 2 ^ 64 then Ok (unat pid * page_len) else Panic)"

definition page_span :: "File \<Rightarrow> PageId \<Rightarrow> (string, nat \<times> nat) result" where
  "page_span f pid =
     rbind (page_pos pid (f_page_len f)) (\<lambda>pos.
     Ok (pos, if pos < f_len f then min (f_len f - pos) (f_page_len f) else 0))"

definition page_id_at :: "File \<Rightarrow> nat \<Rightarrow> (string, PageId \<times> nat) result" where
  "page_id_at f pos =
     (if f_page_len f = 0 then Panic
      else if pos div f_page_len f < 2 ^ 32 then Ok (of_nat (pos div f_page_len f), pos mod f_page_len f)
      else Panic)"

definition file_page :: "File \<Rightarrow> PageId \<Rightarrow> (string, bytes) result" where
  "file_page f pid = (if f_fault f pid then Err ''error reading page'' else Ok (f_page f pid))"

text \<open>The bytes a read guard dereferences to.\<close>

definition page_read :: "File \<Rightarrow> PageId \<Rightarrow> (string, bytes) result" where
  "page_read f pid =
     rbind (file_page f pid) (\<lambda>data. rbind (page_span f pid) (\<lambda>(_, len). slice_range data 0 len))"

text \<open>Dropping a write guard whose length was set from \<^verbatim>\<open>old_len\<close> to \<^verbatim>\<open>len\<close>.\<close>

definition page_write_drop :: "File \<Rightarrow> PageId \<Rightarrow> nat \<Rightarrow> nat \<Rightarrow> (string, File) result" where
  "page_write_drop f pid old_len len =
     (if len = old_len then Ok f
      else rbind (page_pos pid (f_page_len f)) (\<lambda>pos.
        let new_file_len = pos + len;
            update = (if len > old_len then f_len f < new_file_len else f_len f > new_file_len) in
        Ok (if update then f\<lparr>f_len := new_file_len\<rparr> else f)))"

text \<open>A write guard whose length is set to \<^verbatim>\<open>off + length part\<close> and whose bytes from
  \<^verbatim>\<open>off\<close> on are overwritten with \<^verbatim>\<open>part\<close>, up to its drop.\<close>

definition page_write :: "File \<Rightarrow> PageId \<Rightarrow> nat \<Rightarrow> bytes \<Rightarrow> (string, File) result" where
  "page_write f pid off part =
     rbind (file_page f pid) (\<lambda>data. rbind (page_span f pid) (\<lambda>(_, old_len).
       let len = off + length part in
       if f_page_len f < len \<or> length data < len then Panic
       else page_write_drop
              (f\<lparr>f_page := (f_page f)(pid := take off data @ part @ drop len data)\<rparr>) pid old_len len))"

subsection \<open>Reading and writing\<close>

definition checked_add :: "nat \<Rightarrow> nat \<Rightarrow> (string, nat) result" where
  "checked_add a b = (if a + b < 2 ^ 64 then Ok (a + b) else Panic)"

text \<open>\<^verbatim>\<open>n\<close> is the length of the rest of the buffer, \<^verbatim>\<open>acc\<close> the bytes read so far.\<close>

function file_read_loop :: "File \<Rightarrow> nat \<Rightarrow> nat \<Rightarrow> bytes \<Rightarrow> (string, bytes) result" where
  "file_read_loop f pos n acc =
     (if n = 0 then Ok acc
      else
        rbind (page_id_at f pos) (\<lambda>(pid, off).
        rbind (page_read f pid) (\<lambda>page.
        rbind (slice_from page off) (\<lambda>page.
          if page = [] then Ok acc
          else
            let len = min (length page) n in
            rbind (checked_add pos len) (\<lambda>pos. file_read_loop f pos (n - len) (acc @ take len page))))))"
  by pat_completeness auto
termination
  by (relation "measure (\<lambda>(f, pos, n, acc). n)") auto

declare file_read_loop.simps [simp del]

definition file_read_at :: "File \<Rightarrow> nat \<Rightarrow> nat \<Rightarrow> (string, bytes) result" where
  "file_read_at f pos n = file_read_loop f pos n []"

lemma page_id_at_off: "page_id_at f pos = Ok (pid, off) \<Longrightarrow> off < f_page_len f"
  by (auto simp: page_id_at_def split: if_splits)

function file_write_loop :: "File \<Rightarrow> nat \<Rightarrow> bytes \<Rightarrow> (string, File) result" where
  "file_write_loop f pos buf =
     (if buf = [] then Ok f
      else
        rbind (page_id_at f pos) (\<lambda>(pid, off).
          let len = min (length buf) (f_page_len f - off) in
          rbind (page_write f pid off (take len buf)) (\<lambda>f.
          rbind (checked_add pos len) (\<lambda>pos. file_write_loop f pos (drop len buf)))))"
  by pat_completeness auto
termination
  by (relation "measure (\<lambda>(f, pos, buf). length buf)") (auto dest!: page_id_at_off)

declare file_write_loop.simps [simp del]

definition file_write_at :: "File \<Rightarrow> nat \<Rightarrow> bytes \<Rightarrow> (string, File \<times> nat) result" where
  "file_write_at f pos buf = rbind (file_write_loop f pos buf) (\<lambda>f. Ok (f, length buf))"

definition file_set_len :: "File \<Rightarrow> nat \<Rightarrow> File" where
  "file_set_len f len = f\<lparr>f_len := len\<rparr>"

subsection \<open>Cursors\<close>

record FileCursor =
  fc_file :: File
  fc_pos :: nat

datatype SeekFrom = SeekStart nat | SeekEnd int | SeekCurrent int

definition file_into_cursor :: "File \<Rightarrow> FileCursor" where
  "file_into_cursor f = \<lparr>fc_file = f, fc_pos = 0\<rparr>"

definition cursor_set_pos :: "FileCursor \<Rightarrow> nat \<Rightarrow> FileCursor" where
  "cursor_set_pos c pos = c\<lparr>fc_pos := pos\<rparr>"

text \<open>\<^verbatim>\<open>-delta\<close> overflows for the least 64-bit integer; unchecked it wraps to itself, and the cast makes it
  its absolute value.\<close>

definition seek_by :: "bool \<Rightarrow> nat \<Rightarrow> int \<Rightarrow> (string, nat) result" where
  "seek_by oc base delta =
     (if delta \<ge> 0 then
        if base + nat delta < 2 ^ 64 then Ok (base + nat delta) else Err ''underflow or overflow during seek''
      else if oc \<and> delta = - (2 ^ 63) then Panic
      else if nat (- delta) \<le> base then Ok (base - nat (- delta)) else Err ''underflow or overflow during seek'')"

definition cursor_seek :: "bool \<Rightarrow> FileCursor \<Rightarrow> SeekFrom \<Rightarrow> (string, FileCursor \<times> nat) result" where
  "cursor_seek oc c where_to =
     rbind (case where_to of
              SeekStart pos \<Rightarrow> Ok pos
            | SeekEnd delta \<Rightarrow> seek_by oc (f_len (fc_file c)) delta
            | SeekCurrent delta \<Rightarrow> seek_by oc (fc_pos c) delta) (\<lambda>pos.
     Ok (c\<lparr>fc_pos := pos\<rparr>, pos))"

text \<open>The move after a transfer: the conversion of the count to \<^verbatim>\<open>i64\<close> and the seek are unwrapped.\<close>

definition cursor_advance :: "bool \<Rightarrow> FileCursor \<Rightarrow> nat \<Rightarrow> (string, FileCursor) result" where
  "cursor_advance oc c n =
     (if n < 2 ^ 63 then rmap fst (unwrap (cursor_seek oc c (SeekCurrent (int n)))) else Panic)"

text \<open>\<^verbatim>\<open>read\<close> returns the bytes it puts at the front of the caller's buffer.\<close>

definition cursor_read :: "bool \<Rightarrow> FileCursor \<Rightarrow> nat \<Rightarrow> (string, FileCursor \<times> bytes) result" where
  "cursor_read oc c n =
     rbind (file_read_at (fc_file c) (fc_pos c) n) (\<lambda>data.
     rbind (cursor_advance oc c (length data)) (\<lambda>c. Ok (c, data)))"

definition cursor_write :: "bool \<Rightarrow> FileCursor \<Rightarrow> bytes \<Rightarrow> (string, FileCursor) result" where
  "cursor_write oc c buf =
     rbind (file_write_at (fc_file c) (fc_pos c) buf) (\<lambda>(f, _). cursor_advance oc (c\<lparr>fc_file := f\<rparr>) (length buf))"

subsection \<open>A file as a sequence of bytes\<close>

abbreviation f_cap :: "File \<Rightarrow> nat" where
  "f_cap f \<equiv> f_page_len f * 2 ^ 32"

definition file_wf :: "File \<Rightarrow> bool" where
  "file_wf f \<longleftrightarrow> 0 < f_page_len f \<and> f_page_len f \<le> 2 ^ 30 \<and> f_len f < f_cap f \<and>
     (\<forall>pid. length (f_page f pid) = f_page_len f \<and> \<not> f_fault f pid)"

definition byte_at :: "File \<Rightarrow> nat \<Rightarrow> u8" where
  "byte_at f i = f_page f (of_nat (i div f_page_len f)) ! (i mod f_page_len f)"

definition file_bytes :: "File \<Rightarrow> bytes" where
  "file_bytes f = map (byte_at f) [0..<f_len f]"

lemma length_file_bytes [simp]: "length (file_bytes f) = f_len f"
  by (simp add: file_bytes_def)

lemma file_bytes_range: "map (byte_at f) [a..<min (a + n) (f_len f)] = take n (drop a (file_bytes f))"
  by (simp add: file_bytes_def take_map drop_map min_def)

lemma file_wfD:
  assumes "file_wf f"
  shows "0 < f_page_len f" "f_page_len f \<le> 2 ^ 30" "f_len f < f_cap f" "length (f_page f pid) = f_page_len f"
    "\<not> f_fault f pid" "f_cap f < 2 ^ 64" "f_cap f < 2 ^ 63"
  using assms by (simp_all add: file_wf_def)

lemma div_lt_cap: "pos < f_cap f \<Longrightarrow> pos div f_page_len f < 2 ^ 32"
  by (simp add: less_mult_imp_div_less mult.commute)

lemma unat_page: "pos < f_cap f \<Longrightarrow> unat (of_nat (pos div f_page_len f) :: PageId) = pos div f_page_len f"
  using div_lt_cap[of pos f] by (simp add: unat_of_nat)

lemma page_pos_Ok:
  assumes "file_wf f" "pos < f_cap f"
  shows "page_pos (of_nat (pos div f_page_len f)) (f_page_len f) = Ok (pos div f_page_len f * f_page_len f)"
proof -
  have "pos div f_page_len f * f_page_len f \<le> pos" by simp
  then have "pos div f_page_len f * f_page_len f < 2 ^ 64"
    using assms(2) file_wfD(6)[OF assms(1)] by linarith
  then show ?thesis using assms(2) by (simp add: page_pos_def unat_page)
qed

lemma page_id_at_Ok:
  "file_wf f \<Longrightarrow> pos < f_cap f \<Longrightarrow> page_id_at f pos = Ok (of_nat (pos div f_page_len f), pos mod f_page_len f)"
  using div_lt_cap[of pos f] file_wfD(1)[of f] by (simp add: page_id_at_def)

lemma page_span_Ok:
  assumes "file_wf f" "pos < f_cap f"
  shows "page_span f (of_nat (pos div f_page_len f)) =
    Ok (pos div f_page_len f * f_page_len f, min (f_len f - pos div f_page_len f * f_page_len f) (f_page_len f))"
  using page_pos_Ok[OF assms] by (auto simp: page_span_def)

lemma div_mod_add:
  assumes "pos mod pl + i < (pl :: nat)"
  shows "(pos + i) div pl = pos div pl" "(pos + i) mod pl = pos mod pl + i"
proof -
  have "pos + i = pos div pl * pl + (pos mod pl + i)" by simp
  then show "(pos + i) div pl = pos div pl" "(pos + i) mod pl = pos mod pl + i"
    using assms by (metis div_mult_self3 div_less add.right_neutral less_nat_zero_code, metis mod_mult_self3 mod_less)
qed

lemma byte_at_page:
  "pos mod f_page_len f + i < f_page_len f \<Longrightarrow>
    byte_at f (pos + i) = f_page f (of_nat (pos div f_page_len f)) ! (pos mod f_page_len f + i)"
  by (simp add: byte_at_def div_mod_add)

text \<open>The part of a page from a position on, up to the end of the file.\<close>

lemma page_read_from:
  assumes "file_wf f" "pos \<le> f_len f"
  defines "pe \<equiv> pos div f_page_len f * f_page_len f + f_page_len f"
  shows "rbind (page_read f (of_nat (pos div f_page_len f))) (\<lambda>page. slice_from page (pos mod f_page_len f)) =
    Ok (map (byte_at f) [pos..<min pe (f_len f)])"
proof -
  let ?pl = "f_page_len f" and ?r = "pos mod f_page_len f" and ?pg = "f_page f (of_nat (pos div f_page_len f))"
  define s where "s = pos div ?pl * ?pl"
  have s: "pos = s + ?r" "pe = s + ?pl" by (simp_all add: s_def pe_def)
  have r: "?r < ?pl" using file_wfD(1)[OF assms(1)] by simp
  let ?L = "min (f_len f - s) ?pl"
  have pos: "pos < f_cap f" using assms(2) file_wfD(3)[OF assms(1)] by linarith
  have len: "length ?pg = ?pl" using file_wfD(4)[OF assms(1)] .
  have off: "?r \<le> ?L" using assms(2) r s(1) by linarith
  have "drop ?r (take ?L ?pg) = map (byte_at f) [pos..<min pe (f_len f)]"
  proof (rule nth_equalityI)
    show "length (drop ?r (take ?L ?pg)) = length (map (byte_at f) [pos..<min pe (f_len f)])"
      using off s len by simp
    fix i assume "i < length (drop ?r (take ?L ?pg))"
    then have i: "?r + i < ?L" "?r + i < ?pl" using len by auto
    then have "[pos..<min pe (f_len f)] ! i = pos + i" "i < min pe (f_len f) - pos" using s by (auto intro!: nth_upt)
    then show "drop ?r (take ?L ?pg) ! i = map (byte_at f) [pos..<min pe (f_len f)] ! i"
      using i len off byte_at_page[OF i(2)] by simp
  qed
  then show ?thesis
    using off page_span_Ok[OF assms(1) pos] len file_wfD(5)[OF assms(1)]
    by (simp add: page_read_def file_page_def slice_range_def slice_from_def flip: s_def)
qed

lemma file_read_loop_Ok:
  assumes "file_wf f"
  shows "pos \<le> f_len f \<Longrightarrow>
    file_read_loop f pos n acc = Ok (acc @ map (byte_at f) [pos..<min (pos + n) (f_len f)])"
proof (induction n arbitrary: pos acc rule: less_induct)
  case (less n)
  show ?case
  proof (cases "n = 0")
    case True
    then show ?thesis using less.prems by (simp add: file_read_loop.simps)
  next
    case n: False
    let ?pl = "f_page_len f"
    define pe where "pe = pos div ?pl * ?pl + ?pl"
    let ?page = "map (byte_at f) [pos..<min pe (f_len f)]"
    have pos: "pos < f_cap f" using less.prems file_wfD(3)[OF assms] by linarith
    have pe: "pos < pe" using mod_less_divisor[of ?pl pos] file_wfD(1)[OF assms] div_mult_mod_eq[of pos ?pl]
      unfolding pe_def by linarith
    have step: "file_read_loop f pos n acc =
      (if ?page = [] then Ok acc
       else rbind (checked_add pos (min (length ?page) n)) (\<lambda>pos.
         file_read_loop f pos (n - min (length ?page) n) (acc @ take (min (length ?page) n) ?page)))"
      using page_read_from[OF assms less.prems] n pe
      by (subst file_read_loop.simps) (simp add: page_id_at_Ok[OF assms pos] Let_def rbind_assoc[symmetric] flip: pe_def)
    show ?thesis
    proof (cases "?page = []")
      case True
      then have "pos = f_len f" using pe less.prems by (auto simp: min_def split: if_splits)
      then show ?thesis using step True by simp
    next
      case False
      let ?len = "min (min pe (f_len f) - pos) n"
      have len: "0 < ?len" "pos + ?len \<le> f_len f" "?len \<le> n" using False n by auto
      then have "pos + ?len < 2 ^ 64" using file_wfD(3,6)[OF assms] by linarith
      moreover have "take ?len [pos..<min pe (f_len f)] = [pos..<pos + ?len]"
        using False by (intro take_upt) auto
      ultimately have "file_read_loop f pos n acc =
        file_read_loop f (pos + ?len) (n - ?len) (acc @ map (byte_at f) [pos..<pos + ?len])"
        using step False by (simp add: checked_add_def take_map)
      also have "\<dots> = Ok ((acc @ map (byte_at f) [pos..<pos + ?len]) @
          map (byte_at f) [pos + ?len..<min (pos + ?len + (n - ?len)) (f_len f)])"
        using less.IH[of "n - ?len" "pos + ?len"] len by auto
      also have "[pos..<pos + ?len] @ [pos + ?len..<min (pos + ?len + (n - ?len)) (f_len f)] =
          [pos..<min (pos + n) (f_len f)]"
        using len upt_add_eq_append[of pos "pos + ?len" "min (pos + n) (f_len f) - (pos + ?len)"] by simp
      then have "(acc @ map (byte_at f) [pos..<pos + ?len]) @
          map (byte_at f) [pos + ?len..<min (pos + ?len + (n - ?len)) (f_len f)] =
          acc @ map (byte_at f) [pos..<min (pos + n) (f_len f)]"
        by (simp flip: map_append)
      finally show ?thesis .
    qed
  qed
qed

lemma file_read_at_Ok:
  "file_wf f \<Longrightarrow> pos \<le> f_len f \<Longrightarrow> file_read_at f pos n = Ok (take n (drop pos (file_bytes f)))"
  by (simp add: file_read_at_def file_read_loop_Ok file_bytes_range)

text \<open>What a write of \<^verbatim>\<open>n\<close> bytes at \<^verbatim>\<open>pos\<close> makes of the length.\<close>

definition len_after :: "File \<Rightarrow> nat \<Rightarrow> nat \<Rightarrow> nat" where
  "len_after f pos n =
     (if n = 0 then f_len f
      else if f_page_len f dvd pos + n then max (f_len f) (pos + n) else pos + n)"

text \<open>\<^verbatim>\<open>f'\<close> is \<^verbatim>\<open>f\<close> with \<^verbatim>\<open>buf\<close> written at \<^verbatim>\<open>pos\<close>.\<close>

definition written :: "File \<Rightarrow> nat \<Rightarrow> bytes \<Rightarrow> File \<Rightarrow> bool" where
  "written f pos buf f' \<longleftrightarrow> file_wf f' \<and> f_page_len f' = f_page_len f \<and> f_len f' = len_after f pos (length buf) \<and>
     (\<forall>i < f_cap f. byte_at f' i = (if pos \<le> i \<and> i < pos + length buf then buf ! (i - pos) else byte_at f i))"

lemma page_write_drop_len:
  assumes "page_pos pid (f_page_len g) = Ok s" "l \<le> f_page_len g" "0 < l"
  shows "page_write_drop g pid (min (f_len g - s) (f_page_len g)) l =
    Ok (g\<lparr>f_len := if l = f_page_len g then max (f_len g) (s + l) else s + l\<rparr>)"
proof (cases "l = min (f_len g - s) (f_page_len g)")
  case True
  then have "(if l = f_page_len g then max (f_len g) (s + l) else s + l) = f_len g" using assms(3) by auto
  then show ?thesis using True by (simp add: page_write_drop_def)
next
  case False
  then have "f_len g < s + l \<longleftrightarrow> min (f_len g - s) (f_page_len g) < l" "l = f_page_len g \<Longrightarrow> f_len g < s + l"
    using assms(2,3) by auto
  then show ?thesis using False assms(1) by (auto simp: page_write_drop_def Let_def)
qed

lemma page_write_len:
  assumes "file_wf f" "pos < f_cap f" "part \<noteq> []" "pos mod f_page_len f + length part \<le> f_page_len f"
  shows "page_write f (of_nat (pos div f_page_len f)) (pos mod f_page_len f) part =
    Ok (f\<lparr>f_page := (f_page f)(of_nat (pos div f_page_len f) :=
            take (pos mod f_page_len f) (f_page f (of_nat (pos div f_page_len f))) @ part @
            drop (pos mod f_page_len f + length part) (f_page f (of_nat (pos div f_page_len f)))),
          f_len := len_after f pos (length part)\<rparr>)"
proof -
  let ?pl = "f_page_len f" and ?r = "pos mod f_page_len f" and ?pid = "of_nat (pos div f_page_len f) :: PageId"
  define s where "s = pos div ?pl * ?pl"
  have s: "s + ?r = pos" by (simp add: s_def)
  let ?f = "f\<lparr>f_page := (f_page f)(?pid := take ?r (f_page f ?pid) @ part @ drop (?r + length part) (f_page f ?pid))\<rparr>"
  have pp: "page_pos ?pid (f_page_len ?f) = Ok s" using page_pos_Ok[OF assms(1,2)] by (simp add: s_def)
  have "?pl dvd pos + length part \<longleftrightarrow> ?pl dvd ?r + length part"
    using s by (metis add.assoc dvd_add_right_iff dvd_triv_right s_def)
  also have "\<dots> \<longleftrightarrow> ?r + length part = ?pl"
    using assms(3,4) by (auto dest!: dvd_imp_le)
  finally have dvd: "?pl dvd pos + length part \<longleftrightarrow> ?r + length part = ?pl" .
  have "page_write f ?pid ?r part =
    page_write_drop ?f ?pid (min (f_len f - s) ?pl) (?r + length part)"
    using page_span_Ok[OF assms(1,2)] assms(4) file_wfD(4,5)[OF assms(1)]
    by (simp add: page_write_def file_page_def s_def Let_def)
  also have "\<dots> = Ok (?f\<lparr>f_len := len_after f pos (length part)\<rparr>)"
    using page_write_drop_len[OF pp, of "?r + length part"] assms(3,4) dvd s
    by (simp add: len_after_def add.assoc[symmetric])
  finally show ?thesis by simp
qed

lemma page_write_written:
  assumes "file_wf f" "part \<noteq> []" "pos mod f_page_len f + length part \<le> f_page_len f"
    and "pos + length part < f_cap f"
  shows "\<exists>f'. page_write f (of_nat (pos div f_page_len f)) (pos mod f_page_len f) part = Ok f' \<and> written f pos part f'"
proof -
  let ?pl = "f_page_len f" and ?r = "pos mod f_page_len f" and ?pid = "of_nat (pos div f_page_len f) :: PageId"
  let ?pg = "f_page f ?pid" and ?n = "length part"
  let ?f = "f\<lparr>f_page := (f_page f)(?pid := take ?r ?pg @ part @ drop (?r + ?n) ?pg), f_len := len_after f pos ?n\<rparr>"
  have pos: "pos < f_cap f" using assms(4) by linarith
  have len: "length ?pg = ?pl" using file_wfD(4)[OF assms(1)] .
  have wf: "file_wf ?f"
    using assms len by (auto simp: file_wf_def len_after_def)
  have "byte_at ?f i = (if pos \<le> i \<and> i < pos + ?n then part ! (i - pos) else byte_at f i)" if i: "i < f_cap f" for i
  proof (cases "i div ?pl = pos div ?pl")
    case True
    have ir: "i mod ?pl < ?pl" using file_wfD(1)[OF assms(1)] by simp
    have "i = pos div ?pl * ?pl + i mod ?pl" using True by (metis div_mult_mod_eq)
    moreover have "pos = pos div ?pl * ?pl + ?r" by simp
    ultimately have iff: "pos \<le> i \<longleftrightarrow> ?r \<le> i mod ?pl" "i < pos + ?n \<longleftrightarrow> i mod ?pl < ?r + ?n" "i - pos = i mod ?pl - ?r"
      by linarith+
    show ?thesis
      using True ir len assms(3) by (auto simp: byte_at_def iff nth_append)
  next
    case False
    then have "(of_nat (i div ?pl) :: PageId) \<noteq> ?pid"
      using unat_page[OF i] unat_page[OF pos] by metis
    moreover have "\<not> (pos \<le> i \<and> i < pos + ?n)"
    proof
      assume "pos \<le> i \<and> i < pos + ?n"
      then have "pos mod ?pl + (i - pos) < ?pl" using assms(3) by linarith
      from div_mod_add(1)[OF this] show False using False \<open>pos \<le> i \<and> i < pos + ?n\<close> by simp
    qed
    ultimately show ?thesis by (auto simp: byte_at_def)
  qed
  then show ?thesis using page_write_len[OF assms(1) pos assms(2,3)] wf by (auto simp: written_def)
qed

lemma written_trans:
  assumes "written f pos a f1" "written f1 (pos + length a) b f2" "a \<noteq> []"
    and "b = [] \<or> f_page_len f dvd pos + length a"
  shows "written f pos (a @ b) f2"
proof -
  have "len_after f1 (pos + length a) (length b) = len_after f pos (length (a @ b))"
    using assms by (auto simp: written_def len_after_def add.assoc)
  moreover have "f_cap f1 = f_cap f" using assms(1) by (simp add: written_def)
  ultimately show ?thesis using assms(1,2) by (auto simp: written_def nth_append)
qed

lemma file_write_loop_written:
  "file_wf f \<Longrightarrow> pos + length buf < f_cap f \<Longrightarrow> \<exists>f'. file_write_loop f pos buf = Ok f' \<and> written f pos buf f'"
proof (induction "length buf" arbitrary: f pos buf rule: less_induct)
  case less
  show ?case
  proof (cases "buf = []")
    case True
    then show ?thesis using less.prems by (auto simp: file_write_loop.simps written_def len_after_def)
  next
    case False
    let ?pl = "f_page_len f" and ?r = "pos mod f_page_len f"
    define n where "n = min (length buf) (?pl - ?r)"
    have r: "?r < ?pl" using file_wfD(1)[OF less.prems(1)] by simp
    have n: "0 < n" "?r + n \<le> ?pl" "n \<le> length buf" "n \<noteq> length buf \<Longrightarrow> n = ?pl - ?r"
      using r False by (auto simp: n_def)
    have len: "length (take n buf) = n" "take n buf \<noteq> []" using n(1,3) by auto
    have cap: "pos + n < f_cap f" using less.prems(2) n(3) by linarith
    obtain f1 where f1: "page_write f (of_nat (pos div ?pl)) ?r (take n buf) = Ok f1" "written f pos (take n buf) f1"
      using page_write_written[OF less.prems(1) len(2), of pos] n(2) cap unfolding len(1) by blast
    have pl1: "f_page_len f1 = ?pl" "file_wf f1" using f1(2) by (simp_all add: written_def)
    have "pos + n < 2 ^ 64" using cap file_wfD(6)[OF less.prems(1)] by linarith
    then have eq: "file_write_loop f pos buf = file_write_loop f1 (pos + n) (drop n buf)"
      using f1(1) False page_id_at_Ok[OF less.prems(1), of pos] cap
      by (subst file_write_loop.simps) (simp add: checked_add_def Let_def flip: n_def)
    have "length (drop n buf) < length buf" "pos + n + length (drop n buf) < f_cap f1"
      using n less.prems(2) pl1(1) by simp_all
    from less.hyps[OF this(1) pl1(2) this(2)] obtain f2 where
      f2: "file_write_loop f1 (pos + n) (drop n buf) = Ok f2" "written f1 (pos + n) (drop n buf) f2" by blast
    have "drop n buf = [] \<or> ?pl dvd pos + n"
    proof (cases "n = length buf")
      case False
      then have "pos + n = pos div ?pl * ?pl + ?pl" using n(4) r div_mult_mod_eq[of pos ?pl] by linarith
      then show ?thesis by simp
    qed simp
    then have "written f pos (take n buf @ drop n buf) f2"
      using written_trans[OF f1(2), of "drop n buf" f2] f2(2) len by simp
    then show ?thesis using eq f2(1) by simp
  qed
qed

lemma file_write_at_written:
  assumes "file_wf f" "pos + length buf < f_cap f"
  shows "\<exists>f'. file_write_at f pos buf = Ok (f', length buf) \<and> written f pos buf f'"
  using file_write_loop_written[OF assms] by (auto simp: file_write_at_def)

text \<open>An overwrite of a file's bytes in the flat view.\<close>

lemma written_bytes:
  assumes "file_wf f" "written f pos buf f'" "pos \<le> f_len f" "buf \<noteq> []"
  shows "file_bytes f' = take pos (file_bytes f) @ buf @
    (if f_page_len f dvd pos + length buf then drop (pos + length buf) (file_bytes f) else [])"
proof (rule nth_equalityI)
  let ?rhs = "take pos (file_bytes f) @ buf @
    (if f_page_len f dvd pos + length buf then drop (pos + length buf) (file_bytes f) else [])"
  have len: "f_len f' = len_after f pos (length buf)" "f_len f' < f_cap f"
    using assms(2) file_wfD(3)[of f'] by (auto simp: written_def)
  then show "length (file_bytes f') = length ?rhs"
    using assms(3,4) by (auto simp: len_after_def min_def max_def)
  fix i assume "i < length (file_bytes f')"
  then have i: "i < f_len f'" by simp
  then have "i < f_cap f" using len(2) by linarith
  then have "file_bytes f' ! i = (if pos \<le> i \<and> i < pos + length buf then buf ! (i - pos) else byte_at f i)"
    using assms(2) i by (simp add: file_bytes_def written_def)
  also have "\<dots> = ?rhs ! i"
    using i len(1) assms(3,4) by (auto simp: nth_append min_absorb2 file_bytes_def len_after_def split: if_splits)
  finally show "file_bytes f' ! i = ?rhs ! i" .
qed

text \<open>A write at the end of a file.\<close>

lemma file_append:
  assumes "file_wf f" "f_len f + length buf < f_cap f"
  shows "\<exists>f'. file_write_at f (f_len f) buf = Ok (f', length buf) \<and> file_wf f' \<and> f_page_len f' = f_page_len f \<and>
    f_len f' = f_len f + length buf \<and> file_bytes f' = file_bytes f @ buf"
proof -
  obtain f' where f': "file_write_at f (f_len f) buf = Ok (f', length buf)" "written f (f_len f) buf f'"
    using file_write_at_written[OF assms] by blast
  have "file_bytes f' = file_bytes f @ buf"
  proof (cases "buf = []")
    case True
    then show ?thesis using f' by (simp add: file_write_at_def file_write_loop.simps)
  next
    case False
    then show ?thesis using written_bytes[OF assms(1) f'(2)] by simp
  qed
  then show ?thesis using f' by (auto simp: written_def len_after_def)
qed

subsection \<open>Sequential writers\<close>

text \<open>The interface of a sink of bytes with bounded room; the writers of the file formats rely on it.\<close>

fun write_all :: "('s \<Rightarrow> bytes \<Rightarrow> ('e, 's) result) \<Rightarrow> 's \<Rightarrow> bytes list \<Rightarrow> ('e, 's) result" where
  "write_all put s [] = Ok s"
| "write_all put s (b # bs) = rbind (put s b) (\<lambda>s. write_all put s bs)"

locale seq_writer =
  fixes inv :: "'s \<Rightarrow> bool"
    and put :: "'s \<Rightarrow> bytes \<Rightarrow> ('e, 's) result"
    and contents :: "'s \<Rightarrow> bytes"
    and room :: "'s \<Rightarrow> nat"
  assumes write_ok: "inv s \<Longrightarrow> length buf \<le> room s \<Longrightarrow>
    \<exists>s'. put s buf = Ok s' \<and> inv s' \<and> contents s' = contents s @ buf \<and> room s' + length buf = room s"
begin

lemma write_all_ok:
  "inv s \<Longrightarrow> length (concat bs) \<le> room s \<Longrightarrow>
    \<exists>s'. write_all put s bs = Ok s' \<and> inv s' \<and> contents s' = contents s @ concat bs \<and>
      room s' + length (concat bs) = room s"
proof (induction bs arbitrary: s)
  case (Cons b bs)
  then obtain s1 where s1: "put s b = Ok s1" "inv s1" "contents s1 = contents s @ b" "room s1 + length b = room s"
    using write_ok[of s b] by auto
  moreover have "length (concat bs) \<le> room s1" using Cons.prems(2) s1(4) by simp
  ultimately show ?case using Cons.IH[of s1] by auto
qed simp

end

text \<open>A cursor at the end of a well-formed file.\<close>

definition at_end :: "FileCursor \<Rightarrow> bool" where
  "at_end c \<longleftrightarrow> file_wf (fc_file c) \<and> fc_pos c = f_len (fc_file c)"

definition cursor_bytes :: "FileCursor \<Rightarrow> bytes" where
  "cursor_bytes c = file_bytes (fc_file c)"

definition cursor_room :: "FileCursor \<Rightarrow> nat" where
  "cursor_room c = f_cap (fc_file c) - 1 - f_len (fc_file c)"

lemma cursor_advance_Ok: "fc_pos c + n < 2 ^ 63 \<Longrightarrow> cursor_advance oc c n = Ok (c\<lparr>fc_pos := fc_pos c + n\<rparr>)"
  by (simp add: cursor_advance_def cursor_seek_def seek_by_def)

lemma cursor_write_append:
  assumes "at_end c" "length buf \<le> cursor_room c"
  shows "\<exists>c'. cursor_write oc c buf = Ok c' \<and> at_end c' \<and> cursor_bytes c' = cursor_bytes c @ buf \<and>
    cursor_room c' + length buf = cursor_room c"
proof -
  let ?f = "fc_file c"
  have wf: "file_wf ?f" and pos: "fc_pos c = f_len ?f" using assms(1) by (auto simp: at_end_def)
  have cap: "f_len ?f + length buf < f_cap ?f" using assms(2) file_wfD(3)[OF wf] by (simp add: cursor_room_def)
  obtain f' where f': "file_write_at ?f (f_len ?f) buf = Ok (f', length buf)" "file_wf f'" "f_page_len f' = f_page_len ?f"
    "f_len f' = f_len ?f + length buf" "file_bytes f' = file_bytes ?f @ buf"
    using file_append[OF wf cap] by blast
  have "f_len ?f + length buf < 2 ^ 63" using cap file_wfD(7)[OF wf] by linarith
  then have "cursor_write oc c buf = Ok (c\<lparr>fc_file := f', fc_pos := f_len ?f + length buf\<rparr>)"
    using f'(1) pos by (simp add: cursor_write_def cursor_advance_Ok)
  then show ?thesis using f'(2-5) cap by (simp add: at_end_def cursor_bytes_def cursor_room_def)
qed

interpretation cursor: seq_writer at_end "cursor_write oc" cursor_bytes cursor_room for oc
  by unfold_locales (rule cursor_write_append)

lemma cursor_read_Ok:
  assumes "file_wf (fc_file c)" "fc_pos c \<le> f_len (fc_file c)"
  shows "cursor_read oc c n = Ok (c\<lparr>fc_pos := fc_pos c + min n (f_len (fc_file c) - fc_pos c)\<rparr>,
    take n (drop (fc_pos c) (cursor_bytes c)))"
proof -
  have "fc_pos c + min n (f_len (fc_file c) - fc_pos c) < 2 ^ 63"
    using assms(2) file_wfD(3,7)[OF assms(1)] by linarith
  then show ?thesis
    using file_read_at_Ok[OF assms] by (simp add: cursor_read_def cursor_advance_Ok cursor_bytes_def min.commute)
qed

subsection \<open>Properties\<close>

text \<open>A file of zero bytes.\<close>

definition blank_file :: "nat \<Rightarrow> nat \<Rightarrow> File" where
  "blank_file pl n = \<lparr>f_page_len = pl, f_len = n, f_page = (\<lambda>_. replicate pl 0), f_fault = (\<lambda>_. False)\<rparr>"

lemma blank_file_wf: "0 < pl \<Longrightarrow> pl \<le> 2 ^ 30 \<Longrightarrow> n < pl * 2 ^ 32 \<Longrightarrow> file_wf (blank_file pl n)"
  by (simp add: file_wf_def blank_file_def)

text \<open>C16: Bytes written anywhere in a file, also across page boundaries and beyond its end, are read
  back from the same position.\<close>

theorem file_read_after_write:
  assumes "file_wf f" and "pos + length buf < f_page_len f * 2 ^ 32"
  shows "\<exists>f'. file_write_at f pos buf = Ok (f', length buf) \<and> file_wf f' \<and>
    (buf \<noteq> [] \<longrightarrow> file_read_at f' pos (length buf) = Ok buf)"
proof -
  obtain f' where f': "file_write_at f pos buf = Ok (f', length buf)" "written f pos buf f'"
    using file_write_at_written[OF assms] by blast
  then have wf: "file_wf f'" by (simp add: written_def)
  have "file_read_at f' pos (length buf) = Ok buf" if "buf \<noteq> []"
  proof -
    have le: "pos + length buf \<le> f_len f'" using f'(2) that by (simp add: written_def len_after_def)
    have "take (length buf) (drop pos (file_bytes f')) = map (byte_at f') [pos..<pos + length buf]"
      using le by (simp flip: file_bytes_range)
    also have "\<dots> = buf"
      using f'(2) assms(2) by (intro nth_equalityI) (auto simp: written_def)
    finally show ?thesis using file_read_at_Ok[OF wf, of pos "length buf"] le by simp
  qed
  then show ?thesis using f'(1) wf by blast
qed

theorem file_read_after_write_witness:
  "\<exists>f'. file_write_at (blank_file 2 1) 3 [1, 2, 3] = Ok (f', 3) \<and> file_read_at f' 3 3 = Ok [1, 2, 3]"
  using file_read_after_write[of "blank_file 2 1" 3 "[1, 2, 3]"] blank_file_wf[of 2 1]
  by (auto simp: blank_file_def numeral_3_eq_3)

text \<open>C17: A write that ends before the end of the file and not at a page boundary cuts the file off
  after the written bytes: what stood behind them is gone.\<close>

theorem file_write_truncates:
  assumes "file_wf f" and "buf \<noteq> []" and "pos + length buf \<le> f_len f" and "\<not> f_page_len f dvd pos + length buf"
  shows "\<exists>f'. file_write_at f pos buf = Ok (f', length buf) \<and> file_bytes f' = take pos (file_bytes f) @ buf"
proof -
  have cap: "pos + length buf < f_cap f" using assms(3) file_wfD(3)[OF assms(1)] by linarith
  obtain f' where f': "file_write_at f pos buf = Ok (f', length buf)" "written f pos buf f'"
    using file_write_at_written[OF assms(1) cap] by blast
  then show ?thesis using written_bytes[OF assms(1) f'(2) _ assms(2)] assms(3,4) by auto
qed

theorem file_write_truncates_witness:
  "\<exists>f'. file_write_at (blank_file 8 20) 3 [7, 9] = Ok (f', 2) \<and> file_bytes f' = take 3 (file_bytes (blank_file 8 20)) @ [7, 9]"
  using file_write_truncates[of "blank_file 8 20" "[7, 9]" 3] blank_file_wf[of 8 20] by (auto simp: blank_file_def)

text \<open>C18: A read that starts behind the end of the file, but in its last page, panics instead of
  returning no bytes.\<close>

theorem file_read_past_end_panics:
  assumes "file_wf f" and "0 < n" and "f_len f < pos" and "pos div f_page_len f = f_len f div f_page_len f"
  shows "file_read_at f pos n = Panic"
proof -
  let ?pl = "f_page_len f"
  have "pos < (f_len f div ?pl + 1) * ?pl"
    using assms(4) file_wfD(1)[OF assms(1)] by (metis Suc_eq_plus1 dividend_less_div_times mult_Suc)
  also have "\<dots> \<le> 2 ^ 32 * ?pl"
    using div_lt_cap[OF file_wfD(3)[OF assms(1)]] by (intro mult_le_mono1) simp
  finally have cap: "pos < f_cap f" by (simp add: mult.commute)
  have "f_len f - pos div ?pl * ?pl < pos mod ?pl"
    using assms(3) div_mult_mod_eq[of pos ?pl] assms(4) by (metis add_diff_cancel_left' diff_less_mono div_times_less_eq_dividend)
  then have "min (f_len f - pos div ?pl * ?pl) ?pl < pos mod ?pl" by simp
  then show ?thesis
    using page_id_at_Ok[OF assms(1) cap] page_span_Ok[OF assms(1) cap] file_wfD(4,5)[OF assms(1)] assms(2)
    by (auto simp: file_read_at_def file_read_loop.simps page_read_def file_page_def slice_range_def slice_from_def)
qed

theorem file_read_past_end_panics_witness: "file_read_at (blank_file 8 3) 5 1 = Panic"
  using file_read_past_end_panics[of "blank_file 8 3" 1 5] blank_file_wf[of 8 3] by (simp add: blank_file_def)

end
