(* ===== verification/FloatRoundtrip.thy ===== *)
theory FloatRoundtrip
  imports FloatCoder BooleanCoder
begin

text \<open>
  The round trip of the Gorilla float coder (\<^verbatim>\<open>src/tskv/src/tsm/coders/float.rs\<close>).  The
  writer's buffer and the reader's cache are related to one list of bits: the encoder appends the
  bits of a value, whatever byte boundaries they cross, and the decoder takes them from the front,
  whatever refills they need.
\<close>

subsection \<open>Bits of words and buffers\<close>

text \<open>The \<^verbatim>\<open>l\<close> low bits of a word, the most significant first.\<close>

definition ubits :: "nat \<Rightarrow> 'a::len word \<Rightarrow> bool list" where
  "ubits l x = map (\<lambda>j. bit x (l - 1 - j)) [0..<l]"

lemma length_ubits [simp]: "length (ubits l x) = l"
  by (simp add: ubits_def)

lemma nth_ubits [simp]: "j < l \<Longrightarrow> ubits l x ! j = bit x (l - 1 - j)"
  by (simp add: ubits_def)

text \<open>The \<^verbatim>\<open>l\<close> high bits of a 64-bit word, the most significant first.\<close>

definition hbits :: "nat \<Rightarrow> u64 \<Rightarrow> bool list" where
  "hbits l v = map (\<lambda>j. bit v (63 - j)) [0..<l]"

lemma length_hbits [simp]: "length (hbits l v) = l"
  by (simp add: hbits_def)

lemma nth_hbits [simp]: "j < l \<Longrightarrow> hbits l v ! j = bit v (63 - j)"
  by (simp add: hbits_def)

lemma hbits_0 [simp]: "hbits 0 v = []"
  by (simp add: hbits_def)

lemma hbits_push: "l \<le> 64 \<Longrightarrow> hbits l (push_bit (64 - l) x) = ubits l x"
  by (intro nth_equalityI) (auto simp: bit_push_bit_iff)

lemma hbits_split: "w \<le> l \<Longrightarrow> l \<le> 64 \<Longrightarrow> hbits l v = hbits w v @ hbits (l - w) (push_bit w v)"
  by (intro nth_equalityI) (auto simp: nth_append bit_push_bit_iff)

lemma gbit_be_bytes: "p < 8 * n \<Longrightarrow> gbit (be_bytes n v) p = bit v (8 * n - 1 - p)"
proof (induction n arbitrary: p)
  case (Suc n)
  show ?case
  proof (cases "p < 8")
    case True
    then show ?thesis by (simp add: be_bytes_Suc gbit_def bit_ucast_iff bit_drop_bit_eq) (auto simp: algebra_simps)
  next
    case False
    then have "(ucast (drop_bit (8 * n) v) # be_bytes n v) ! (p div 8) = be_bytes n v ! ((p - 8) div 8)"
      "p mod 8 = (p - 8) mod 8"
      by (auto simp: nth_Cons' le_div_geq le_mod_geq)
    then show ?thesis using False Suc.IH[of "p - 8"] Suc.prems by (simp add: be_bytes_Suc gbit_def)
  qed
qed simp

lemma bit_from_be:
  "8 * length bs \<le> LENGTH('a) \<Longrightarrow> bit (from_be bs :: 'a::len word) j \<longleftrightarrow> j < 8 * length bs \<and> gbit bs (8 * length bs - 1 - j)"
proof -
  assume le: "8 * length bs \<le> LENGTH('a)"
  let ?v = "from_be bs :: 'a word"
  have bs: "be_bytes (length bs) ?v = bs" using be_bytes_from_be[OF refl le] .
  show ?thesis
  proof (cases "j < 8 * length bs")
    case True
    then have "gbit (be_bytes (length bs) ?v) (8 * length bs - 1 - j) = bit ?v j"
      by (subst gbit_be_bytes) (auto intro: arg_cong[of _ _ "bit ?v"])
    then show ?thesis using True bs by simp
  next
    case False
    have "?v = take_bit (8 * length bs) ?v"
      using from_be_be_bytes_take[of "length bs" ?v] bs by simp
    then have "bit ?v j = bit (take_bit (8 * length bs) ?v) j" by simp
    then show ?thesis using False by (simp add: bit_take_bit_iff)
  qed
qed

subsection \<open>The writer\<close>

definition strm :: "bytes \<Rightarrow> nat \<Rightarrow> bool" where
  "strm dst k \<longleftrightarrow> k < 8 * length dst \<and> gbit dst k"

text \<open>The buffer holds the bits \<^verbatim>\<open>bs\<close> and zeros behind them; bytes not yet there count as zeros.\<close>

definition holds :: "bytes \<Rightarrow> bool list \<Rightarrow> bool" where
  "holds dst bs \<longleftrightarrow> (\<forall>k. strm dst k \<longleftrightarrow> k < length bs \<and> bs ! k)"

lemma holdsD: "holds dst bs \<Longrightarrow> strm dst k \<longleftrightarrow> k < length bs \<and> bs ! k"
  by (simp add: holds_def)

lemma strm_zeros: "strm (dst @ replicate j 0) k = strm dst k"
proof (cases "k div 8 < length dst")
  case True
  then show ?thesis by (auto simp: strm_def gbit_def nth_append)
next
  case False
  have "\<not> strm (dst @ replicate j 0) k"
  proof
    assume "strm (dst @ replicate j 0) k"
    then have k: "k < 8 * (length dst + j)" "gbit (dst @ replicate j 0) k" by (auto simp: strm_def)
    then have "k div 8 < length dst + j" by (simp add: less_mult_imp_div_less mult.commute)
    then have "k div 8 - length dst < j" using False by linarith
    then show False using k(2) False by (simp add: gbit_def nth_append)
  qed
  moreover have "\<not> strm dst k" using False by (auto simp: strm_def)
  ultimately show ?thesis by simp
qed

lemma holds_grow [simp]: "holds (grow_while k dst) bs = holds dst bs" "holds (grow_if k dst) bs = holds dst bs"
  using strm_zeros[of dst 1] by (auto simp: holds_def grow_while_def grow_if_def strm_zeros)

lemma length_grow_while: "k < length (grow_while k dst)" "length dst \<le> length (grow_while k dst)"
  by (auto simp: grow_while_def)

lemma length_grow_if: "k \<le> length dst \<Longrightarrow> k < length (grow_if k dst)" "length dst \<le> length (grow_if k dst)"
  by (auto simp: grow_if_def)

lemma drop_bit_3 [simp]: "drop_bit 3 (n :: nat) = n div 8"
  by (simp add: drop_bit_eq_div)

lemma or_at_strm:
  assumes "i < length dst"
  shows "\<exists>dst'. or_at dst i x = Ok dst' \<and> length dst' = length dst \<and>
    (\<forall>k. strm dst' k \<longleftrightarrow> strm dst k \<or> k div 8 = i \<and> bit x (7 - k mod 8))"
proof -
  have "strm (dst[i := dst ! i OR x]) k \<longleftrightarrow> strm dst k \<or> k div 8 = i \<and> bit x (7 - k mod 8)" for k
  proof (cases "k div 8 = i")
    case True
    then have "k < 8 * length dst" using assms by linarith
    then show ?thesis using True assms by (auto simp: strm_def gbit_def bit_or_iff)
  next
    case False
    then show ?thesis by (simp add: strm_def gbit_def)
  qed
  then show ?thesis using assms by (simp add: or_at_def index_def)
qed

text \<open>The high byte of \<^verbatim>\<open>v\<close>, shifted to the current bit: as many bits as still fit.\<close>

lemma bit_byte:
  "k div 8 = n div 8 \<Longrightarrow>
    bit (ucast (drop_bit (n mod 8) (drop_bit 56 (v :: u64))) :: u8) (7 - k mod 8) \<longleftrightarrow> n \<le> k \<and> bit v (63 - (k - n))"
proof -
  assume k: "k div 8 = n div 8"
  have kn: "k = n div 8 * 8 + k mod 8" "n = n div 8 * 8 + n mod 8" "k mod 8 < 8" "n mod 8 < 8"
    using div_mult_mod_eq[of k 8] k by simp_all
  have b: "bit (ucast (drop_bit (n mod 8) (drop_bit 56 v)) :: u8) (7 - k mod 8) = bit v (56 + (n mod 8 + (7 - k mod 8)))"
    using kn by (auto simp: bit_ucast_iff bit_drop_bit_eq)
  show ?thesis
  proof (cases "n \<le> k")
    case True
    then have "56 + (n mod 8 + (7 - k mod 8)) = 63 - (k - n)" using kn by linarith
    then show ?thesis using b True by simp
  next
    case False
    then have "64 \<le> 56 + (n mod 8 + (7 - k mod 8))" using kn by linarith
    then have "\<not> bit v (56 + (n mod 8 + (7 - k mod 8)))"
      using bit_imp_le_length[of v "56 + (n mod 8 + (7 - k mod 8))"] by auto
    then show ?thesis using b False by simp
  qed
qed

lemma byte_end: "n + (8 - n mod 8) = (n div 8 + 1) * 8" for n :: nat
proof -
  have "q * 8 + r = n \<Longrightarrow> r < 8 \<Longrightarrow> n + (8 - r) = (q + 1) * 8" for q r by simp
  from this[OF div_mult_mod_eq] show ?thesis by simp
qed

lemma within_byte: "a + b = (q + 1) * 8 \<Longrightarrow> l \<le> b \<Longrightarrow> q < m \<Longrightarrow> a + l \<le> 8 * m" for a b q m :: nat
  by simp

lemma same_byte:
  fixes n k :: nat
  assumes "n \<le> k"
  shows "k div 8 = n div 8 \<longleftrightarrow> k < n + (8 - n mod 8)"
proof
  assume "k div 8 = n div 8"
  moreover have "k < (k div 8 + 1) * 8" using byte_end[of k] mod_less_divisor[of 8 k] by linarith
  ultimately show "k < n + (8 - n mod 8)" unfolding byte_end by simp
next
  assume "k < n + (8 - n mod 8)"
  then have "k div 8 < n div 8 + 1" unfolding byte_end by (rule less_mult_imp_div_less)
  then show "k div 8 = n div 8" using div_le_mono[OF assms, of 8] by linarith
qed

lemma or_bits:
  assumes "holds dst bs" "length bs div 8 < length dst" "w \<le> 8 - length bs mod 8"
    and "\<And>j. w \<le> j \<Longrightarrow> j < 8 - length bs mod 8 \<Longrightarrow> \<not> bit v (63 - j)"
  shows "\<exists>dst'. or_at dst (length bs div 8) (ucast (drop_bit (length bs mod 8) (drop_bit 56 v))) = Ok dst' \<and>
    length dst' = length dst \<and> holds dst' (bs @ hbits w v)"
proof -
  let ?n = "length bs" and ?x = "ucast (drop_bit (length bs mod 8) (drop_bit 56 v)) :: u8"
  obtain dst' where d: "or_at dst (?n div 8) ?x = Ok dst'" "length dst' = length dst"
    "\<forall>k. strm dst' k \<longleftrightarrow> strm dst k \<or> k div 8 = ?n div 8 \<and> bit ?x (7 - k mod 8)"
    using or_at_strm[OF assms(2), of ?x] by blast
  have "strm dst' k \<longleftrightarrow> k < length (bs @ hbits w v) \<and> (bs @ hbits w v) ! k" for k
  proof (cases "k < ?n")
    case True
    then show ?thesis using d(3)[rule_format, of k] holdsD[OF assms(1), of k] bit_byte[of k ?n v] by (auto simp: nth_append)
  next
    case False
    then obtain j where k: "k = ?n + j" using le_Suc_ex[of ?n k] by auto
    have "strm dst' k \<longleftrightarrow> k < ?n + (8 - ?n mod 8) \<and> bit v (63 - j)"
      using d(3)[rule_format, of k] holdsD[OF assms(1), of k] bit_byte[of k ?n v] same_byte[of ?n k] k by auto
    also have "\<dots> \<longleftrightarrow> j < w \<and> bit v (63 - j)"
      using assms(3) assms(4)[of j] k by fastforce
    finally show ?thesis using k by (auto simp: nth_append)
  qed
  then have "holds dst' (bs @ hbits w v)" unfolding holds_def by blast
  then show ?thesis using d(1,2) by blast
qed

text \<open>A single one bit.\<close>

lemma or_one:
  assumes "holds dst bs" "length bs div 8 < length dst"
  shows "\<exists>dst'. or_at dst (length bs div 8) (drop_bit (length bs mod 8) 128) = Ok dst' \<and>
    length dst' = length dst \<and> holds dst' (bs @ [True])"
proof -
  obtain dst' where d: "or_at dst (length bs div 8) (drop_bit (length bs mod 8) 128) = Ok dst'" "length dst' = length dst"
    "\<forall>k. strm dst' k \<longleftrightarrow> strm dst k \<or> k div 8 = length bs div 8 \<and> bit (drop_bit (length bs mod 8) (128 :: u8)) (7 - k mod 8)"
    using or_at_strm[OF assms(2), of "drop_bit (length bs mod 8) 128"] by blast
  have "strm dst' k \<longleftrightarrow> strm dst k \<or> k = length bs" for k
  proof -
    have "7 - k mod 8 + length bs mod 8 = 7 \<longleftrightarrow> k mod 8 = length bs mod 8"
      using mod_less_divisor[of 8 k] mod_less_divisor[of 8 "length bs"] by linarith
    moreover have "k = length bs \<longleftrightarrow> k div 8 = length bs div 8 \<and> k mod 8 = length bs mod 8"
      by (metis div_mult_mod_eq)
    ultimately show ?thesis using d(3) by (simp add: bit_128)
  qed
  note strm' = this
  have "strm dst' k \<longleftrightarrow> k < length (bs @ [True]) \<and> (bs @ [True]) ! k" for k
    using strm'[of k] holdsD[OF assms(1), of k] by (cases "k = length bs") (auto simp: nth_append)
  then have "holds dst' (bs @ [True])" unfolding holds_def by blast
  then show ?thesis using d(1,2) by blast
qed

lemma holds_zero:
  assumes "holds dst bs"
  shows "holds dst (bs @ [False])"
proof -
  have "strm dst k \<longleftrightarrow> k < length (bs @ [False]) \<and> (bs @ [False]) ! k" for k
    using holdsD[OF assms, of k] by (cases "k = length bs") (auto simp: nth_append)
  then show ?thesis unfolding holds_def by blast
qed

text \<open>\<^verbatim>\<open>v\<close> has no bits but its \<^verbatim>\<open>l\<close> highest.\<close>

definition high :: "nat \<Rightarrow> u64 \<Rightarrow> bool" where
  "high l v \<longleftrightarrow> (\<forall>j. l \<le> j \<longrightarrow> j < 64 \<longrightarrow> \<not> bit v (63 - j))"

lemma high_push: "l \<le> 64 \<Longrightarrow> high l (push_bit (64 - l) x)"
  by (auto simp: high_def bit_push_bit_iff)

lemma high_shift: "high l v \<Longrightarrow> high (l - w) (push_bit w v)"
  unfolding high_def
proof (intro allI impI)
  fix j assume h: "\<forall>j. l \<le> j \<longrightarrow> j < 64 \<longrightarrow> \<not> bit v (63 - j)" and j: "l - w \<le> j" "j < 64"
  show "\<not> bit (push_bit w v) (63 - j)"
  proof (cases "w \<le> 63 - j")
    case True
    then have "l \<le> j + w" "j + w < 64" "63 - j - w = 63 - (j + w)" using j by auto
    then show ?thesis using h by (simp add: bit_push_bit_iff)
  qed (simp add: bit_push_bit_iff)
qed

lemma or_high:
  assumes "holds dst bs" "length bs div 8 < length dst" "l \<le> 8 - length bs mod 8" "high l v"
  shows "\<exists>dst'. or_at dst (length bs div 8) (ucast (drop_bit (length bs mod 8) (drop_bit 56 v))) = Ok dst' \<and>
    length dst' = length dst \<and> holds dst' (bs @ hbits l v)"
  by (rule or_bits[OF assms(1-3)]) (use assms(4) in \<open>simp add: high_def\<close>)

lemma or_full:
  assumes "holds dst bs" "length bs div 8 < length dst"
  shows "\<exists>dst'. or_at dst (length bs div 8) (ucast (drop_bit (length bs mod 8) (drop_bit 56 v))) = Ok dst' \<and>
    length dst' = length dst \<and> holds dst' (bs @ hbits (8 - length bs mod 8) v)"
  by (rule or_bits[OF assms order_refl]) simp

lemma next_byte: "(n + (8 - n mod 8)) mod 8 = 0" "(n + (8 - n mod 8)) div 8 = n div 8 + 1" for n :: nat
  unfolding byte_end by simp_all

lemma float_put_small_holds:
  assumes "holds dst bs" "high l v" "l \<le> 8" "(length bs + l) div 8 < length dst"
  shows "\<exists>dst'. float_put_small l v dst (length bs) = Ok (dst', length bs + l) \<and> length dst' = length dst \<and>
    holds dst' (bs @ hbits l v)"
proof -
  have n: "length bs div 8 < length dst" using assms(4) div_le_mono[of "length bs" "length bs + l" 8] by linarith
  show ?thesis
  proof (cases "length bs mod 8 \<le> 8 - l")
    case True
    then have "l \<le> 8 - length bs mod 8" using assms(3) by linarith
    then show ?thesis
      using or_high[OF assms(1) n _ assms(2)] True by (auto simp: float_put_small_def simp del: drop_bit_drop_bit)
  next
    case False
    define w where "w = 8 - length bs mod 8"
    have w: "w \<le> l" using False by (simp add: w_def)
    have m: "(length bs + w) mod 8 = 0" using next_byte(1) by (simp add: w_def)
    obtain d1 where d1: "or_at dst (length bs div 8) (ucast (drop_bit (length bs mod 8) (drop_bit 56 v))) = Ok d1"
      "length d1 = length dst" "holds d1 (bs @ hbits w v)"
      using or_full[OF assms(1) n, of v] unfolding w_def by blast
    have len: "length (bs @ hbits w v) = length bs + w" by simp
    have lw: "l - w \<le> 8 - length (bs @ hbits w v) mod 8" using m assms(3) len by simp
    have "(length bs + w) div 8 < length d1"
      using d1(2) assms(4) w div_le_mono[of "length bs + w" "length bs + l" 8] by linarith
    then obtain d2 where d2: "or_at d1 ((length bs + w) div 8) (ucast (drop_bit 0 (drop_bit 56 (push_bit w v)))) = Ok d2"
      "length d2 = length d1" "holds d2 ((bs @ hbits w v) @ hbits (l - w) (push_bit w v))"
      using or_high[OF d1(3) _ lw high_shift[OF assms(2), of w]] m unfolding len by auto
    have "hbits l v = hbits w v @ hbits (l - w) (push_bit w v)" using hbits_split[OF w] assms(3) by simp
    then show ?thesis
      using d1 d2 m w False unfolding float_put_small_def
      by (simp add: Let_def flip: w_def del: drop_bit_drop_bit)
  qed
qed

lemma gbit_append1: "p < 8 * length xs \<Longrightarrow> gbit (xs @ ys) p = gbit xs p"
  using less_mult_imp_div_less[of p "length xs" 8] by (simp add: gbit_def nth_append mult.commute)

lemma gbit_append2: "gbit (xs @ ys) (8 * length xs + q) = gbit ys q"
  by (simp add: gbit_def nth_append)

lemma strm_append1: "p < 8 * length xs \<Longrightarrow> strm (xs @ ys) p = strm xs p"
  by (simp add: strm_def gbit_append1)

lemma strm_append2: "strm (xs @ ys) (8 * length xs + q) = strm ys q"
  by (simp add: strm_def gbit_append2)

lemma copy_at_holds:
  assumes "holds dst bs" "length bs = 8 * k" "high l v" "l \<le> 64" "k + 8 \<le> length dst"
  shows "\<exists>dst'. copy_at dst k (to_be_bytes v) = Ok dst' \<and> length dst' = length dst \<and> holds dst' (bs @ hbits l v)"
proof -
  let ?v = "to_be_bytes v" and ?t = "drop (k + 8) dst"
  let ?d = "take k dst @ ?v @ ?t"
  have split: "dst = take k dst @ take 8 (drop k dst) @ ?t"
    by (metis append_take_drop_id drop_drop add.commute)
  have len: "length (take k dst) = k" "length ?v = 8" "length (take 8 (drop k dst)) = 8" using assms(5) by simp_all
  have "strm ?d p \<longleftrightarrow> p < length (bs @ hbits l v) \<and> (bs @ hbits l v) ! p" for p
  proof -
    consider "p < 8 * k" | q where "p = 8 * k + q" "q < 64" | q where "p = 8 * k + (64 + q)"
      by (metis le_Suc_ex not_less)
    then show ?thesis
    proof cases
      case 1
      then have "strm ?d p = strm dst p" using strm_append1[of p "take k dst"] len(1) split by metis
      then show ?thesis using 1 holdsD[OF assms(1), of p] assms(2) by (simp add: nth_append)
    next
      case 2
      then have "strm ?d p = strm ?v q"
        using strm_append2[of "take k dst" "?v @ ?t" q] strm_append1[of q ?v ?t] len by simp
      also have "\<dots> = bit v (63 - q)" using 2 len(2) by (simp add: strm_def gbit_be_bytes)
      also have "\<dots> \<longleftrightarrow> q < l \<and> bit v (63 - q)" using assms(3) 2 by (metis high_def not_less)
      finally show ?thesis using 2 assms(2) by (auto simp: nth_append)
    next
      case 3
      have "strm ?d p = strm ?t q"
        using 3 strm_append2[of "take k dst" "?v @ ?t" "64 + q"] strm_append2[of ?v ?t q] len by simp
      moreover have "strm dst p = strm ?t q"
        using 3 strm_append2[of "take k dst" "take 8 (drop k dst) @ ?t" "64 + q"]
          strm_append2[of "take 8 (drop k dst)" ?t q] len split by simp
      moreover have "\<not> p < length bs" "\<not> p < length (bs @ hbits l v)" using 3 assms(2,4) by auto
      ultimately show ?thesis using holdsD[OF assms(1), of p] by simp
    qed
  qed
  then have "holds ?d (bs @ hbits l v)" unfolding holds_def by blast
  then show ?thesis using assms(5) by (simp add: copy_at_def)
qed

lemma float_put_value_holds:
  assumes "holds dst bs" "high l v" "0 < l" "l \<le> 64" "length bs div 8 < length dst"
  shows "\<exists>dst'. float_put_value l v dst (length bs) = Ok (dst', length bs + l) \<and> holds dst' (bs @ hbits l v) \<and>
    length bs + l \<le> 8 * length dst'"
proof -
  let ?rest = "\<lambda>written dst n. rbind (copy_at (grow_while (n div 8 + 8) dst) (n div 8) (to_be_bytes (push_bit written v)))
    (\<lambda>dst. Ok (dst, n + (l - written)) :: (string, bytes \<times> nat) result)"
  have rest: "\<exists>dst'. ?rest w d (length bs') = Ok (dst', length bs' + (l - w)) \<and>
      holds dst' (bs' @ hbits (l - w) (push_bit w v)) \<and> length bs' + (l - w) \<le> 8 * length dst'"
    if bs': "holds d bs'" "length bs' mod 8 = 0" "w \<le> l" for w d bs'
  proof -
    let ?d = "grow_while (length bs' div 8 + 8) d"
    have k: "length bs' = 8 * (length bs' div 8)" using bs'(2) by auto
    have h: "holds ?d bs'" and l64: "\<And>w. l - w \<le> 64" using bs'(1) assms(4) by auto
    obtain d' where "copy_at ?d (length bs' div 8) (to_be_bytes (push_bit w v)) = Ok d'" "length d' = length ?d"
      "holds d' (bs' @ hbits (l - w) (push_bit w v))"
      using copy_at_holds[OF h k high_shift[OF assms(2)] l64, of w] length_grow_while(1)[of "length bs' div 8 + 8" d]
      by auto
    moreover have "length bs' + (l - w) \<le> 8 * length ?d"
      using length_grow_while(1)[of "length bs' div 8 + 8" d] k assms(4) by linarith
    ultimately show ?thesis by auto
  qed
  show ?thesis
  proof (cases "length bs mod 8 = 0")
    case True
    then show ?thesis using rest[OF assms(1), of 0] unfolding float_put_value_def by (simp add: Let_def)
  next
    case False
    define w where "w = 8 - length bs mod 8"
    show ?thesis
    proof (cases "l \<le> w")
      case True
      then have lw: "l \<le> 8 - length bs mod 8" by (simp add: w_def)
      have "length bs + l \<le> 8 * length dst"
        by (rule within_byte[OF byte_end lw assms(5)])
      moreover have "l - (if l < w then l else w) = 0" "(if l < w then l else w) = l" using True by auto
      ultimately show ?thesis using or_high[OF assms(1,5) lw assms(2)] False unfolding float_put_value_def
        by (auto simp: Let_def simp del: drop_bit_drop_bit simp flip: w_def)
    next
      case lw: False
      obtain d1 where d1: "or_at dst (length bs div 8) (ucast (drop_bit (length bs mod 8) (drop_bit 56 v))) = Ok d1"
        "holds d1 (bs @ hbits w v)"
        using or_full[OF assms(1,5), of v] unfolding w_def by blast
      have len: "length (bs @ hbits w v) = length bs + w" by simp
      have m: "(length bs + w) mod 8 = 0" using next_byte(1) by (simp add: w_def)
      obtain d2 where d2: "?rest w d1 (length bs + w) = Ok (d2, length bs + w + (l - w))"
        "holds d2 ((bs @ hbits w v) @ hbits (l - w) (push_bit w v))" "length bs + w + (l - w) \<le> 8 * length d2"
        using rest[OF d1(2), of w] m lw unfolding len by auto
      have "hbits l v = hbits w v @ hbits (l - w) (push_bit w v)" using hbits_split[of w l v] lw assms(4) by simp
      then show ?thesis
        using d1 d2 lw False unfolding float_put_value_def
        by (auto simp: Let_def simp del: drop_bit_drop_bit simp flip: w_def)
    qed
  qed
qed

subsection \<open>The bits of a value\<close>

text \<open>All bits of \<^verbatim>\<open>v\<close> lie above \<^verbatim>\<open>trail\<close> low and below \<^verbatim>\<open>lead\<close> high bits.\<close>

definition fits :: "u64 \<Rightarrow> nat \<Rightarrow> nat \<Rightarrow> bool" where
  "fits v lead trail \<longleftrightarrow> (\<forall>i. bit v i \<longrightarrow> trail \<le> i \<and> i < 64 - lead)"

lemma bit_u64_less: "bit (v :: u64) i \<Longrightarrow> i < 64"
  using bit_imp_le_length[of v i] by simp

lemma trailing_zeros_le:
  assumes "bit v i"
  shows "trailing_zeros v \<le> i"
proof (rule ccontr)
  assume "\<not> trailing_zeros v \<le> i"
  then have i: "i < length (takeWhile (\<lambda>i. \<not> bit v i) [0..<64])" by (simp add: trailing_zeros_def)
  then have "\<not> bit v (takeWhile (\<lambda>i. \<not> bit v i) [0..<64] ! i)" using nth_mem set_takeWhileD by metis
  then show False using assms takeWhile_nth[OF i] bit_u64_less[OF assms] by simp
qed

lemma leading_zeros_le:
  assumes "bit v i"
  shows "i + leading_zeros v \<le> 63"
proof (rule ccontr)
  have i64: "i < 64" using bit_u64_less[OF assms] .
  assume "\<not> i + leading_zeros v \<le> 63"
  then have i: "63 - i < length (takeWhile (\<lambda>i. \<not> bit v i) (rev [0..<64]))" using i64 by (simp add: leading_zeros_def)
  then have "\<not> bit v (takeWhile (\<lambda>i. \<not> bit v i) (rev [0..<64]) ! (63 - i))" using nth_mem set_takeWhileD by metis
  then show False using assms takeWhile_nth[OF i] i64 by (simp add: rev_nth del: upt_rec_numeral)
qed

lemma fits_zeros:
  assumes "v \<noteq> 0" "lead \<le> leading_zeros v" "trail \<le> trailing_zeros v"
  shows "fits v lead trail" "lead + trail < 64"
proof -
  show "fits v lead trail"
    unfolding fits_def using assms(2,3) leading_zeros_le[of v] trailing_zeros_le[of v] bit_u64_less[of v] by fastforce
  obtain i where "bit v i" using assms(1) bit_eqI[of v 0] by auto
  then show "lead + trail < 64" using assms(2,3) leading_zeros_le[of v i] trailing_zeros_le[of v i] by linarith
qed

lemma fits_restore:
  assumes "fits v lead trail"
  shows "push_bit trail (take_bit (64 - lead - trail) (drop_bit trail v)) = v"
proof (rule bit_word_eqI)
  fix i :: nat assume "i < LENGTH(64)"
  then show "bit (push_bit trail (take_bit (64 - lead - trail) (drop_bit trail v))) i = bit v i"
    using assms by (auto simp: fits_def bit_push_bit_iff bit_take_bit_iff bit_drop_bit_eq)
qed

definition new_lead :: "u64 \<Rightarrow> nat" where
  "new_lead v = take_bit 5 (leading_zeros v)"

lemma new_lead_le: "new_lead v \<le> leading_zeros v" "new_lead v < 32"
  by (simp_all add: new_lead_def take_bit_eq_mod)

lemma fits_new: "v \<noteq> 0 \<Longrightarrow> fits v (new_lead v) (trailing_zeros v) \<and> new_lead v + trailing_zeros v < 64"
  using fits_zeros[OF _ new_lead_le(1) order_refl] by blast

text \<open>Whether the window of the previous value is used again.\<close>

definition reuse :: "u64 \<Rightarrow> FloatWriter \<Rightarrow> bool" where
  "reuse v w \<longleftrightarrow> (case fw_leading w of Some lead \<Rightarrow> lead \<le> new_lead v \<and> fw_trailing w \<le> trailing_zeros v | None \<Rightarrow> False)"

definition window_bits :: "u64 \<Rightarrow> nat \<Rightarrow> nat \<Rightarrow> bool list" where
  "window_bits v lead trail =
     (let sig = 64 - lead - trail in
      [True] @ ubits 5 (of_nat lead :: u64) @ ubits 6 (of_nat sig :: u64) @ ubits sig (drop_bit trail v))"

definition value_bits :: "u64 \<Rightarrow> FloatWriter \<Rightarrow> bool list" where
  "value_bits cur w =
     (let v = cur XOR fw_prev w in
      if v = 0 then [False]
      else True # (if reuse v w
        then [False] @ ubits (64 - the (fw_leading w) - fw_trailing w) (drop_bit (fw_trailing w) v)
        else window_bits v (new_lead v) (trailing_zeros v)))"

definition next_window :: "u64 \<Rightarrow> FloatWriter \<Rightarrow> nat option \<times> nat" where
  "next_window cur w =
     (let v = cur XOR fw_prev w in
      if v = 0 \<or> reuse v w then (fw_leading w, fw_trailing w) else (Some (new_lead v), trailing_zeros v))"

definition writes :: "FloatWriter \<Rightarrow> bool list \<Rightarrow> bool" where
  "writes w bs \<longleftrightarrow> holds (fw_dst w) bs \<and> fw_n w = length bs \<and>
     (\<forall>lead. fw_leading w = Some lead \<longrightarrow> lead + fw_trailing w < 64)"

lemma high_window:
  assumes "l \<le> 64"
  shows "high l (push_bit (64 - l) x)" "hbits l (push_bit (64 - l) x) = ubits l x"
  using high_push[OF assms] hbits_push[OF assms] by auto

lemma div8_step: "a + j \<le> b + 8 \<Longrightarrow> b div 8 < m \<Longrightarrow> (a + j) div 8 \<le> m" for a b j m :: nat
  using div_le_mono[of "a + j" "b + 8" 8] by simp

lemma float_new_window_holds:
  assumes h: "holds dst bs" and len: "length bs div 8 < length dst" and v: "v \<noteq> 0"
  shows "\<exists>w'. float_new_window v (new_lead v) (trailing_zeros v) cur dst (length bs) w = Ok w' \<and>
    writes w' (bs @ window_bits v (new_lead v) (trailing_zeros v)) \<and> fw_n w' \<le> 8 * length (fw_dst w') \<and>
    fw_prev w' = cur \<and> fw_leading w' = Some (new_lead v) \<and> fw_trailing w' = trailing_zeros v"
proof -
  define lead trail sig where "lead = new_lead v" and "trail = trailing_zeros v" and "sig = 64 - lead - trail"
  have lt: "lead + trail < 64" "0 < sig" "sig \<le> 64" using fits_new[OF v] by (auto simp: lead_def trail_def sig_def)
  have sig': "64 - (lead + trail) = sig" by (simp add: sig_def)
  obtain d1 where d1: "or_at dst (length bs div 8) (drop_bit (length bs mod 8) 128) = Ok d1"
    "length d1 = length dst" "holds d1 (bs @ [True])"
    using or_one[OF h len] by blast
  let ?b1 = "bs @ [True]" and ?d1 = "grow_if ((length bs + 1 + 5) div 8) d1"
  have l1: "(length ?b1 + 5) div 8 < length ?d1"
    using div8_step[OF _ len, of "length bs" 6] d1(2) length_grow_if(1)[of _ d1] by simp
  have x5: "high 5 (push_bit 59 (of_nat lead))" "hbits 5 (push_bit 59 (of_nat lead)) = ubits 5 (of_nat lead :: u64)"
    using high_window[of 5 "of_nat lead"] by simp_all
  obtain d2 where d2: "float_put_small 5 (push_bit 59 (of_nat lead)) ?d1 (length bs + 1) = Ok (d2, length bs + 6)"
    "length d2 = length ?d1" "holds d2 (?b1 @ ubits 5 (of_nat lead :: u64))"
    using float_put_small_holds[of ?d1 ?b1 5 "push_bit 59 (of_nat lead)"] x5 d1(3) l1 by auto
  let ?b2 = "?b1 @ ubits 5 (of_nat lead :: u64)" and ?d2 = "grow_if ((length bs + 6 + 6) div 8) d2"
  have l2: "(length ?b2 + 6) div 8 < length ?d2"
    using div8_step[of "length bs" 12 "length bs + 6" "length d2"] l1 d2(2) length_grow_if(1)[of _ d2] by simp
  have x6: "high 6 (push_bit 58 (of_nat sig))" "hbits 6 (push_bit 58 (of_nat sig)) = ubits 6 (of_nat sig :: u64)"
    using high_window[of 6 "of_nat sig"] by simp_all
  obtain d3 where d3: "float_put_small 6 (push_bit 58 (of_nat sig)) ?d2 (length bs + 6) = Ok (d3, length bs + 12)"
    "length d3 = length ?d2" "holds d3 (?b2 @ ubits 6 (of_nat sig :: u64))"
    using float_put_small_holds[of ?d2 ?b2 6 "push_bit 58 (of_nat sig)"] x6 d2(3) l2 by auto
  let ?b3 = "?b2 @ ubits 6 (of_nat sig :: u64)" and ?d3 = "grow_while ((length bs + 12 + sig) div 8) d3"
  have l3: "length ?b3 div 8 < length ?d3"
    using length_grow_while(2)[of d3 "(length bs + 12 + sig) div 8"] l2 d3(2) by simp
  obtain d4 where d4: "float_put_value sig (push_bit (64 - sig) (drop_bit trail v)) ?d3 (length bs + 12) = Ok (d4, length bs + 12 + sig)"
    "holds d4 (?b3 @ ubits sig (drop_bit trail v))" "length bs + 12 + sig \<le> 8 * length d4"
    using float_put_value_holds[of ?d3 ?b3 sig "push_bit (64 - sig) (drop_bit trail v)"] high_window[OF lt(3)] d3(3) l3 lt
    by auto
  have "float_new_window v lead trail cur dst (length bs) w =
    Ok \<lparr>fw_dst = d4, fw_n = length bs + 12 + sig, fw_prev = cur, fw_leading = Some lead, fw_trailing = trail\<rparr>"
    using d1(1) d2(1) d3(1) d4(1) unfolding float_new_window_def
    by (simp add: Let_def sig' del: One_nat_def)
  moreover have "window_bits v lead trail =
    [True] @ ubits 5 (of_nat lead :: u64) @ ubits 6 (of_nat sig :: u64) @ ubits sig (drop_bit trail v)"
    unfolding window_bits_def Let_def sig_def ..
  ultimately show ?thesis using d4 lt unfolding lead_def[symmetric] trail_def[symmetric] by (simp add: writes_def)
qed

lemma float_encode_step_holds:
  assumes "writes w bs"
  shows "\<exists>w'. float_encode_step cur w = Ok w' \<and> writes w' (bs @ value_bits cur w) \<and> fw_prev w' = cur \<and>
    (fw_leading w', fw_trailing w') = next_window cur w \<and> (cur \<noteq> fw_prev w \<longrightarrow> fw_n w' \<le> 8 * length (fw_dst w'))"
proof (cases "cur = fw_prev w")
  case True
  then show ?thesis using assms holds_zero[of "fw_dst w" bs]
    by (auto simp: float_encode_step_def writes_def value_bits_def next_window_def)
next
  case False
  define v where "v = cur XOR fw_prev w"
  have v: "v \<noteq> 0" using False by (metis v_def xor.assoc xor_self_eq xor.right_neutral)
  have h: "holds (fw_dst w) bs" and n: "fw_n w = length bs" using assms by (auto simp: writes_def)
  let ?d0 = "grow_while (length bs div 8) (fw_dst w)"
  obtain d1 where d1: "or_at ?d0 (length bs div 8) (drop_bit (length bs mod 8) 128) = Ok d1"
    "length d1 = length ?d0" "holds d1 (bs @ [True])"
    using or_one[of ?d0 bs] h length_grow_while(1)[of "length bs div 8" "fw_dst w"] by auto
  let ?b1 = "bs @ [True]" and ?d1 = "grow_if ((3 + length bs) div 8) d1"
  have "(3 + length bs) div 8 < length ?d1"
    using div8_step[of 3 "length bs" "length bs" "length d1"] length_grow_if(1)[of "(3 + length bs) div 8" d1] d1(2)
      length_grow_while(1)[of "length bs div 8" "fw_dst w"] by simp
  then have len: "(length bs + 1) div 8 < length ?d1" "(length bs + 2) div 8 < length ?d1"
    using div_le_mono[of "length bs + 1" "3 + length bs" 8] div_le_mono[of "length bs + 2" "3 + length bs" 8] by linarith+
  have h1: "holds ?d1 ?b1" using d1(3) by simp
  show ?thesis
  proof (cases "reuse v w")
    case True
    then obtain lead where lead: "fw_leading w = Some lead" "lead \<le> new_lead v" "fw_trailing w \<le> trailing_zeros v"
      by (auto simp: reuse_def split: option.splits)
    define l where "l = 64 - lead - fw_trailing w"
    have l: "0 < l" "l \<le> 64" using assms lead(1) by (auto simp: writes_def l_def)
    let ?d2 = "grow_while ((3 + length bs) div 8) ?d1" and ?b2 = "bs @ [True, False]"
    have "holds ?d2 ?b2" using holds_zero[OF h1] by simp
    moreover have "length ?b2 div 8 < length ?d2"
      using len(2) length_grow_while(2)[of ?d1 "(3 + length bs) div 8"] by simp
    ultimately obtain d3 where d3:
      "float_put_value l (push_bit (64 - l) (drop_bit (fw_trailing w) v)) ?d2 (Suc (Suc (length bs))) = Ok (d3, Suc (Suc (length bs)) + l)"
      "holds d3 (?b2 @ ubits l (drop_bit (fw_trailing w) v))" "Suc (Suc (length bs)) + l \<le> 8 * length d3"
      using float_put_value_holds[of ?d2 ?b2 l "push_bit (64 - l) (drop_bit (fw_trailing w) v)"] high_window[OF l(2)] l
      by auto
    have l': "64 - (lead + fw_trailing w) = l" by (simp add: l_def)
    have "float_encode_step cur w = Ok (w\<lparr>fw_dst := d3, fw_n := Suc (Suc (length bs)) + l, fw_prev := cur\<rparr>)"
      using d1(1) d3(1) v lead n unfolding float_encode_step_def new_lead_def
      by (simp add: Let_def l' flip: v_def)
    then show ?thesis using d3 assms lead(1) v True
      by (simp add: writes_def value_bits_def next_window_def l' Let_def flip: v_def)
  next
    case reuse: False
    obtain w' where w': "float_new_window v (new_lead v) (trailing_zeros v) cur ?d1 (length ?b1) w = Ok w'"
      "writes w' (?b1 @ window_bits v (new_lead v) (trailing_zeros v))" "fw_n w' \<le> 8 * length (fw_dst w')"
      "fw_prev w' = cur" "fw_leading w' = Some (new_lead v)" "fw_trailing w' = trailing_zeros v"
      using float_new_window_holds[OF h1 _ v, of cur w] len(1) by auto
    have "float_encode_step cur w = Ok w'"
      using d1(1) w'(1) v reuse n unfolding float_encode_step_def new_lead_def reuse_def
      by (auto simp: Let_def simp flip: v_def split: option.splits)
    then show ?thesis using w' v reuse by (simp add: value_bits_def next_window_def Let_def flip: v_def)
  qed
qed

text \<open>The bits of a sequence of values; only the previous value and the window of the state matter.\<close>

definition adv :: "u64 \<Rightarrow> FloatWriter \<Rightarrow> FloatWriter" where
  "adv cur w = w\<lparr>fw_prev := cur, fw_leading := fst (next_window cur w), fw_trailing := snd (next_window cur w)\<rparr>"

fun all_bits :: "u64 list \<Rightarrow> FloatWriter \<Rightarrow> bool list" where
  "all_bits [] w = []"
| "all_bits (x # xs) w = value_bits x w @ all_bits xs (adv x w)"

definition same_window :: "FloatWriter \<Rightarrow> FloatWriter \<Rightarrow> bool" where
  "same_window w w' \<longleftrightarrow> fw_prev w = fw_prev w' \<and> fw_leading w = fw_leading w' \<and> fw_trailing w = fw_trailing w'"

lemma same_window_reuse: "same_window w w' \<Longrightarrow> reuse v w = reuse v w'"
  by (auto simp: same_window_def reuse_def split: option.split)

lemma same_window_bits:
  assumes "same_window w w'"
  shows "value_bits x w = value_bits x w'" "same_window (adv x w) (adv x w')"
  using assms same_window_reuse[OF assms]
  by (simp_all add: same_window_def value_bits_def adv_def next_window_def Let_def)

lemma all_bits_cong: "same_window w w' \<Longrightarrow> all_bits xs w = all_bits xs w'"
proof (induction xs arbitrary: w w')
  case (Cons x xs)
  then show ?case using same_window_bits[of w w' x] by auto
qed simp

lemma float_encode_loop_holds:
  "writes w bs \<Longrightarrow> \<forall>x \<in> set src. x \<noteq> SENTINEL \<Longrightarrow>
    \<exists>w'. float_encode_loop src w = Ok w' \<and> writes w' (bs @ all_bits (src @ [SENTINEL]) w) \<and>
      (last (fw_prev w # src) \<noteq> SENTINEL \<longrightarrow> fw_n w' \<le> 8 * length (fw_dst w'))"
proof (induction src arbitrary: w bs)
  case Nil
  then show ?case using float_encode_step_holds[OF Nil.prems(1), of SENTINEL] by auto
next
  case (Cons x src)
  obtain w1 where w1: "float_encode_step x w = Ok w1" "writes w1 (bs @ value_bits x w)" "fw_prev w1 = x"
    "(fw_leading w1, fw_trailing w1) = next_window x w"
    using float_encode_step_holds[OF Cons.prems(1), of x] by blast
  have same: "same_window w1 (adv x w)"
    using w1(3) w1(4)[symmetric] by (simp add: same_window_def adv_def)
  obtain w2 where "float_encode_loop src w1 = Ok w2" "writes w2 ((bs @ value_bits x w) @ all_bits (src @ [SENTINEL]) w1)"
    "last (fw_prev w1 # src) \<noteq> SENTINEL \<longrightarrow> fw_n w2 \<le> 8 * length (fw_dst w2)"
    using Cons.IH[OF w1(2)] Cons.prems(2) by auto
  then show ?case using w1 Cons.prems(2) all_bits_cong[OF same, of "src @ [SENTINEL]"]
    by (auto simp: is_sentinel_f64_def)
qed

subsection \<open>The reader\<close>

definition src_bits :: "bytes \<Rightarrow> bool list" where
  "src_bits src = concat (map byte_bits src)"

lemma length_src_bits [simp]: "length (src_bits bs) = 8 * length bs"
  by (simp add: src_bits_def length_concat_byte_bits)

lemma nth_src_bits: "p < 8 * length bs \<Longrightarrow> src_bits bs ! p = gbit bs p"
  by (simp add: src_bits_def nth_concat_byte_bits)

lemma src_bits_append: "src_bits (a @ b) = src_bits a @ src_bits b"
  by (simp add: src_bits_def)

lemma byte_bits_inject: "(\<forall>j\<in>{0..<8}. bit a (7 - j) = bit b (7 - j)) \<Longrightarrow> a = b" for a b :: u8
proof (rule bit_word_eqI)
  fix i assume h: "\<forall>j\<in>{0..<8}. bit a (7 - j) = bit b (7 - j)" and "i < LENGTH(8)"
  then have "7 - i \<in> {0..<8}" "7 - (7 - i) = i" by auto
  then show "bit a i = bit b i" using bspec[OF h, of "7 - i"] by simp
qed

lemma src_bits_inject: "length a = length b \<Longrightarrow> src_bits a = src_bits b \<Longrightarrow> a = b"
  by (induction a b rule: list_induct2) (auto simp: src_bits_def simp del: upt_rec_numeral upt_Suc dest: byte_bits_inject)

lemma src_bits_Nil [simp]: "src_bits [] = []"
  by (simp add: src_bits_def)

text \<open>\<^verbatim>\<open>bs\<close> are the bits still to be read: those in the cache, then those of the bytes behind it.\<close>

definition reads :: "FloatReader \<Rightarrow> bytes \<Rightarrow> bool list \<Rightarrow> bool" where
  "reads r src bs \<longleftrightarrow> unat (fr_valid r) \<le> 64 \<and> fr_i r \<le> length src \<and>
     bs = hbits (unat (fr_valid r)) (fr_cached r) @ src_bits (drop (fr_i r) src)"

lemma bit_rotl:
  assumes "k \<le> 64" "j < 64"
  shows "bit (word_rotl k (c :: u64)) j = (if j < k then bit c (64 - k + j) else bit c (j - k))"
proof (cases "k = 64")
  case True
  then show ?thesis using assms by (simp add: bit_word_rotl_iff)
next
  case False
  have "(j + (64 - k)) mod 64 = (if j < k then 64 - k + j else j - k)"
  proof (cases "j < k")
    case True
    then have "j + (64 - k) < 64" using assms by linarith
    then show ?thesis using True by (simp add: add.commute)
  next
    case False
    then obtain i where i: "j = k + i" using le_Suc_ex[of k j] by auto
    then have "j + (64 - k) = 64 + i" using assms by simp
    then show ?thesis using i assms by simp
  qed
  then show ?thesis using False assms by (simp add: bit_word_rotl_iff)
qed

lemma rotl_top: "k \<le> v \<Longrightarrow> v \<le> 64 \<Longrightarrow> hbits (v - k) (word_rotl k c) = drop k (hbits v c)"
  by (intro nth_equalityI) (auto simp: bit_rotl add.commute)

lemma rotl_low: "k \<le> 64 \<Longrightarrow> ubits k (word_rotl k c) = hbits k (c :: u64)"
  by (intro nth_equalityI) (auto simp: bit_rotl intro: arg_cong[of _ _ "bit c"])

lemma take_hbits: "k \<le> v \<Longrightarrow> take k (hbits v c) = hbits k c"
  by (intro nth_equalityI) auto

lemma hbits_from_be8: "length bs = 8 \<Longrightarrow> hbits 64 (from_be bs) = src_bits bs"
  by (intro nth_equalityI) (auto simp: nth_src_bits bit_from_be)

lemma hbits_rotr:
  assumes "length bs < 8"
  shows "hbits (8 * length bs) (word_rotr (8 * length bs) (from_be bs :: u64)) = src_bits bs"
proof (rule nth_equalityI)
  fix j assume "j < length (hbits (8 * length bs) (word_rotr (8 * length bs) (from_be bs :: u64)))"
  then have j: "j < 8 * length bs" by simp
  have "(63 - j + 8 * length bs) mod 64 = 8 * length bs - 1 - j" using j assms by (simp add: mod_if)
  then show "hbits (8 * length bs) (word_rotr (8 * length bs) (from_be bs :: u64)) ! j = src_bits bs ! j"
    using j assms by (auto simp: bit_word_rotr_iff bit_from_be nth_src_bits)
qed simp

lemma float_refill_reads:
  assumes "fr_i r < length src"
  shows "\<exists>c v k. float_refill src r = Ok (r\<lparr>fr_cached := c, fr_valid := v, fr_i := fr_i r + k\<rparr>) \<and>
    unat v \<le> 64 \<and> fr_i r + k \<le> length src \<and> (unat v = 64 \<or> unat v = 8 * (length src - fr_i r)) \<and>
    src_bits (drop (fr_i r) src) = hbits (unat v) c @ src_bits (drop (fr_i r + k) src)"
proof (cases "8 \<le> length src - fr_i r")
  case True
  have "drop (fr_i r) src = take 8 (drop (fr_i r) src) @ drop (fr_i r + 8) src"
    by (metis append_take_drop_id drop_drop add.commute)
  from arg_cong[OF this, of src_bits] have "src_bits (drop (fr_i r) src) =
      hbits 64 (from_be (take 8 (drop (fr_i r) src))) @ src_bits (drop (fr_i r + 8) src)"
    using True hbits_from_be8[of "take 8 (drop (fr_i r) src)"] by (simp add: src_bits_append)
  then show ?thesis using True
    by (intro exI[of _ "from_be (take 8 (drop (fr_i r) src))"] exI[of _ 64] exI[of _ 8])
      (simp add: float_refill_def float_refill_cache_def)
next
  case False
  define bs where "bs = drop (fr_i r) src"
  have len: "length bs < 8" "0 < length bs" "length src - fr_i r = length bs" using False assms by (auto simp: bs_def)
  have v: "unat (of_nat (length bs * 8) :: u8) = length bs * 8"
    by (rule of_nat_inverse) (use len(1) in simp_all)
  have "float_refill src r = Ok (r\<lparr>fr_cached := word_rotr (length bs * 8) (from_be bs),
      fr_valid := of_nat (length bs * 8), fr_i := fr_i r + length bs\<rparr>)"
    using len v unfolding float_refill_def float_refill_cache_def Let_def bs_def[symmetric]
    by (simp del: of_nat_mult)
  moreover have "fr_i r + length bs = length src" using len(3) assms by simp
  moreover have "src_bits bs = hbits (length bs * 8) (word_rotr (length bs * 8) (from_be bs))"
    using hbits_rotr[OF len(1)] by (simp add: mult.commute)
  ultimately show ?thesis using v len
    by (intro exI[of _ "word_rotr (length bs * 8) (from_be bs)"] exI[of _ "of_nat (length bs * 8)"] exI[of _ "length bs"])
      (simp del: of_nat_mult flip: bs_def)
qed

lemma BIT_MASK_eq: "BIT_MASK = map (\<lambda>i. mask (if i = 0 then 64 else i)) [0..<64]"
  by code_simp

lemma index_BIT_MASK:
  assumes "0 < unat (b :: u8)" "unat b \<le> 64"
  shows "index BIT_MASK (unat (b AND 0x3f)) = Ok (mask (unat b))"
proof -
  have "b AND 0x3f = take_bit 6 b" by (simp add: take_bit_eq_mask mask_eq_exp_minus_1)
  then have "unat (b AND 0x3f) = take_bit 6 (unat b)" by (simp only: unsigned_take_bit_eq)
  then have u: "unat (b AND 0x3f) = unat b mod 64" by (simp only: take_bit_eq_mod) simp
  have "(if unat b mod 64 = 0 then 64 else unat b mod 64) = unat b"
  proof (cases "unat b = 64")
    case False
    then have "unat b mod 64 = unat b" using assms(2) by simp
    then show ?thesis using assms(1) by simp
  qed simp
  then show ?thesis unfolding u BIT_MASK_eq by (auto simp: index_def simp del: upt_rec_numeral split: if_splits)
qed

lemma unat_sub_u8: "k \<le> unat v \<Longrightarrow> unat (v - of_nat k :: u8) = unat v - k"
proof -
  assume k: "k \<le> unat v"
  have "unat v < 256" by (rule order.strict_trans2[OF unsigned_less]) simp
  then have "unat (of_nat k :: u8) = k" using k by (intro of_nat_inverse) auto
  then show ?thesis using k by (simp add: unat_sub word_le_nat_alt)
qed

lemma reads_valid:
  assumes "reads r src bs" "k \<le> unat (fr_valid r)" "0 < k"
  shows "reads (r\<lparr>fr_valid := fr_valid r - of_nat k, fr_cached := word_rotl k (fr_cached r)\<rparr>) src (drop k bs)"
    "ubits k (word_rotl k (fr_cached r)) = take k bs"
proof -
  have v: "unat (fr_valid r) \<le> 64" "k \<le> 64" using assms by (auto simp: reads_def)
  then show "reads (r\<lparr>fr_valid := fr_valid r - of_nat k, fr_cached := word_rotl k (fr_cached r)\<rparr>) src (drop k bs)"
    using assms rotl_top[OF assms(2) v(1)] by (simp add: reads_def unat_sub_u8)
  show "ubits k (word_rotl k (fr_cached r)) = take k bs"
    using assms v by (simp add: reads_def rotl_low take_hbits)
qed

lemma split_low:
  assumes "va < k" "k \<le> 64" "0 < va \<Longrightarrow> s = word_rotl k c"
  shows "ubits k (s AND NOT (mask (k - va)) OR word_rotl (k - va) c2 AND mask (k - va)) = hbits va c @ hbits (k - va) (c2 :: u64)"
proof (rule nth_equalityI)
  fix j assume "j < length (ubits k (s AND NOT (mask (k - va)) OR word_rotl (k - va) c2 AND mask (k - va)))"
  then have j: "j < k" by simp
  show "ubits k (s AND NOT (mask (k - va)) OR word_rotl (k - va) c2 AND mask (k - va)) ! j = (hbits va c @ hbits (k - va) c2) ! j"
  proof (cases "j < va")
    case True
    then have "k - 1 - j < 64" "\<not> k - 1 - j < k - va" "64 - k + (k - 1 - j) = 63 - j" using assms j by auto
    then show ?thesis using True j assms
      by (simp add: nth_append bit_or_iff bit_and_iff bit_not_iff bit_mask_iff bit_rotl)
  next
    case False
    then have "k - 1 - j < 64" "k - 1 - j < k - va" "64 - (k - va) + (k - 1 - j) = 63 - (j - va)" "k - va \<le> 64" using assms j by auto
    then show ?thesis using False j assms
      by (simp add: nth_append bit_or_iff bit_and_iff bit_not_iff bit_mask_iff bit_rotl)
  qed
qed (use assms in simp)

lemma refill_take:
  assumes "reads r src bs" "unat (fr_valid r) < k" "k \<le> length bs" "k \<le> 64"
  defines "m \<equiv> k - unat (fr_valid r)"
  shows "\<exists>c v i. float_refill src r = Ok (r\<lparr>fr_cached := c, fr_valid := v, fr_i := i\<rparr>) \<and> m \<le> unat v \<and>
    take k bs = hbits (unat (fr_valid r)) (fr_cached r) @ hbits m c \<and>
    (\<forall>r'. fr_cached r' = word_rotl m c \<longrightarrow> fr_valid r' = v - of_nat m \<longrightarrow> fr_i r' = i \<longrightarrow> reads r' src (drop k bs))"
proof -
  let ?va = "unat (fr_valid r)"
  have bs: "bs = hbits ?va (fr_cached r) @ src_bits (drop (fr_i r) src)" using assms(1) by (simp add: reads_def)
  have m: "m \<le> length (src_bits (drop (fr_i r) src))" "0 < m" "m \<le> 64"
    using assms(2-4) bs by (auto simp: m_def)
  then have "fr_i r < length src" by (cases "fr_i r < length src") auto
  then obtain c v j where c: "float_refill src r = Ok (r\<lparr>fr_cached := c, fr_valid := v, fr_i := fr_i r + j\<rparr>)"
    "unat v \<le> 64" "fr_i r + j \<le> length src" "unat v = 64 \<or> unat v = 8 * (length src - fr_i r)"
    "src_bits (drop (fr_i r) src) = hbits (unat v) c @ src_bits (drop (fr_i r + j) src)"
    using float_refill_reads[of r src] by blast
  have mv: "m \<le> unat v" using c(4) m by auto
  have take: "take k bs = hbits ?va (fr_cached r) @ hbits m c"
    using bs c(5) assms(2) mv take_hbits[OF mv, of c] by (simp add: m_def)
  have "drop k bs = hbits (unat v - m) (word_rotl m c) @ src_bits (drop (fr_i r + j) src)"
    using bs c(5) assms(2) mv rotl_top[OF mv c(2), of c] by (simp add: m_def)
  then have "reads r' src (drop k bs)"
    if "fr_cached r' = word_rotl m c" "fr_valid r' = v - of_nat m" "fr_i r' = fr_i r + j" for r'
    using that c(2,3) mv by (simp add: reads_def unat_sub_u8)
  then show ?thesis using c(1) mv take by blast
qed

lemma float_value_bits_reads:
  assumes "reads r src bs" "fr_meaningful_n r = of_nat k" "0 < k" "k \<le> 64" "k \<le> length bs"
  shows "\<exists>r' x. float_value_bits oc src r = Ok (r', x) \<and> reads r' src (drop k bs) \<and> ubits k x = take k bs \<and>
    fr_val r' = fr_val r \<and> fr_trailing_n r' = fr_trailing_n r \<and> fr_meaningful_n r' = fr_meaningful_n r \<and> fr_dst r' = fr_dst r"
proof -
  have mn: "unat (fr_meaningful_n r) = k" unfolding assms(2) by (rule of_nat_inverse) (use assms(4) in simp_all)
  show ?thesis
  proof (cases "k \<le> unat (fr_valid r)")
    case True
    then have "fr_meaningful_n r \<le> fr_valid r" using mn by (simp add: word_le_nat_alt)
    then show ?thesis using reads_valid[OF assms(1) True assms(3)] mn assms(2)
      by (simp add: float_value_bits_def sub_u8_fits Let_def)
  next
    case False
    define va where "va = unat (fr_valid r)"
    have va: "va < k" using False by (simp add: va_def)
    obtain c v i where c: "float_refill src r = Ok (r\<lparr>fr_cached := c, fr_valid := v, fr_i := i\<rparr>)"
      "k - va \<le> unat v" "take k bs = hbits va (fr_cached r) @ hbits (k - va) c"
      "\<forall>r'. fr_cached r' = word_rotl (k - va) c \<longrightarrow> fr_valid r' = v - of_nat (k - va) \<longrightarrow> fr_i r' = i \<longrightarrow> reads r' src (drop k bs)"
      using refill_take[OF assms(1) _ assms(5,4)] False unfolding va_def by auto
    let ?s = "if 0 < va then word_rotl k (fr_cached r) else 0"
    have mb: "(of_nat (k - va) :: u8) = (if 0 < va then fr_meaningful_n r - fr_valid r else fr_meaningful_n r)"
      using assms(2) va unfolding va_def by (auto simp: unat_eq_0)
    have um: "unat (of_nat (k - va) :: u8) = k - va" by (rule of_nat_inverse) (use assms(4) in simp_all)
    have bm: "index BIT_MASK (unat (of_nat (k - va) AND 0x3f :: u8)) = (Ok (mask (k - va)) :: (string, u64) result)"
    proof -
      have "0 < unat (of_nat (k - va) :: u8)" "unat (of_nat (k - va) :: u8) \<le> 64"
        unfolding um using va assms(4) by linarith+
      from index_BIT_MASK[OF this] show ?thesis unfolding um .
    qed
    have pos: "0 < va \<longleftrightarrow> 0 < fr_valid r" unfolding va_def by (simp add: unat_gt_0 word_gt_0)
    have sub: "sub_u8 oc (fr_meaningful_n r) (fr_valid r) = (Ok (fr_meaningful_n r - fr_valid r) :: (string, u8) result)"
      using mn va by (intro sub_u8_fits) (simp add: word_le_nat_alt va_def)
    have "float_value_bits oc src r = Ok (r\<lparr>fr_cached := word_rotl (k - va) c, fr_valid := v - of_nat (k - va), fr_i := i\<rparr>,
        ?s AND NOT (mask (k - va)) OR word_rotl (k - va) c AND mask (k - va))"
    proof -
      have "\<not> fr_meaningful_n r \<le> fr_valid r" using False mn by (simp add: word_le_nat_alt)
      then show ?thesis using c(1) bm um mn sub pos mb unfolding float_value_bits_def
        by (cases "0 < va") (simp_all add: Let_def del: of_nat_diff)
    qed
    moreover have "ubits k (?s AND NOT (mask (k - va)) OR word_rotl (k - va) c AND mask (k - va)) = take k bs"
      using split_low[OF va assms(4), of ?s "fr_cached r" c] c(3) by simp
    ultimately show ?thesis using c(4) by simp
  qed
qed

lemma float_window_bits_reads:
  assumes "reads r src bs" "11 \<le> length bs"
  shows "\<exists>r' x. float_window_bits oc src r = Ok (r', x) \<and> reads r' src (drop 11 bs) \<and> ubits 11 x = take 11 bs \<and>
    fr_val r' = fr_val r \<and> fr_dst r' = fr_dst r"
proof (cases "11 \<le> unat (fr_valid r)")
  case True
  then have "11 \<le> fr_valid r" by (simp add: word_le_nat_alt)
  then show ?thesis using reads_valid[OF assms(1) True] by (simp add: float_window_bits_def sub_u8_fits Let_def)
next
  case False
  define va where "va = unat (fr_valid r)"
  have va: "va < 11" using False by (simp add: va_def)
  obtain c v i where c: "float_refill src r = Ok (r\<lparr>fr_cached := c, fr_valid := v, fr_i := i\<rparr>)"
    "11 - va \<le> unat v" "take 11 bs = hbits va (fr_cached r) @ hbits (11 - va) c"
    "\<forall>r'. fr_cached r' = word_rotl (11 - va) c \<longrightarrow> fr_valid r' = v - of_nat (11 - va) \<longrightarrow> fr_i r' = i \<longrightarrow> reads r' src (drop 11 bs)"
    using refill_take[OF assms(1) _ assms(2)] False unfolding va_def by auto
  let ?s = "if 0 < va then word_rotl 11 (fr_cached r) else 0"
  have mb: "(of_nat (11 - va) :: u8) = (if 0 < va then 11 - fr_valid r else 11)"
    using va unfolding va_def by (auto simp: unat_eq_0)
  have um: "unat (of_nat (11 - va) :: u8) = 11 - va" by (rule of_nat_inverse) simp_all
  have "0 < unat (of_nat (11 - va) :: u8)" "unat (of_nat (11 - va) :: u8) \<le> 64" unfolding um using va by linarith+
  from index_BIT_MASK[OF this]
  have bm: "index BIT_MASK (unat (of_nat (11 - va) AND 0x3f :: u8)) = (Ok (mask (11 - va)) :: (string, u64) result)"
    unfolding um .
  have pos: "0 < va \<longleftrightarrow> 0 < fr_valid r" unfolding va_def by (simp add: unat_gt_0 word_gt_0)
  have sub: "sub_u8 oc 11 (fr_valid r) = (Ok (11 - fr_valid r) :: (string, u8) result)"
    using va by (intro sub_u8_fits) (simp add: word_le_nat_alt va_def)
  have sub2: "sub_u8 oc v (of_nat (11 - va)) = (Ok (v - of_nat (11 - va)) :: (string, u8) result)"
    using c(2) um by (intro sub_u8_fits) (simp add: word_le_nat_alt)
  have "\<not> 11 \<le> fr_valid r" using False by (simp add: word_le_nat_alt)
  then have "float_window_bits oc src r = Ok (r\<lparr>fr_cached := word_rotl (11 - va) c, fr_valid := v - of_nat (11 - va), fr_i := i\<rparr>,
      ?s AND NOT (mask (11 - va)) OR word_rotl (11 - va) c AND mask (11 - va))"
    using c(1) bm um sub sub2 pos mb unfolding float_window_bits_def
    by (cases "0 < va") (simp_all add: Let_def del: of_nat_diff)
  moreover have "ubits 11 (?s AND NOT (mask (11 - va)) OR word_rotl (11 - va) c AND mask (11 - va)) = take 11 bs"
    using split_low[OF va, of ?s "fr_cached r" c] c(3) by simp
  ultimately show ?thesis using c(4) by simp
qed

lemma float_read_bit_reads:
  assumes "reads r src (b # bs)"
  shows "\<exists>r'. float_read_bit oc src r = Ok (r', b) \<and> reads r' src bs \<and> fr_val r' = fr_val r \<and> fr_dst r' = fr_dst r \<and>
    fr_trailing_n r' = fr_trailing_n r \<and> fr_meaningful_n r' = fr_meaningful_n r"
proof -
  obtain r1 where r1: "(if fr_valid r = 0 then float_refill src r else Ok r) = Ok r1" "reads r1 src (b # bs)"
    "0 < unat (fr_valid r1)" "fr_val r1 = fr_val r" "fr_dst r1 = fr_dst r" "fr_trailing_n r1 = fr_trailing_n r"
    "fr_meaningful_n r1 = fr_meaningful_n r"
  proof (cases "fr_valid r = 0")
    case True
    then have bs: "b # bs = src_bits (drop (fr_i r) src)" using assms by (simp add: reads_def)
    then have "fr_i r < length src" by (cases "fr_i r < length src") auto
    then obtain c v j where c: "float_refill src r = Ok (r\<lparr>fr_cached := c, fr_valid := v, fr_i := fr_i r + j\<rparr>)"
      "unat v \<le> 64" "fr_i r + j \<le> length src" "unat v = 64 \<or> unat v = 8 * (length src - fr_i r)"
      "src_bits (drop (fr_i r) src) = hbits (unat v) c @ src_bits (drop (fr_i r + j) src)"
      using float_refill_reads[of r src] by blast
    show ?thesis
      by (rule that[of "r\<lparr>fr_cached := c, fr_valid := v, fr_i := fr_i r + j\<rparr>"])
        (use True c bs \<open>fr_i r < length src\<close> in \<open>auto simp: reads_def\<close>)
  next
    case False
    then show ?thesis using that[of r] assms by (simp add: unat_gt_0)
  qed
  let ?c = "word_rotl 1 (fr_cached r1)"
  have "1 \<le> fr_valid r1" using r1(3) by (simp add: word_le_nat_alt)
  then have sub: "sub_u8 oc (fr_valid r1) 1 = (Ok (fr_valid r1 - 1) :: (string, u8) result)" by (rule sub_u8_fits)
  have "reads (r1\<lparr>fr_valid := fr_valid r1 - 1, fr_cached := ?c\<rparr>) src bs" "bit ?c 0 = b"
    using reads_valid[OF r1(2), of 1] r1(3) by (simp_all add: ubits_def)
  moreover have "?c AND 1 \<noteq> 0 \<longleftrightarrow> bit ?c 0" by (simp add: and_one_eq odd_iff_mod_2_eq_one bit_0)
  ultimately show ?thesis using r1 sub by (simp add: float_read_bit_def Let_def)
qed

lemma ubits_eq_take_bit:
  assumes "ubits k x = ubits k (y :: 'a::len word)"
  shows "take_bit k x = take_bit k y"
proof (rule bit_word_eqI)
  fix j assume "j < LENGTH('a)"
  show "bit (take_bit k x) j = bit (take_bit k y) j"
  proof (cases "j < k")
    case True
    then have "ubits k x ! (k - 1 - j) = bit x j" "ubits k y ! (k - 1 - j) = bit y j" by simp_all
    then show ?thesis using assms True by (simp add: bit_take_bit_iff)
  qed (simp add: bit_take_bit_iff)
qed

lemma bit_nat_less:
  assumes "bit (n :: nat) j" "n < 2 ^ k"
  shows "j < k"
proof -
  have "bit (take_bit k n) j" using assms by (simp add: take_bit_nat_eq_self)
  then show ?thesis by (simp add: bit_take_bit_iff)
qed

text \<open>The two counts that the eleven bits of a window stand for.\<close>

lemma window_counts:
  assumes "ubits 11 (x :: u64) = ubits 5 (of_nat lead :: u64) @ ubits 6 (of_nat sig :: u64)" "lead < 32" "sig \<le> 64"
  shows "(ucast (drop_bit 6 (x AND 0x7ff)) :: u8) AND 0x1f = of_nat lead"
    "(ucast ((x AND 0x7ff) AND 0x3f) :: u8) = of_nat (sig mod 64)"
proof -
  have x: "bit x j = (if j < 6 then bit (of_nat sig :: u64) j else bit (of_nat lead :: u64) (j - 6))" if "j < 11" for j
  proof -
    have "ubits 11 x ! (10 - j) = bit x j" using that by simp
    moreover have "(ubits 5 (of_nat lead :: u64) @ ubits 6 (of_nat sig :: u64)) ! (10 - j) =
        (if j < 6 then bit (of_nat sig :: u64) j else bit (of_nat lead :: u64) (j - 6))"
      using that by (auto simp: nth_append intro: arg_cong[of _ _ "bit _"])
    ultimately show ?thesis using assms(1) by simp
  qed
  have m: "(0x7ff :: u64) = mask 11" "(0x3f :: u64) = mask 6" "(0x1f :: u8) = mask 5"
    by (simp_all add: mask_eq_exp_minus_1)
  show "(ucast (drop_bit 6 (x AND 0x7ff)) :: u8) AND 0x1f = of_nat lead"
    unfolding m
  proof (rule bit_word_eqI)
    fix j :: nat assume "j < LENGTH(8)"
    then show "bit ((ucast (drop_bit 6 (x AND mask 11)) :: u8) AND mask 5) j = bit (of_nat lead :: u8) j"
      using x[of "j + 6"] bit_nat_less[of lead j 5] assms(2)
      by (auto simp: bit_and_iff bit_mask_iff bit_ucast_iff bit_drop_bit_eq bit_of_nat_iff add.commute)
  qed
  show "(ucast ((x AND 0x7ff) AND 0x3f) :: u8) = of_nat (sig mod 64)"
    unfolding m
  proof (rule bit_word_eqI)
    fix j :: nat assume j: "j < LENGTH(8)"
    have s: "bit (sig mod 64) j \<longleftrightarrow> j < 6 \<and> bit sig j"
      using bit_take_bit_iff[of 6 sig j] by (simp add: take_bit_eq_mod)
    show "bit (ucast ((x AND mask 11) AND mask 6) :: u8) j = bit (of_nat (sig mod 64) :: u8) j"
      using x[of j] j
      by (auto simp: bit_and_iff bit_mask_iff bit_ucast_iff bit_of_nat_iff s)
  qed
qed

lemma float_read_window_reads:
  assumes "reads r src (ubits 5 (of_nat lead :: u64) @ ubits 6 (of_nat sig :: u64) @ rest)"
    and "lead < 32" "0 < sig" "lead + sig \<le> 64"
  shows "\<exists>r'. float_read_window oc src r = Ok r' \<and> reads r' src rest \<and> fr_val r' = fr_val r \<and> fr_dst r' = fr_dst r \<and>
    fr_meaningful_n r' = of_nat sig \<and> fr_trailing_n r' = of_nat (64 - lead - sig)"
proof -
  obtain r1 x where r1: "float_window_bits oc src r = Ok (r1, x)" "reads r1 src rest"
    "ubits 11 x = ubits 5 (of_nat lead :: u64) @ ubits 6 (of_nat sig :: u64)" "fr_val r1 = fr_val r" "fr_dst r1 = fr_dst r"
    using float_window_bits_reads[OF assms(1), of oc] by auto
  have sig: "sig \<le> 64" using assms(4) by linarith
  note cnt = window_counts[OF r1(3) assms(2) sig]
  have eq: "float_read_window oc src r = (if (of_nat (sig mod 64) :: u8) > 0 then
      rbind (sub_u8 oc 64 (of_nat lead)) (\<lambda>t. rbind (sub_u8 oc t (of_nat (sig mod 64))) (\<lambda>t.
        Ok (r1\<lparr>fr_trailing_n := t, fr_meaningful_n := of_nat (sig mod 64)\<rparr>)))
      else Ok (r1\<lparr>fr_trailing_n := 0, fr_meaningful_n := 64\<rparr>))"
    by (simp only: float_read_window_def Let_def r1(1) rbind.simps prod.case cnt)
  have ul: "unat (of_nat lead :: u8) = lead" by (rule of_nat_inverse) (use assms(2) in simp_all)
  show ?thesis
  proof (cases "sig = 64")
    case True
    then have "lead = 0" using assms(4) by simp
    then show ?thesis using r1 True by (simp add: eq reads_def)
  next
    case False
    then have m: "sig mod 64 = sig" "sig < 64" using sig by auto
    have us: "unat (of_nat sig :: u8) = sig" by (rule of_nat_inverse) (use m in simp_all)
    have "0 < (of_nat sig :: u8)" using us assms(3) by (metis word_gt_0 unat_0 less_irrefl)
    moreover have "sub_u8 oc 64 (of_nat lead) = (Ok (64 - of_nat lead) :: (string, u8) result)"
      using ul assms(2) by (intro sub_u8_fits) (simp add: word_le_nat_alt)
    moreover have "unat (64 - of_nat lead :: u8) = 64 - lead" using unat_sub_u8[of lead 64] assms(2) by simp
    then have "sub_u8 oc (64 - of_nat lead) (of_nat sig) = (Ok (64 - of_nat lead - of_nat sig) :: (string, u8) result)"
      using us assms(4) by (intro sub_u8_fits) (simp add: word_le_nat_alt)
    moreover have "(64 - of_nat lead - of_nat sig :: u8) = of_nat (64 - lead - sig)"
      using assms(4) by simp
    ultimately show ?thesis using r1 m(1) by (simp add: eq reads_def)
  qed
qed

lemma float_read_value_reads:
  assumes "reads r src (ubits k y @ rest)" "fr_meaningful_n r = of_nat k" "fr_trailing_n r = of_nat t"
    and "0 < k" "k \<le> 64" "t < 64"
  shows "\<exists>r'. float_read_value oc src r = Ok r' \<and> reads r' src rest \<and>
    fr_val r' = fr_val r XOR push_bit t (take_bit k (y :: u64)) \<and> fr_dst r' = fr_dst r \<and>
    fr_meaningful_n r' = of_nat k \<and> fr_trailing_n r' = of_nat t"
proof -
  obtain r1 x where r1: "float_value_bits oc src r = Ok (r1, x)" "reads r1 src rest" "ubits k x = ubits k y"
    "fr_val r1 = fr_val r" "fr_trailing_n r1 = of_nat t" "fr_meaningful_n r1 = of_nat k" "fr_dst r1 = fr_dst r"
    using float_value_bits_reads[OF assms(1,2,4,5), of oc] assms(2,3) by auto
  have uk: "unat (of_nat k :: u8) = k" by (rule of_nat_inverse) (use assms(5) in simp_all)
  have "0 < unat (of_nat k :: u8)" "unat (of_nat k :: u8) \<le> 64" unfolding uk using assms(4,5) by auto
  from index_BIT_MASK[OF this]
  have bm: "index BIT_MASK (unat (of_nat k AND 0x3f :: u8)) = (Ok (mask k) :: (string, u64) result)" unfolding uk .
  have "(of_nat t :: u8) AND 0x3f = take_bit 6 (of_nat t)" by (simp add: take_bit_eq_mask mask_eq_exp_minus_1)
  also have "\<dots> = of_nat t" using assms(6) by (simp add: take_bit_of_nat take_bit_nat_eq_self)
  finally have ut: "unat ((of_nat t :: u8) AND 0x3f) = t"
    by (intro of_nat_inverse) (use assms(6) in auto)
  have "x AND mask k = take_bit k y" using ubits_eq_take_bit[OF r1(3)] by (simp add: take_bit_eq_mask)
  then have "float_read_value oc src r = Ok (r1\<lparr>fr_val := fr_val r1 XOR push_bit t (take_bit k y)\<rparr>)"
    by (simp only: float_read_value_def r1(1,5,6) rbind.simps prod.case bm ut Let_def)
  then show ?thesis using r1 by (simp add: reads_def)
qed

subsection \<open>Decoding what was encoded\<close>

text \<open>The reader has the value and the window that the writer had.\<close>

definition in_step :: "FloatReader \<Rightarrow> FloatWriter \<Rightarrow> bool" where
  "in_step r w \<longleftrightarrow> fr_val r = fw_prev w \<and> (\<forall>lead. fw_leading w = Some lead \<longrightarrow> lead + fw_trailing w < 64 \<and>
     fr_meaningful_n r = of_nat (64 - lead - fw_trailing w) \<and> fr_trailing_n r = of_nat (fw_trailing w))"

lemma float_new_value_reads:
  assumes "reads r src (tl (window_bits v lead trail) @ rest)" "lead < 32" "lead + trail < 64" "fits v lead trail"
  shows "\<exists>r1 r'. float_read_window oc src r = Ok r1 \<and> float_read_value oc src r1 = Ok r' \<and> reads r' src rest \<and>
    fr_val r' = fr_val r XOR v \<and> fr_dst r' = fr_dst r \<and> fr_meaningful_n r' = of_nat (64 - lead - trail) \<and>
    fr_trailing_n r' = of_nat trail"
proof -
  define sig where "sig = 64 - lead - trail"
  have sig: "0 < sig" "sig \<le> 64" "lead + sig \<le> 64" "64 - lead - sig = trail" using assms(3) by (auto simp: sig_def)
  have "tl (window_bits v lead trail) = ubits 5 (of_nat lead :: u64) @ ubits 6 (of_nat sig :: u64) @ ubits sig (drop_bit trail v)"
    unfolding window_bits_def Let_def sig_def by simp
  then obtain r1 where r1: "float_read_window oc src r = Ok r1" "reads r1 src (ubits sig (drop_bit trail v) @ rest)"
    "fr_val r1 = fr_val r" "fr_dst r1 = fr_dst r" "fr_meaningful_n r1 = of_nat sig" "fr_trailing_n r1 = of_nat trail"
    using float_read_window_reads[of r src lead sig "ubits sig (drop_bit trail v) @ rest" oc] assms(1,2) sig by auto
  obtain r2 where "float_read_value oc src r1 = Ok r2" "reads r2 src rest"
    "fr_val r2 = fr_val r1 XOR push_bit trail (take_bit sig (drop_bit trail v))" "fr_dst r2 = fr_dst r1"
    "fr_meaningful_n r2 = of_nat sig" "fr_trailing_n r2 = of_nat trail"
    using float_read_value_reads[OF r1(2,5,6) sig(1,2), of oc] assms(3) by auto
  then show ?thesis using r1 fits_restore[OF assms(4)] unfolding sig_def by metis
qed

lemma float_reuse_value_reads:
  assumes "reads r src (ubits (64 - lead - trail) (drop_bit trail v) @ rest)" "lead + trail < 64" "fits v lead trail"
    and "fr_meaningful_n r = of_nat (64 - lead - trail)" "fr_trailing_n r = of_nat trail"
  shows "\<exists>r'. float_read_value oc src r = Ok r' \<and> reads r' src rest \<and> fr_val r' = fr_val r XOR v \<and> fr_dst r' = fr_dst r \<and>
    fr_meaningful_n r' = of_nat (64 - lead - trail) \<and> fr_trailing_n r' = of_nat trail"
proof -
  have "0 < 64 - lead - trail" "64 - lead - trail \<le> 64" "trail < 64" using assms(2) by auto
  from float_read_value_reads[OF assms(1,4,5) this, of oc] fits_restore[OF assms(3)] show ?thesis by metis
qed

lemma xor_restore: "(a :: u64) XOR (b XOR a) = b"
  by (metis xor.assoc xor.commute xor.right_neutral xor_self_eq)

lemma float_decode_step_reads:
  assumes "reads r src (value_bits cur w @ rest)" "in_step r w"
  shows "\<exists>r'. float_decode_step oc src SENTINEL r = Ok (cur \<noteq> fw_prev w \<and> cur = SENTINEL, r') \<and> reads r' src rest \<and>
    in_step r' (adv cur w) \<and> fr_dst r' = (if cur \<noteq> fw_prev w \<and> cur = SENTINEL then fr_dst r else fr_dst r @ [cur])"
proof (cases "cur = fw_prev w")
  case True
  then have b: "value_bits cur w = [False]" "next_window cur w = (fw_leading w, fw_trailing w)"
    by (simp_all add: value_bits_def next_window_def)
  obtain r1 where r1: "float_read_bit oc src r = Ok (r1, False)" "reads r1 src rest" "fr_val r1 = fr_val r" "fr_dst r1 = fr_dst r"
    "fr_trailing_n r1 = fr_trailing_n r" "fr_meaningful_n r1 = fr_meaningful_n r"
    using float_read_bit_reads[of r src False rest oc] assms(1) b(1) by auto
  then show ?thesis using True assms(2) b(2) by (simp add: float_decode_step_def in_step_def adv_def reads_def)
next
  case False
  define v where "v = cur XOR fw_prev w"
  have v: "v \<noteq> 0" "fr_val r XOR v = cur"
    using False assms(2) xor_restore[of "fw_prev w" cur] by (auto simp: v_def in_step_def) 
  let ?rest2 = "(if reuse v w then [False] @ ubits (64 - the (fw_leading w) - fw_trailing w) (drop_bit (fw_trailing w) v)
    else window_bits v (new_lead v) (trailing_zeros v)) @ rest"
  have vb: "value_bits cur w @ rest = True # ?rest2" using v(1) by (simp add: value_bits_def Let_def flip: v_def)
  obtain r1 where r1: "float_read_bit oc src r = Ok (r1, True)" "reads r1 src ?rest2" "fr_val r1 = fr_val r" "fr_dst r1 = fr_dst r"
    "fr_trailing_n r1 = fr_trailing_n r" "fr_meaningful_n r1 = fr_meaningful_n r"
    using float_read_bit_reads[of r src True ?rest2 oc] assms(1) vb by auto
  have "\<exists>b r2 r3 r4. float_read_bit oc src r1 = Ok (r2, b) \<and> (if b then float_read_window oc src r2 else Ok r2) = Ok r3 \<and>
    float_read_value oc src r3 = Ok r4 \<and> reads r4 src rest \<and> fr_val r4 = cur \<and> fr_dst r4 = fr_dst r \<and> in_step r4 (adv cur w)"
  proof (cases "reuse v w")
    case True
    then obtain lead where lead: "fw_leading w = Some lead" "lead \<le> new_lead v" "fw_trailing w \<le> trailing_zeros v"
      by (auto simp: reuse_def split: option.splits)
    then have fits: "fits v lead (fw_trailing w)" "lead + fw_trailing w < 64"
      using fits_zeros[OF v(1)] new_lead_le(1)[of v] by (meson order_trans)+
    obtain r2 where r2: "float_read_bit oc src r1 = Ok (r2, False)"
      "reads r2 src (ubits (64 - lead - fw_trailing w) (drop_bit (fw_trailing w) v) @ rest)" "fr_val r2 = fr_val r1" "fr_dst r2 = fr_dst r1"
      "fr_trailing_n r2 = fr_trailing_n r1" "fr_meaningful_n r2 = fr_meaningful_n r1"
      using float_read_bit_reads[of r1 src False _ oc] r1(2) True lead(1) by auto
    have w2: "fr_meaningful_n r2 = of_nat (64 - lead - fw_trailing w)" "fr_trailing_n r2 = of_nat (fw_trailing w)"
      using r1(5,6) r2(5,6) assms(2) lead(1) by (auto simp: in_step_def)
    have "next_window cur w = (fw_leading w, fw_trailing w)" using True by (simp add: next_window_def Let_def flip: v_def)
    then show ?thesis
      using float_reuse_value_reads[OF r2(2) fits(2,1) w2, of oc] r2(1,3,4) r1(3,4) v(2) fits(2) lead(1)
      by (auto simp: in_step_def adv_def intro!: exI[of _ False])
  next
    case new: False
    define lead trail where "lead = new_lead v" and "trail = trailing_zeros v"
    have fits: "fits v lead trail" "lead + trail < 64" "lead < 32"
      using fits_new[OF v(1)] new_lead_le(2)[of v] by (auto simp: lead_def trail_def)
    have wb: "window_bits v lead trail = True # tl (window_bits v lead trail)" by (simp add: window_bits_def Let_def)
    have "reads r1 src (window_bits v lead trail @ rest)" using r1(2) new by (simp add: lead_def trail_def)
    then have rd: "reads r1 src (True # tl (window_bits v lead trail) @ rest)" by (subst (asm) wb) simp
    obtain r2 where r2: "float_read_bit oc src r1 = Ok (r2, True)" "reads r2 src (tl (window_bits v lead trail) @ rest)"
      "fr_val r2 = fr_val r1" "fr_dst r2 = fr_dst r1"
      using float_read_bit_reads[OF rd, of oc] by auto
    have "next_window cur w = (Some lead, trail)"
      using new v(1) by (simp add: next_window_def Let_def lead_def trail_def flip: v_def)
    then show ?thesis
      using float_new_value_reads[OF r2(2) fits(3,2,1), of oc] r2(1,3,4) r1(3,4) v(2) fits(2)
      by (auto simp: in_step_def adv_def intro!: exI[of _ True])
  qed
  then obtain b r2 r3 r4 where r: "float_read_bit oc src r1 = Ok (r2, b)" "(if b then float_read_window oc src r2 else Ok r2) = Ok r3"
    "float_read_value oc src r3 = Ok r4" "reads r4 src rest" "fr_val r4 = cur" "fr_dst r4 = fr_dst r" "in_step r4 (adv cur w)"
    by blast
  then show ?thesis using r1(1) False by (auto simp: float_decode_step_def is_sentinel_u64_def reads_def in_step_def)
qed

lemma float_decode_loop_reads:
  "reads r src (all_bits (xs @ [SENTINEL]) w @ pad) \<Longrightarrow> in_step r w \<Longrightarrow> SENTINEL \<notin> set xs \<Longrightarrow>
    last (fw_prev w # xs) \<noteq> SENTINEL \<Longrightarrow> \<exists>r'. float_decode_loop oc src SENTINEL r = Ok r' \<and> fr_dst r' = fr_dst r @ xs"
proof (induction xs arbitrary: r w)
  case Nil
  have "reads r src (value_bits SENTINEL w @ pad)" using Nil.prems(1) by simp
  from float_decode_step_reads[OF this Nil.prems(2), of oc] Nil.prems(4) show ?case
    by (subst float_decode_loop.simps) auto
next
  case (Cons x xs)
  have "reads r src (value_bits x w @ all_bits (xs @ [SENTINEL]) (adv x w) @ pad)" using Cons.prems(1) by simp
  from float_decode_step_reads[OF this Cons.prems(2), of oc] Cons.prems(3) obtain r1 where r1:
    "float_decode_step oc src SENTINEL r = Ok (False, r1)" "reads r1 src (all_bits (xs @ [SENTINEL]) (adv x w) @ pad)"
    "in_step r1 (adv x w)" "fr_dst r1 = fr_dst r @ [x]" by auto
  have "last (fw_prev (adv x w) # xs) \<noteq> SENTINEL" using Cons.prems(4) by (simp add: adv_def)
  with Cons.IH[OF r1(2,3)] Cons.prems(3) r1(1,4) show ?case
    by (subst float_decode_loop.simps) auto
qed

lemma holds_src_bits:
  assumes "holds dst bs" "length bs \<le> 8 * len" "len \<le> length dst"
  shows "take (length bs) (src_bits (take len dst)) = bs"
proof (rule nth_equalityI)
  show "length (take (length bs) (src_bits (take len dst))) = length bs" using assms(2,3) by simp
next
  fix k assume "k < length (take (length bs) (src_bits (take len dst)))"
  then have k: "k < length bs" "k < 8 * length dst" "k < 8 * length (take len dst)" using assms(2,3) by simp_all
  have "gbit (take len dst) k = gbit dst k" using k(3) assms(3) by (simp add: gbit_def)
  moreover have "gbit dst k = bs ! k" using holdsD[OF assms(1), of k] k by (simp add: strm_def)
  ultimately show "take (length bs) (src_bits (take len dst)) ! k = bs ! k"
    using k nth_src_bits[OF k(3)] by simp
qed

text \<open>The writer after the first value.\<close>

definition first_writer :: "u64 \<Rightarrow> FloatWriter" where
  "first_writer x = \<lparr>fw_dst = [push_bit 4 1] @ to_be_bytes x, fw_n = 72, fw_prev = x, fw_leading = None, fw_trailing = 0\<rparr>"

lemma first_writer_writes: "writes (first_writer x) (src_bits (fw_dst (first_writer x)))"
  by (auto simp: writes_def first_writer_def holds_def strm_def nth_src_bits)

lemma float_encode_output:
  assumes "SENTINEL \<notin> set rest" "last (x # rest) \<noteq> SENTINEL"
  shows "\<exists>bs. float_encode (x # rest) dst = Ok bs \<and> 9 < length bs \<and>
    take 9 bs = fw_dst (first_writer x) \<and> (\<exists>pad. src_bits (drop 9 bs) = all_bits (rest @ [SENTINEL]) (first_writer x) @ pad)"
proof -
  let ?w = "first_writer x" and ?b = "all_bits (rest @ [SENTINEL]) (first_writer x)"
  let ?d = "fw_dst ?w"
  have d: "length ?d = 9" by (simp add: first_writer_def)
  have no: "\<forall>y \<in> set rest. y \<noteq> SENTINEL" using assms(1) by blast
  have prev: "fw_prev ?w = x" by (simp add: first_writer_def)
  obtain w where w: "float_encode_loop rest ?w = Ok w" "holds (fw_dst w) (src_bits ?d @ ?b)"
    "fw_n w = length (src_bits ?d @ ?b)" "fw_n w \<le> 8 * length (fw_dst w)"
    using float_encode_loop_holds[OF first_writer_writes[of x] no] assms(2) unfolding writes_def prev by blast
  define len where "len = (if fw_n w mod 8 > 0 then fw_n w div 8 + 1 else fw_n w div 8)"
  have "0 < length ?b" by (cases rest) (simp_all add: value_bits_def Let_def)
  then have n: "72 < fw_n w" using w(3) d by simp
  have len: "fw_n w \<le> 8 * len" "len \<le> length (fw_dst w)" "9 < len"
    using n w(4) unfolding len_def by presburger+
  define bs where "bs = take len (fw_dst w)"
  have bs: "length bs = len" "float_encode (x # rest) dst = Ok bs"
    using w(1) len(2) by (simp_all add: bs_def float_encode_def len_def first_writer_def)
  have "take (length (src_bits ?d @ ?b)) (src_bits bs) = src_bits ?d @ ?b"
    using holds_src_bits[OF w(2) _ len(2)] w(3) len(1) by (simp add: bs_def)
  then have tk: "take (72 + length ?b) (src_bits bs) = src_bits ?d @ ?b" using d by simp
  have sp: "src_bits bs = src_bits (take 9 bs) @ src_bits (drop 9 bs)" by (simp flip: src_bits_append)
  have l9: "length (src_bits (take 9 bs)) = 72" using bs(1) len(3) by simp
  have "src_bits (take 9 bs) = src_bits ?d \<and> take (length ?b) (src_bits (drop 9 bs)) = ?b"
    using tk l9 d unfolding sp by simp
  moreover have "take 9 bs = ?d" if "src_bits (take 9 bs) = src_bits ?d"
    using src_bits_inject[OF _ that] bs(1) len(3) d by simp
  ultimately show ?thesis using bs len(3) by (metis append_take_drop_id)
qed

lemma float_decode_start:
  assumes "9 < length bs" "take 9 bs = fw_dst (first_writer x)"
  shows "from_be (take 8 (drop 1 bs)) = x"
proof -
  have "take 8 (drop 1 bs) = drop 1 (take 9 bs)" by (simp add: drop_take)
  also have "\<dots> = to_be_bytes x" using assms(2) by (simp add: first_writer_def)
  finally show ?thesis by simp
qed

lemma float_decode_encode:
  assumes "SENTINEL \<notin> set (tl src)" and "src \<noteq> [SENTINEL]"
  shows "\<exists>bs. float_encode src dst = Ok bs \<and> float_decode oc bs [] = Ok src"
proof (cases src)
  case Nil
  then show ?thesis by (simp add: float_encode_def float_decode_def float_decode_with_sentinel_def)
next
  case (Cons x rest)
  have no: "SENTINEL \<notin> set rest" using assms(1) Cons by simp
  then have last: "last (x # rest) \<noteq> SENTINEL" using assms(2) Cons by (metis last_ConsL last_ConsR last_in_set)
  obtain bs pad where bs: "float_encode src dst = Ok bs" "9 < length bs" "take 9 bs = fw_dst (first_writer x)"
    "src_bits (drop 9 bs) = all_bits (rest @ [SENTINEL]) (first_writer x) @ pad"
    using float_encode_output[OF no last, of dst] Cons by blast
  define r0 where "r0 = \<lparr>fr_val = x, fr_cached = 0, fr_valid = 0, fr_i = 9, fr_trailing_n = 0,
    fr_meaningful_n = 64, fr_dst = [x]\<rparr>"
  obtain c v k where r: "float_refill bs r0 = Ok (r0\<lparr>fr_cached := c, fr_valid := v, fr_i := 9 + k\<rparr>)" "unat v \<le> 64"
    "9 + k \<le> length bs" "src_bits (drop 9 bs) = hbits (unat v) c @ src_bits (drop (9 + k) bs)"
    using float_refill_reads[of r0 bs] bs(2) by (auto simp: r0_def)
  let ?r = "r0\<lparr>fr_cached := c, fr_valid := v, fr_i := 9 + k\<rparr>"
  have "reads ?r bs (all_bits (rest @ [SENTINEL]) (first_writer x) @ pad)" using r bs(4) by (simp add: reads_def)
  moreover have "in_step ?r (first_writer x)" by (simp add: in_step_def first_writer_def r0_def)
  ultimately obtain r' where "float_decode_loop oc bs SENTINEL ?r = Ok r'" "fr_dst r' = [x] @ rest"
    using float_decode_loop_reads[of ?r bs rest "first_writer x" pad oc] no last by (auto simp: first_writer_def r0_def)
  then have "float_decode oc bs [] = Ok src"
    using r(1) bs(2) Cons float_decode_start[OF bs(2,3)]
    by (simp add: float_decode_def float_decode_with_sentinel_def r0_def)
  then show ?thesis using bs(1) by blast
qed

text \<open>C6: Encoding floats and decoding the block gives the same bit patterns back, for every list that
  has no value with the sentinel's pattern after its first value and is not the sentinel alone.\<close>

theorem float_roundtrip:
  assumes "SENTINEL \<notin> set (tl src)" and "src \<noteq> [SENTINEL]"
  shows "\<exists>bs. float_encode src dst = Ok bs \<and> float_decode oc bs [] = Ok src"
  using float_decode_encode[OF assms] .

theorem float_roundtrip_witness:
  "\<exists>bs. float_encode [0x3ff0000000000000, 0x4000000000000000, 0x4000000000000000] [] = Ok bs \<and>
    float_decode True bs [] = Ok [0x3ff0000000000000, 0x4000000000000000, 0x4000000000000000]"
  by (rule float_roundtrip) (simp_all add: SENTINEL_def)

lemma float_encode_loop_rejects: "writes w bs \<Longrightarrow> SENTINEL \<in> set src \<Longrightarrow> float_encode_loop src w = Err ''unsupported value''"
proof (induction src arbitrary: w bs)
  case (Cons x src)
  obtain w1 where "float_encode_step x w = Ok w1" "writes w1 (bs @ value_bits x w)"
    using float_encode_step_holds[OF Cons.prems(1), of x] by blast
  then show ?case using Cons.IH[of w1] Cons.prems(2) by (auto simp: is_sentinel_f64_def)
qed simp

text \<open>C19: The encoder rejects a sentinel after the first value.\<close>

theorem float_encode_rejects:
  assumes "SENTINEL \<in> set (tl src)"
  shows "float_encode src dst = Err ''unsupported value''"
proof (cases src)
  case (Cons x rest)
  then show ?thesis using assms float_encode_loop_rejects[OF first_writer_writes, of rest x]
    by (simp add: float_encode_def first_writer_def)
qed (use assms in simp)

theorem float_encode_rejects_witness: "float_encode [0, SENTINEL] [] = Err ''unsupported value''"
  by (rule float_encode_rejects) simp

text \<open>The first value is not compared with the sentinel: a list of the sentinel alone is encoded,
  and its block cannot be decoded.\<close>

lemma float_sentinel_alone:
  "\<exists>bs. float_encode [SENTINEL] dst = Ok bs \<and> float_decode oc bs [] = Err ''unexpected end of block''"
  by (simp add: float_encode_def float_encode_step_def float_decode_def float_decode_with_sentinel_def float_refill_def
      float_refill_cache_def)

end
