(* ===== verification/TsmBlock.thy ===== *)
theory TsmBlock
  imports Block BooleanCoder DirectFile FloatRoundtrip
begin

text \<open>
  Blocks in a TSM file: \<^verbatim>\<open>DataBlock::encode\<close> (\<^verbatim>\<open>src/tskv/src/tsm/block.rs\<close>), the block writer
  (\<^verbatim>\<open>tsm/writer.rs\<close>) and the block reader (\<^verbatim>\<open>tsm/reader.rs\<close>) on file cursors.  A writer that
  fails leaves a partly written file behind, which nothing reads; the model returns the error alone.
  The main result is that the pieces a block is cut into are read back as written; another is that
  the writer panics on every block whose size is a multiple of the piece size.
\<close>

subsection \<open>Encoding\<close>

text \<open>The functions of the crates integer-encoding, snap and crc32fast.\<close>

record Codecs =
  varint_enc :: "u64 \<Rightarrow> bytes"
  varint_dec :: "bytes \<Rightarrow> (u64 \<times> nat) option"
  snap_max_len :: "nat \<Rightarrow> nat"
  snap_compress :: "bytes \<Rightarrow> nat \<Rightarrow> (string, bytes) result"
  snap_decompress :: "bytes \<Rightarrow> (string, bytes) result"
  crc32 :: "bytes \<Rightarrow> u32"

definition encode_columns ::
  "Codecs \<Rightarrow> ('v list \<Rightarrow> (string, bytes) result) \<Rightarrow> i64 list \<Rightarrow> 'v list \<Rightarrow> nat \<Rightarrow> nat \<Rightarrow>
   (TskvError, bytes \<times> bytes) result" where
  "encode_columns tp encode ts val start fin =
     rbind (slice_range ts start fin) (\<lambda>t.
     rbind (map_err EWriteTsmErr (ts_encode (varint_enc tp) t [])) (\<lambda>ts_buf.
     rbind (slice_range val start fin) (\<lambda>v.
     rbind (map_err EWriteTsmErr (encode v)) (\<lambda>data_buf. Ok (ts_buf, data_buf)))))"

fun block_encode :: "Codecs \<Rightarrow> DataBlock \<Rightarrow> nat \<Rightarrow> nat \<Rightarrow> (TskvError, bytes \<times> bytes) result" where
  "block_encode tp (BBool i ts val) start fin =
     encode_columns tp (\<lambda>v. boolean_encode (varint_enc tp) v []) ts val start fin"
| "block_encode tp (BU64 i ts val) start fin =
     encode_columns tp (\<lambda>v. unsigned_encode (varint_enc tp) v []) ts val start fin"
| "block_encode tp (BI64 i ts val) start fin =
     encode_columns tp (\<lambda>v. integer_encode (varint_enc tp) v []) ts val start fin"
| "block_encode tp (BStr i ts val) start fin =
     encode_columns tp (\<lambda>v. string_encode (varint_enc tp) (snap_max_len tp) (snap_compress tp) v []) ts val start fin"
| "block_encode tp (BF64 i ts val) start fin =
     encode_columns tp (\<lambda>v. float_encode v []) ts val start fin"

subsection \<open>The block writer\<close>

definition MAX_BLOCK_VALUES :: nat where
  "MAX_BLOCK_VALUES = 1000"

record FileBlock =
  fb_min_ts :: i64
  fb_max_ts :: i64
  fb_offset :: u64
  fb_size :: u64
  fb_val_off :: u64
  fb_field_type :: ValueType
  fb_reader_idx :: nat

definition file_block_new :: FileBlock where
  "file_block_new = \<lparr>fb_min_ts = 0, fb_max_ts = 0, fb_offset = 0, fb_size = 0, fb_val_off = 0,
     fb_field_type = VUnknown, fb_reader_idx = 0\<rparr>"

definition tsm_put :: "bool \<Rightarrow> FileCursor \<Rightarrow> bytes \<Rightarrow> (TskvError, FileCursor) result" where
  "tsm_put oc writer buf = map_err EWriteTsmErr (cursor_write oc writer buf)"

text \<open>One iteration of the loop of \<^verbatim>\<open>write_one_to\<close>.\<close>

definition write_file_block ::
  "bool \<Rightarrow> Codecs \<Rightarrow> FileCursor \<Rightarrow> DataBlock \<Rightarrow> nat \<Rightarrow> nat \<Rightarrow> (TskvError, FileCursor \<times> FileBlock) result" where
  "write_file_block oc tp writer block start fin =
     rbind (block_time_range block start fin) (\<lambda>(min_ts, max_ts).
     rbind (block_encode tp block start fin) (\<lambda>(ts_buf, data_buf).
       let offset = fc_pos writer in
       rbind (tsm_put oc writer (be_bytes 4 (crc32 tp ts_buf))) (\<lambda>writer.
       rbind (tsm_put oc writer ts_buf) (\<lambda>writer.
         let val_off = fc_pos writer in
         rbind (tsm_put oc writer (be_bytes 4 (crc32 tp data_buf))) (\<lambda>writer.
         rbind (tsm_put oc writer data_buf) (\<lambda>writer.
           let sz = length ts_buf + length data_buf + 8 in
           Ok (writer, \<lparr>fb_min_ts = min_ts, fb_max_ts = max_ts, fb_offset = of_nat offset, fb_size = of_nat sz,
             fb_val_off = of_nat val_off, fb_field_type = block_field_type block, fb_reader_idx = 0\<rparr>)))))))"

function write_one_loop ::
  "bool \<Rightarrow> Codecs \<Rightarrow> DataBlock \<Rightarrow> nat \<Rightarrow> nat \<Rightarrow> nat \<Rightarrow> FileCursor \<Rightarrow> FileBlock list \<Rightarrow>
   (TskvError, FileCursor \<times> FileBlock list) result" where
  "write_one_loop oc tp block n i last_index writer res =
     (if i < n then
        let start = last_index;
            fin = block_len block mod MAX_BLOCK_VALUES + i * MAX_BLOCK_VALUES in
        rbind (write_file_block oc tp writer block start fin) (\<lambda>(writer, fb).
          write_one_loop oc tp block n (i + 1) fin writer (res @ [fb]))
      else Ok (writer, res))"
  by pat_completeness auto
termination
  by (relation "measure (\<lambda>(oc, tp, block, n, i, last_index, writer, res). n - i)") auto

declare write_one_loop.simps [simp del]

text \<open>For an empty block \<^verbatim>\<open>len - 1\<close> overflows; unchecked, the vector for the results is larger than any
  address space.\<close>

definition write_one_to ::
  "bool \<Rightarrow> Codecs \<Rightarrow> FileCursor \<Rightarrow> DataBlock \<Rightarrow> (TskvError, FileCursor \<times> FileBlock list) result" where
  "write_one_to oc tp writer block =
     (if block_len block = 0 then Panic
      else write_one_loop oc tp block ((block_len block - 1) div MAX_BLOCK_VALUES + 1) 0 0 writer [])"

text \<open>The blocks of a set, in the order in which the hash map yields them.\<close>

fun write_blocks_to ::
  "bool \<Rightarrow> Codecs \<Rightarrow> FileCursor \<Rightarrow> (FieldId \<times> DataBlock) list \<Rightarrow>
   (TskvError, FileCursor \<times> (FieldId \<times> FileBlock list) list) result" where
  "write_blocks_to oc tp writer [] = Ok (writer, [])"
| "write_blocks_to oc tp writer ((fid, block) # block_set) =
     rbind (write_one_to oc tp writer block) (\<lambda>(writer, ix).
     rbind (write_blocks_to oc tp writer block_set) (\<lambda>(writer, res). Ok (writer, (fid, ix) # res)))"

subsection \<open>The block reader\<close>

text \<open>The values of a block of the type \<^verbatim>\<open>field_type\<close> with the timestamps \<^verbatim>\<open>ts\<close>.  \<^verbatim>\<open>None\<close> stands for a
  string decoder that does not return.  The unsigned decoder is given a vector with room for as many
  values as there are timestamps.\<close>

definition decode_values ::
  "bool \<Rightarrow> Codecs \<Rightarrow> ValueType \<Rightarrow> i64 list \<Rightarrow> bytes \<Rightarrow> (TskvError, DataBlock) result option" where
  "decode_values oc tp field_type ts data =
     (case field_type of
        VFloat \<Rightarrow> Some (rmap (BF64 0 ts) (map_err EReadTsmErr (float_decode oc data [])))
      | VInteger \<Rightarrow> Some (rmap (BI64 0 ts) (map_err EReadTsmErr (integer_decode oc (varint_dec tp) data [])))
      | VBoolean \<Rightarrow> Some (rmap (BBool 0 ts) (map_err EReadTsmErr (boolean_decode (varint_dec tp) data [])))
      | VString \<Rightarrow> map_option (\<lambda>r. rmap (BStr 0 ts) (map_err EReadTsmErr r))
          (string_decode oc (varint_dec tp) (snap_decompress tp) data [])
      | VUnsigned \<Rightarrow> Some (rmap (BU64 0 ts) (map_err EReadTsmErr
          (unsigned_decode oc (varint_dec tp) data (length ts) [])))
      | VUnknown \<Rightarrow> Some (Err (EReadTsmErr ''cannot decode block Unknown with no unknown value type'')))"

text \<open>The bytes of the two columns: a read of \<^verbatim>\<open>size\<close> bytes into zeros, without the two checksums.\<close>

definition read_columns ::
  "bool \<Rightarrow> FileCursor \<Rightarrow> FileBlock \<Rightarrow> (TskvError, FileCursor \<times> bytes \<times> bytes) result" where
  "read_columns oc reader block =
     rbind (map_err (\<lambda>_. EReadTsmErr ''seek tsmblock err'') (cursor_seek oc reader (SeekStart (unat (fb_offset block))))) (\<lambda>(reader, _).
     rbind (map_err (\<lambda>_. EReadTsmErr ''read tsmblock err'') (cursor_read oc reader (unat (fb_size block)))) (\<lambda>(reader, buf).
     rbind (write_front (replicate (unat (fb_size block)) 0) buf) (\<lambda>data.
     rbind (sub_u64 oc (fb_val_off block) (fb_offset block)) (\<lambda>d.
     rbind (sub_u64 oc d 4) (\<lambda>len.
     rbind (slice_range data 4 (4 + unat len)) (\<lambda>ts_buf.
     rbind (slice_from data (8 + unat len)) (\<lambda>data_buf. Ok (reader, ts_buf, data_buf))))))))"

definition tsm_decode ::
  "bool \<Rightarrow> Codecs \<Rightarrow> FileCursor \<Rightarrow> FileBlock \<Rightarrow> (TskvError, FileCursor \<times> DataBlock) result option" where
  "tsm_decode oc tp reader block =
     (case read_columns oc reader block of
        Ok (reader, ts_buf, data_buf) \<Rightarrow>
          (case map_err EReadTsmErr (ts_decode oc (varint_dec tp) ts_buf []) of
             Ok ts \<Rightarrow> map_option (rmap (Pair reader)) (decode_values oc tp (fb_field_type block) ts data_buf)
           | Err e \<Rightarrow> Some (Err e)
           | Panic \<Rightarrow> Some Panic)
      | Err e \<Rightarrow> Some (Err e)
      | Panic \<Rightarrow> Some Panic)"

text \<open>\<^verbatim>\<open>read_blocks\<close> logs the cells strictly inside the time range; the model collects them.\<close>

function read_cells_loop :: "bool \<Rightarrow> TimeRange \<Rightarrow> DataBlock \<Rightarrow> DataType list \<Rightarrow> (TskvError, DataType list) result" where
  "read_cells_loop oc time_range data out =
     (case block_next oc data of
        Ok (data, Some datum) \<Rightarrow>
          read_cells_loop oc time_range data
            (if slt (tr_min_ts time_range) (timestamp datum) \<and> slt (timestamp datum) (tr_max_ts time_range)
             then out @ [datum] else out)
      | Ok (data, None) \<Rightarrow> Ok out
      | Err e \<Rightarrow> Err e
      | Panic \<Rightarrow> Panic)"
  by pat_completeness auto
termination
  by (relation "measure (\<lambda>(oc, time_range, data, out). block_rest data)") (auto dest: block_next_rest)

declare read_cells_loop.simps [simp del]

fun read_blocks ::
  "bool \<Rightarrow> Codecs \<Rightarrow> FileCursor \<Rightarrow> FileBlock list \<Rightarrow> TimeRange \<Rightarrow> DataType list \<Rightarrow>
   (TskvError, FileCursor \<times> DataType list) result option" where
  "read_blocks oc tp reader [] time_range out = Some (Ok (reader, out))"
| "read_blocks oc tp reader (block # blocks) time_range out =
     (case tsm_decode oc tp reader block of
        Some (Ok (reader, data)) \<Rightarrow>
          (case read_cells_loop oc time_range data out of
             Ok out \<Rightarrow> read_blocks oc tp reader blocks time_range out
           | Err e \<Rightarrow> Some (Err e)
           | Panic \<Rightarrow> Some Panic)
      | Some _ \<Rightarrow> Some Panic
      | None \<Rightarrow> None)"

subsection \<open>Columns are read back\<close>

definition codecs_ok :: "Codecs \<Rightarrow> bool" where
  "codecs_ok tp \<longleftrightarrow> varint (varint_enc tp) (varint_dec tp) \<and>
     snappy (snap_max_len tp) (snap_compress tp) (snap_decompress tp)"

text \<open>What the coders ask of a block: with overflow checks no difference of neighbours wraps around, no
  float is the sentinel, and strings are not too long.\<close>

fun encodable :: "bool \<Rightarrow> Codecs \<Rightarrow> DataBlock \<Rightarrow> bool" where
  "encodable oc tp (BU64 i ts val) \<longleftrightarrow> (oc \<longrightarrow> no_wrap ts \<and> no_wrap val)"
| "encodable oc tp (BI64 i ts val) \<longleftrightarrow> (oc \<longrightarrow> no_wrap ts \<and> no_wrap val)"
| "encodable oc tp (BStr i ts val) \<longleftrightarrow> (oc \<longrightarrow> no_wrap ts) \<and> list_all (\<lambda>s. length s < MAX_I32) val \<and>
     string_source_size val < 2 ^ 64 \<and> snap_max_len tp (string_source_size val) \<noteq> 0"
| "encodable oc tp (BF64 i ts val) \<longleftrightarrow> (oc \<longrightarrow> no_wrap ts) \<and> SENTINEL \<notin> set val"
| "encodable oc tp (BBool i ts val) \<longleftrightarrow> (oc \<longrightarrow> no_wrap ts)"

abbreviation sub :: "'a list \<Rightarrow> nat \<Rightarrow> nat \<Rightarrow> 'a list" where
  "sub xs start fin \<equiv> take (fin - start) (drop start xs)"

fun block_slice :: "DataBlock \<Rightarrow> nat \<Rightarrow> nat \<Rightarrow> DataBlock" where
  "block_slice (BU64 i ts val) start fin = BU64 0 (sub ts start fin) (sub val start fin)"
| "block_slice (BI64 i ts val) start fin = BI64 0 (sub ts start fin) (sub val start fin)"
| "block_slice (BStr i ts val) start fin = BStr 0 (sub ts start fin) (sub val start fin)"
| "block_slice (BF64 i ts val) start fin = BF64 0 (sub ts start fin) (sub val start fin)"
| "block_slice (BBool i ts val) start fin = BBool 0 (sub ts start fin) (sub val start fin)"

lemma no_wrap_tl: "no_wrap (x # xs) \<Longrightarrow> no_wrap xs"
  by (cases xs) auto

lemma no_wrap_drop: "no_wrap xs \<Longrightarrow> no_wrap (drop n xs)"
  by (induction xs arbitrary: n) (auto simp: drop_Cons' dest: no_wrap_tl)

lemma no_wrap_take: "no_wrap xs \<Longrightarrow> no_wrap (take n xs)"
proof (induction xs arbitrary: n rule: no_wrap.induct)
  case (1 x y zs)
  then have IH: "no_wrap (take (n - 1) (y # zs))" and xy: "sadd_ok x (y - x)" by auto
  show ?case
  proof (cases "2 \<le> n")
    case True
    then obtain m where "n = Suc (Suc m)" by (metis Suc_le_D numeral_2_eq_2 Suc_le_mono)
    then show ?thesis using IH xy by simp
  next
    case False
    then have "n = 0 \<or> n = Suc 0" by auto
    then show ?thesis by auto
  qed
qed (auto simp: take_Cons')

lemma no_wrap_sub: "no_wrap xs \<Longrightarrow> no_wrap (sub xs start fin)"
  by (intro no_wrap_take no_wrap_drop)

lemma source_size_sub: "string_source_size (sub xs start fin) \<le> string_source_size xs"
proof -
  let ?c = "take start xs" and ?d = "drop (fin - start) (drop start xs)"
  have "xs = ?c @ sub xs start fin @ ?d" by (metis append_take_drop_id)
  then have "length xs = length ?c + length (sub xs start fin) + length ?d"
    "sum_list (map length xs) = sum_list (map length ?c) + sum_list (map length (sub xs start fin)) + sum_list (map length ?d)"
    by (metis length_append add.assoc, metis map_append sum_list_append add.assoc)
  then have "length (sub xs start fin) \<le> length xs" "sum_list (map length (sub xs start fin)) \<le> sum_list (map length xs)"
    by linarith+
  then show ?thesis unfolding string_source_size_def by (intro add_mono mult_mono) simp_all
qed

text \<open>The column coders as an interface: what \<^verbatim>\<open>encode\<close> makes of a list, \<^verbatim>\<open>decode\<close> turns back.\<close>

locale column_coder =
  fixes encode :: "'v list \<Rightarrow> (string, bytes) result"
    and decode :: "bytes \<Rightarrow> nat \<Rightarrow> (string, 'v list) result option"
    and good :: "'v list \<Rightarrow> bool"
  assumes decode_encode: "good v \<Longrightarrow> v \<noteq> [] \<Longrightarrow> length v < 2 ^ 32 \<Longrightarrow>
      \<exists>bs. encode v = Ok bs \<and> decode bs (length v) = Some (Ok v)"
    and good_sub: "good v \<Longrightarrow> good (sub v start fin)"
begin

lemma column_sub:
  assumes "good v" "start < fin" "fin \<le> length v" "length v < 2 ^ 32"
  shows "\<exists>bs. encode (sub v start fin) = Ok bs \<and> decode bs (fin - start) = Some (Ok (sub v start fin))"
proof -
  have "length (sub v start fin) = fin - start" "fin - start < 2 ^ 32" "fin - start \<noteq> 0" using assms(2-4) by auto
  moreover from this have "sub v start fin \<noteq> []" by (metis list.size(3))
  ultimately show ?thesis using decode_encode[OF good_sub[OF assms(1), where start = start and fin = fin]] by metis
qed

end

lemma ts_column:
  assumes "codecs_ok tp"
  shows "column_coder (\<lambda>v. ts_encode (varint_enc tp) v []) (\<lambda>bs n. Some (ts_decode oc (varint_dec tp) bs [])) (\<lambda>v. oc \<longrightarrow> no_wrap v)"
proof unfold_locales
  fix v :: "i64 list" assume "oc \<longrightarrow> no_wrap v" "length v < 2 ^ 32"
  then show "\<exists>bs. ts_encode (varint_enc tp) v [] = Ok bs \<and> Some (ts_decode oc (varint_dec tp) bs []) = Some (Ok v)"
    using varint.ts_decode_encode[of "varint_enc tp" "varint_dec tp" v "[]" oc] assms by (auto simp: codecs_ok_def)
qed (simp add: no_wrap_sub)

lemma integer_column:
  assumes "codecs_ok tp"
  shows "column_coder (\<lambda>v. integer_encode (varint_enc tp) v []) (\<lambda>bs n. Some (integer_decode oc (varint_dec tp) bs [])) (\<lambda>v. oc \<longrightarrow> no_wrap v)"
proof unfold_locales
  fix v :: "i64 list" assume "oc \<longrightarrow> no_wrap v" "length v < 2 ^ 32"
  then show "\<exists>bs. integer_encode (varint_enc tp) v [] = Ok bs \<and> Some (integer_decode oc (varint_dec tp) bs []) = Some (Ok v)"
    using varint.integer_decode_encode[of "varint_enc tp" "varint_dec tp" v "[]" oc] assms by (auto simp: codecs_ok_def)
qed (simp add: no_wrap_sub)

lemma unsigned_column:
  assumes "codecs_ok tp"
  shows "column_coder (\<lambda>v. unsigned_encode (varint_enc tp) v []) (\<lambda>bs n. Some (unsigned_decode oc (varint_dec tp) bs n [])) (\<lambda>v. oc \<longrightarrow> no_wrap v)"
proof unfold_locales
  fix v :: "u64 list" assume "oc \<longrightarrow> no_wrap v" "v \<noteq> []" "length v < 2 ^ 32"
  then show "\<exists>bs. unsigned_encode (varint_enc tp) v [] = Ok bs \<and> Some (unsigned_decode oc (varint_dec tp) bs (length v) []) = Some (Ok v)"
    using unsigned_decode_encode[of "varint_enc tp" "varint_dec tp" v "[]" oc "length v" "[]"] assms by (auto simp: codecs_ok_def)
qed (simp add: no_wrap_sub)

lemma boolean_column:
  assumes "codecs_ok tp"
  shows "column_coder (\<lambda>v. boolean_encode (varint_enc tp) v []) (\<lambda>bs n. Some (boolean_decode (varint_dec tp) bs [])) (\<lambda>v. True)"
proof unfold_locales
  fix v :: "bool list" assume "length v < 2 ^ 32"
  then show "\<exists>bs. boolean_encode (varint_enc tp) v [] = Ok bs \<and> Some (boolean_decode (varint_dec tp) bs []) = Some (Ok v)"
    using varint.boolean_decode_encode[of "varint_enc tp" "varint_dec tp" v "[]"] assms by (auto simp: codecs_ok_def)
qed simp

lemma float_column: "column_coder (\<lambda>v. float_encode v []) (\<lambda>bs n. Some (float_decode oc bs [])) (\<lambda>v. SENTINEL \<notin> set v)"
proof unfold_locales
  fix v :: "f64 list" assume "SENTINEL \<notin> set v"
  then have "SENTINEL \<notin> set (tl v)" "v \<noteq> [SENTINEL]" by (cases v; auto)+
  then show "\<exists>bs. float_encode v [] = Ok bs \<and> Some (float_decode oc bs []) = Some (Ok v)"
    using float_decode_encode[of v "[]" oc] by simp
qed (auto dest!: in_set_takeD in_set_dropD)

lemma string_column:
  assumes "codecs_ok tp"
  shows "column_coder (\<lambda>v. string_encode (varint_enc tp) (snap_max_len tp) (snap_compress tp) v [])
    (\<lambda>bs n. string_decode oc (varint_dec tp) (snap_decompress tp) bs [])
    (\<lambda>v. list_all (\<lambda>s. length s < MAX_I32) v \<and> string_source_size v < 2 ^ 64 \<and> snap_max_len tp (string_source_size v) \<noteq> 0)"
    (is "column_coder ?e ?d ?good")
proof unfold_locales
  fix v assume "?good v"
  then show "\<exists>bs. ?e v = Ok bs \<and> ?d bs (length v) = Some (Ok v)"
    using varint.string_decode_encode[of "varint_enc tp" "varint_dec tp" "snap_max_len tp" "snap_compress tp" "snap_decompress tp" v "[]" oc]
      assms by (auto simp: codecs_ok_def)
next
  fix v :: "bytes list" and start fin :: nat assume "?good v"
  moreover have "snap_max_len tp (string_source_size (sub v start fin)) \<noteq> 0" if "snap_max_len tp (string_source_size v) \<noteq> 0"
    using snappy.max_compress_len_mono[OF _ source_size_sub[where start = start and fin = fin and xs = v], of "snap_max_len tp"] that assms unfolding codecs_ok_def by blast
  ultimately show "?good (sub v start fin)"
    using order.strict_trans1[OF source_size_sub[where start = start and fin = fin and xs = v]] by (auto simp: list_all_iff dest!: in_set_takeD in_set_dropD)
qed

interpretation float_column: column_coder "\<lambda>v. float_encode v []" "\<lambda>bs n. Some (float_decode oc bs [])" "\<lambda>v. SENTINEL \<notin> set v" for oc
  by (rule float_column)

lemma encode_columns_Ok:
  assumes "codecs_ok tp" "oc \<longrightarrow> no_wrap ts" "column_coder encode decode good" "good val"
    and "start < fin" "fin \<le> length ts" "length val = length ts" "length ts < 2 ^ 32"
  shows "\<exists>tb db. encode_columns tp encode ts val start fin = Ok (tb, db) \<and>
    ts_decode oc (varint_dec tp) tb [] = Ok (sub ts start fin) \<and> decode db (fin - start) = Some (Ok (sub val start fin))"
proof -
  obtain tb where tb: "ts_encode (varint_enc tp) (sub ts start fin) [] = Ok tb" "ts_decode oc (varint_dec tp) tb [] = Ok (sub ts start fin)"
    using column_coder.column_sub[OF ts_column[OF assms(1), of oc] assms(2,5,6,8)] by auto
  moreover obtain db where "encode (sub val start fin) = Ok db" "decode db (fin - start) = Some (Ok (sub val start fin))"
    using column_coder.column_sub[OF assms(3,4,5)] assms(6-8) by auto
  ultimately show ?thesis using assms(5-7) by (simp add: encode_columns_def slice_range_def)
qed

lemma block_codec:
  assumes "codecs_ok tp" "encodable oc tp b" "block_wf b" "start < fin" "fin \<le> block_len b"
  shows "\<exists>tb db. block_encode tp b start fin = Ok (tb, db) \<and>
    ts_decode oc (varint_dec tp) tb [] = Ok (sub (block_ts b) start fin) \<and>
    decode_values oc tp (block_field_type b) (sub (block_ts b) start fin) db = Some (Ok (block_slice b start fin))"
proof -
  have len: "length (sub (block_ts b) start fin) = fin - start" using assms(4,5) by (simp add: block_len_def)
  note cols = encode_columns_Ok[OF assms(1) _ _ _ assms(4), of oc]
  show ?thesis
  proof (cases b)
    case (BU64 i ts val)
    then show ?thesis using cols[OF _ unsigned_column[OF assms(1), of oc], of ts val] assms len
      by (fastforce simp: decode_values_def block_wf_def block_len_def)
  next
    case (BI64 i ts val)
    then show ?thesis using cols[OF _ integer_column[OF assms(1), of oc], of ts val] assms
      by (fastforce simp: decode_values_def block_wf_def block_len_def)
  next
    case (BStr i ts val)
    then show ?thesis using cols[OF _ string_column[OF assms(1), of oc], of ts val] assms
      by (fastforce simp: decode_values_def block_wf_def block_len_def)
  next
    case (BF64 i ts val)
    then show ?thesis using cols[OF _ float_column[of oc], of ts val] assms
      by (fastforce simp: decode_values_def block_wf_def block_len_def)
  next
    case (BBool i ts val)
    then show ?thesis using cols[OF _ boolean_column[OF assms(1)], of ts val] assms
      by (fastforce simp: decode_values_def block_wf_def block_len_def)
  qed
qed

subsection \<open>Blocks in a file\<close>

text \<open>The bytes of an encoded piece, and the place a \<^verbatim>\<open>FileBlock\<close> has in a file.\<close>

definition frame :: "Codecs \<Rightarrow> bytes \<times> bytes \<Rightarrow> bytes" where
  "frame tp = (\<lambda>(tb, db). be_bytes 4 (crc32 tp tb) @ tb @ be_bytes 4 (crc32 tp db) @ db)"

definition placed :: "Codecs \<Rightarrow> bytes \<Rightarrow> FileBlock \<Rightarrow> bytes \<times> bytes \<Rightarrow> bool" where
  "placed tp file fb = (\<lambda>(tb, db).
     unat (fb_size fb) = 8 + length tb + length db \<and> unat (fb_val_off fb) = unat (fb_offset fb) + 4 + length tb \<and>
     (\<exists>pre post. file = pre @ frame tp (tb, db) @ post \<and> length pre = unat (fb_offset fb)))"

lemma placed_append: "placed tp file fb p \<Longrightarrow> placed tp (file @ tail) fb p"
  by (force simp: placed_def)

lemma read_columns_placed:
  assumes "file_wf (fc_file c)" "placed tp (cursor_bytes c) fb (tb, db)"
  shows "\<exists>c'. read_columns oc c fb = Ok (c', tb, db) \<and> fc_file c' = fc_file c"
proof -
  obtain pre post where pre: "cursor_bytes c = pre @ frame tp (tb, db) @ post" "length pre = unat (fb_offset fb)"
    and sz: "unat (fb_size fb) = 8 + length tb + length db" and off: "unat (fb_val_off fb) = unat (fb_offset fb) + 4 + length tb"
    using assms(2) by (auto simp: placed_def)
  let ?c = "c\<lparr>fc_pos := unat (fb_offset fb)\<rparr>"
  have fl: "f_len (fc_file c) = length (cursor_bytes c)" by (simp add: cursor_bytes_def)
  have cb: "cursor_bytes ?c = cursor_bytes c" by (simp add: cursor_bytes_def)
  have lf: "length (frame tp (tb, db)) = unat (fb_size fb)" by (simp add: frame_def sz)
  have rd: "cursor_read oc ?c (unat (fb_size fb)) = Ok (?c\<lparr>fc_pos := unat (fb_offset fb) + unat (fb_size fb)\<rparr>, frame tp (tb, db))"
    using cursor_read_Ok[of ?c oc "unat (fb_size fb)"] assms(1) cb lf pre by (simp add: fl)
  have d: "unat (fb_val_off fb - fb_offset fb) = 4 + length tb" "fb_offset fb \<le> fb_val_off fb"
    using off by (simp_all add: unat_sub word_le_nat_alt)
  then have d4: "unat (fb_val_off fb - fb_offset fb - 4) = length tb" "4 \<le> fb_val_off fb - fb_offset fb"
    by (simp_all add: unat_sub word_le_nat_alt)
  have sl: "4 + length tb \<le> unat (fb_size fb)" "8 + length tb \<le> unat (fb_size fb)"
    "take (length tb) (drop 4 (frame tp (tb, db))) = tb" "drop (8 + length tb) (frame tp (tb, db)) = db"
    by (simp_all add: frame_def sz)
  show ?thesis
    unfolding read_columns_def cursor_seek_def using rd lf d d4 sl
    by (simp add: write_front_def sub_u64_fits slice_range_def slice_from_def)
qed

lemma tsm_decode_placed:
  assumes "file_wf (fc_file c)" "placed tp (cursor_bytes c) fb (tb, db)"
    and "ts_decode oc (varint_dec tp) tb [] = Ok ts" "decode_values oc tp (fb_field_type fb) ts db = Some (Ok b)"
  shows "\<exists>c'. tsm_decode oc tp c fb = Some (Ok (c', b)) \<and> fc_file c' = fc_file c"
  using read_columns_placed[OF assms(1,2), of oc] assms(3,4) by (auto simp: tsm_decode_def)

lemma write_file_block_Ok:
  assumes "at_end w" "block_time_range b start fin = Ok (lo, hi)" "block_encode tp b start fin = Ok (tb, db)"
    and "length (frame tp (tb, db)) \<le> cursor_room w"
  shows "\<exists>w' fb. write_file_block oc tp w b start fin = Ok (w', fb) \<and> at_end w' \<and>
    cursor_bytes w' = cursor_bytes w @ frame tp (tb, db) \<and> cursor_room w' + length (frame tp (tb, db)) = cursor_room w \<and>
    placed tp (cursor_bytes w') fb (tb, db) \<and> fb_field_type fb = block_field_type b \<and> fb_min_ts fb = lo \<and> fb_max_ts fb = hi"
proof -
  let ?len = "\<lambda>w. length (cursor_bytes w)"
  have room: "4 + length tb + 4 + length db \<le> cursor_room w" using assms(4) by (simp add: frame_def)
  have pos: "fc_pos c = ?len c" "?len c < 2 ^ 64" if "at_end c" for c
    using that file_wfD(3,6)[of "fc_file c"] by (simp_all add: at_end_def cursor_bytes_def)
  obtain w1 where w1: "cursor_write oc w (be_bytes 4 (crc32 tp tb)) = Ok w1" "at_end w1"
    "cursor_bytes w1 = cursor_bytes w @ be_bytes 4 (crc32 tp tb)" "cursor_room w1 + 4 = cursor_room w"
    using cursor_write_append[OF assms(1), of "be_bytes 4 (crc32 tp tb)" oc] room by auto
  obtain w2 where w2: "cursor_write oc w1 tb = Ok w2" "at_end w2" "cursor_bytes w2 = cursor_bytes w1 @ tb"
    "cursor_room w2 + length tb = cursor_room w1"
    using cursor_write_append[OF w1(2), of tb oc] room w1(4) by auto
  obtain w3 where w3: "cursor_write oc w2 (be_bytes 4 (crc32 tp db)) = Ok w3" "at_end w3"
    "cursor_bytes w3 = cursor_bytes w2 @ be_bytes 4 (crc32 tp db)" "cursor_room w3 + 4 = cursor_room w2"
    using cursor_write_append[OF w2(2), of "be_bytes 4 (crc32 tp db)" oc] room w1(4) w2(4) by auto
  obtain w4 where w4: "cursor_write oc w3 db = Ok w4" "at_end w4" "cursor_bytes w4 = cursor_bytes w3 @ db"
    "cursor_room w4 + length db = cursor_room w3"
    using cursor_write_append[OF w3(2), of db oc] room w1(4) w2(4) w3(4) by auto
  have bytes: "cursor_bytes w4 = cursor_bytes w @ frame tp (tb, db)"
    using w1(3) w2(3) w3(3) w4(3) by (simp add: frame_def)
  define off voff sz where "off = ?len w" and "voff = ?len w2" and "sz = length tb + length db + 8"
  have nats: "off < 2 ^ 64" "voff < 2 ^ 64" "sz < 2 ^ 64" "voff = off + 4 + length tb"
    using pos(2)[OF w4(2)] bytes w1(3) w2(3) by (simp_all add: frame_def off_def voff_def sz_def)
  let ?fb = "\<lparr>fb_min_ts = lo, fb_max_ts = hi, fb_offset = of_nat off, fb_size = of_nat sz, fb_val_off = of_nat voff,
    fb_field_type = block_field_type b, fb_reader_idx = 0\<rparr>"
  have "write_file_block oc tp w b start fin = Ok (w4, ?fb)"
    unfolding write_file_block_def tsm_put_def using assms(2,3) w1(1) w2(1) w3(1) w4(1) pos(1)[OF assms(1)] pos(1)[OF w2(2)]
    by (simp del: of_nat_add add: off_def voff_def sz_def)
  moreover have "placed tp (cursor_bytes w4) ?fb (tb, db)"
  proof -
    have "unat (of_nat off :: u64) = off" "unat (of_nat voff :: u64) = voff" "unat (of_nat sz :: u64) = sz"
      using nats by (simp_all only: unat_u64)
    moreover have "\<exists>pre post. cursor_bytes w4 = pre @ frame tp (tb, db) @ post \<and> length pre = off"
      using bytes by (intro exI[of _ "cursor_bytes w"] exI[of _ "[]"]) (simp add: off_def)
    ultimately show ?thesis using nats(4) by (simp add: placed_def sz_def)
  qed
  moreover have "cursor_room w4 + length (frame tp (tb, db)) = cursor_room w"
    using w1(4) w2(4) w3(4) w4(4) by (simp add: frame_def)
  ultimately show ?thesis using w4(2) bytes by (intro exI[of _ w4] exI[of _ ?fb]) simp
qed

subsection \<open>The pieces of a block\<close>

text \<open>The bounds of the pieces: the first has the remainder, the others have the full size.\<close>

definition piece_end :: "DataBlock \<Rightarrow> nat \<Rightarrow> nat" where
  "piece_end b i = block_len b mod MAX_BLOCK_VALUES + i * MAX_BLOCK_VALUES"

definition piece_start :: "DataBlock \<Rightarrow> nat \<Rightarrow> nat" where
  "piece_start b i = (if i = 0 then 0 else piece_end b (i - 1))"

definition piece_count :: "DataBlock \<Rightarrow> nat" where
  "piece_count b = (block_len b - 1) div MAX_BLOCK_VALUES + 1"

text \<open>The number of bytes the pieces take; a piece that cannot be encoded takes none.\<close>

definition piece_bytes :: "Codecs \<Rightarrow> DataBlock \<Rightarrow> nat \<Rightarrow> bytes" where
  "piece_bytes tp b i = (case block_encode tp b (piece_start b i) (piece_end b i) of Ok p \<Rightarrow> frame tp p | _ \<Rightarrow> [])"

definition encoded_size :: "Codecs \<Rightarrow> DataBlock \<Rightarrow> nat" where
  "encoded_size tp b = sum_list (map (\<lambda>i. length (piece_bytes tp b i)) [0..<piece_count b])"

lemma pred_div: "m \<noteq> 0 \<Longrightarrow> m < k \<Longrightarrow> (d * k + m - 1) div k = d" for d k m :: nat
  by (cases m) simp_all

lemma piece_bounds:
  assumes "block_len b mod MAX_BLOCK_VALUES \<noteq> 0" "i < piece_count b"
  shows "piece_start b i < piece_end b i" "piece_end b i \<le> block_len b"
proof -
  let ?m = "block_len b mod 1000" and ?d = "block_len b div 1000"
  have m: "?m \<noteq> 0" "block_len b = ?d * 1000 + ?m" using assms(1) by (simp_all add: MAX_BLOCK_VALUES_def)
  have "(?d * 1000 + ?m - 1) div 1000 = ?d" by (rule pred_div) (use m(1) in simp_all)
  then have "(block_len b - 1) div 1000 = ?d" using m(2) by simp
  then have "i \<le> ?d" using assms(2) by (simp add: piece_count_def MAX_BLOCK_VALUES_def)
  then have "?m + i * 1000 \<le> ?m + ?d * 1000" by (intro add_left_mono mult_right_mono) simp_all
  also have "\<dots> = block_len b" by simp
  finally show "piece_end b i \<le> block_len b" by (simp only: piece_end_def MAX_BLOCK_VALUES_def)
  show "piece_start b i < piece_end b i" using m(1)
    by (cases i) (simp_all add: piece_start_def piece_end_def MAX_BLOCK_VALUES_def)
qed

lemma piece_start_count:
  assumes "block_len b mod MAX_BLOCK_VALUES \<noteq> 0"
  shows "piece_start b (piece_count b) = block_len b"
proof -
  let ?m = "block_len b mod 1000" and ?d = "block_len b div 1000"
  have m: "?m \<noteq> 0" "?d * 1000 + ?m = block_len b" using assms by (simp_all add: MAX_BLOCK_VALUES_def)
  have "(?d * 1000 + ?m - 1) div 1000 = ?d" by (rule pred_div) (use m(1) in simp_all)
  then have "piece_count b = ?d + 1" unfolding m(2) by (simp add: piece_count_def MAX_BLOCK_VALUES_def)
  then show ?thesis by (simp add: piece_start_def piece_end_def MAX_BLOCK_VALUES_def)
qed

text \<open>A block of the index that is found in the file and decodes to the piece.\<close>

definition holds_piece :: "bool \<Rightarrow> Codecs \<Rightarrow> bytes \<Rightarrow> FileBlock \<Rightarrow> DataBlock \<Rightarrow> bool" where
  "holds_piece oc tp file fb piece \<longleftrightarrow> (\<exists>tb db ts. placed tp file fb (tb, db) \<and> ts_decode oc (varint_dec tp) tb [] = Ok ts \<and>
     decode_values oc tp (fb_field_type fb) ts db = Some (Ok piece) \<and> ts = block_ts piece \<and> ts \<noteq> [] \<and>
     fb_min_ts fb = hd ts \<and> fb_max_ts fb = last ts \<and> fb_field_type fb = block_field_type piece)"

lemma holds_piece_append: "holds_piece oc tp file fb piece \<Longrightarrow> holds_piece oc tp (file @ tail) fb piece"
  unfolding holds_piece_def using placed_append by blast

lemma holds_piece_decode:
  "file_wf (fc_file c) \<Longrightarrow> holds_piece oc tp (cursor_bytes c) fb piece \<Longrightarrow>
    \<exists>c'. tsm_decode oc tp c fb = Some (Ok (c', piece)) \<and> fc_file c' = fc_file c"
  unfolding holds_piece_def using tsm_decode_placed by blast

lemma block_slice_simps [simp]:
  "block_ts (block_slice b start fin) = sub (block_ts b) start fin"
  "block_field_type (block_slice b start fin) = block_field_type b"
  "block_index (block_slice b start fin) = 0"
  by (cases b; simp)+

lemma sub_ends: "start < fin \<Longrightarrow> fin \<le> length xs \<Longrightarrow> sub xs start fin \<noteq> [] \<and> hd (sub xs start fin) = xs ! start \<and> last (sub xs start fin) = xs ! (fin - 1)"
  by (simp add: hd_drop_conv_nth last_conv_nth)

lemma write_piece_Ok:
  assumes "codecs_ok tp" "encodable oc tp b" "block_wf b" "block_len b mod MAX_BLOCK_VALUES \<noteq> 0" "i < piece_count b"
    and "at_end w" "length (piece_bytes tp b i) \<le> cursor_room w"
  shows "\<exists>w' fb. write_file_block oc tp w b (piece_start b i) (piece_end b i) = Ok (w', fb) \<and> at_end w' \<and>
    cursor_bytes w' = cursor_bytes w @ piece_bytes tp b i \<and> cursor_room w' + length (piece_bytes tp b i) = cursor_room w \<and>
    holds_piece oc tp (cursor_bytes w') fb (block_slice b (piece_start b i) (piece_end b i))"
proof -
  let ?s = "piece_start b i" and ?e = "piece_end b i"
  note bd = piece_bounds[OF assms(4,5)]
  obtain tb db where enc: "block_encode tp b ?s ?e = Ok (tb, db)" "ts_decode oc (varint_dec tp) tb [] = Ok (sub (block_ts b) ?s ?e)"
    "decode_values oc tp (block_field_type b) (sub (block_ts b) ?s ?e) db = Some (Ok (block_slice b ?s ?e))"
    using block_codec[OF assms(1-3) bd] by blast
  have tr: "block_time_range b ?s ?e = Ok (block_ts b ! ?s, block_ts b ! (?e - 1))"
    using bd by (auto simp: block_time_range_def index_def block_len_def)
  have pb: "piece_bytes tp b i = frame tp (tb, db)" using enc(1) by (simp add: piece_bytes_def)
  obtain w' fb where w': "write_file_block oc tp w b ?s ?e = Ok (w', fb)" "at_end w'"
    "cursor_bytes w' = cursor_bytes w @ frame tp (tb, db)" "cursor_room w' + length (frame tp (tb, db)) = cursor_room w"
    "placed tp (cursor_bytes w') fb (tb, db)" "fb_field_type fb = block_field_type b"
    "fb_min_ts fb = block_ts b ! ?s" "fb_max_ts fb = block_ts b ! (?e - 1)"
    using write_file_block_Ok[OF assms(6) tr enc(1) assms(7)[unfolded pb], of oc] by blast
  have "holds_piece oc tp (cursor_bytes w') fb (block_slice b ?s ?e)"
    unfolding holds_piece_def using w'(5-8) enc(2,3) sub_ends[OF bd(1), of "block_ts b"] bd(2)
    by (intro exI[of _ tb] exI[of _ db] exI[of _ "sub (block_ts b) ?s ?e"]) (simp add: block_len_def)
  with w'(1-4) show ?thesis unfolding pb by blast
qed

lemma piece_start_Suc: "piece_start b (Suc i) = piece_end b i"
  by (simp add: piece_start_def)

lemma write_one_loop_Ok:
  assumes "codecs_ok tp" "encodable oc tp b" "block_wf b" "block_len b mod MAX_BLOCK_VALUES \<noteq> 0"
  shows "at_end w \<Longrightarrow> n = piece_count b \<Longrightarrow> i \<le> n \<Longrightarrow> sum_list (map (\<lambda>i. length (piece_bytes tp b i)) [i..<n]) \<le> cursor_room w \<Longrightarrow>
    \<exists>w' fbs. write_one_loop oc tp b n i (piece_start b i) w res = Ok (w', res @ fbs) \<and> at_end w' \<and>
      cursor_bytes w' = cursor_bytes w @ concat (map (piece_bytes tp b) [i..<n]) \<and>
      cursor_room w' + sum_list (map (\<lambda>i. length (piece_bytes tp b i)) [i..<n]) = cursor_room w \<and>
      list_all2 (\<lambda>fb i. holds_piece oc tp (cursor_bytes w') fb (block_slice b (piece_start b i) (piece_end b i))) fbs [i..<n]"
proof (induction "n - i" arbitrary: i w res)
  case 0
  then show ?case by (subst write_one_loop.simps) simp
next
  case (Suc k)
  then have i: "i < piece_count b" "[i..<n] = i # [Suc i..<n]" "i < n" by (simp_all add: upt_conv_Cons)
  obtain w1 fb where w1: "write_file_block oc tp w b (piece_start b i) (piece_end b i) = Ok (w1, fb)" "at_end w1"
    "cursor_bytes w1 = cursor_bytes w @ piece_bytes tp b i" "cursor_room w1 + length (piece_bytes tp b i) = cursor_room w"
    "holds_piece oc tp (cursor_bytes w1) fb (block_slice b (piece_start b i) (piece_end b i))"
    using write_piece_Ok[OF assms i(1) Suc.prems(1)] Suc.prems(4) i(2) by auto
  have "k = n - Suc i" "Suc i \<le> n" "sum_list (map (\<lambda>i. length (piece_bytes tp b i)) [Suc i..<n]) \<le> cursor_room w1"
    using Suc.hyps(2) Suc.prems(4) i(2,3) w1(4) by auto
  from Suc.hyps(1)[OF this(1) w1(2) Suc.prems(2) this(2,3), of "res @ [fb]"]
  obtain w' fbs where w': "write_one_loop oc tp b n (Suc i) (piece_end b i) w1 (res @ [fb]) = Ok (w', res @ fb # fbs)" "at_end w'"
      "cursor_bytes w' = cursor_bytes w1 @ concat (map (piece_bytes tp b) [Suc i..<n])"
      "cursor_room w' + sum_list (map (\<lambda>i. length (piece_bytes tp b i)) [Suc i..<n]) = cursor_room w1"
      "list_all2 (\<lambda>fb i. holds_piece oc tp (cursor_bytes w') fb (block_slice b (piece_start b i) (piece_end b i))) fbs [Suc i..<n]"
    unfolding piece_start_Suc by auto
  have "write_one_loop oc tp b n i (piece_start b i) w res = Ok (w', res @ fb # fbs)"
    using w1(1) w'(1) i(3) by (subst write_one_loop.simps) (simp flip: piece_end_def)
  moreover have "holds_piece oc tp (cursor_bytes w') fb (block_slice b (piece_start b i) (piece_end b i))"
    unfolding w'(3) by (rule holds_piece_append[OF w1(5)])
  ultimately show ?case using w' w1(3,4) unfolding i(2) by (intro exI[of _ w'] exI[of _ "fb # fbs"]) simp
qed

lemma write_one_to_Ok:
  assumes "codecs_ok tp" "encodable oc tp b" "block_wf b" "block_len b mod MAX_BLOCK_VALUES \<noteq> 0"
    and "at_end w" "encoded_size tp b \<le> cursor_room w"
  shows "\<exists>w' fbs file. write_one_to oc tp w b = Ok (w', fbs) \<and> at_end w' \<and> cursor_bytes w' = cursor_bytes w @ file \<and>
    cursor_room w' + encoded_size tp b = cursor_room w \<and>
    list_all2 (\<lambda>fb i. holds_piece oc tp (cursor_bytes w') fb (block_slice b (piece_start b i) (piece_end b i))) fbs [0..<piece_count b]"
proof -
  have "block_len b \<noteq> 0" using assms(4) by (auto simp: MAX_BLOCK_VALUES_def)
  then have "write_one_to oc tp w b = write_one_loop oc tp b (piece_count b) 0 (piece_start b 0) w []"
    by (simp add: write_one_to_def piece_count_def piece_start_def)
  moreover note write_one_loop_Ok[OF assms(1-5) refl, of 0 "[]"] assms(6)
  ultimately show ?thesis unfolding encoded_size_def append_Nil by auto
qed

subsection \<open>The cells that are read\<close>

abbreviation inside :: "TimeRange \<Rightarrow> DataType \<Rightarrow> bool" where
  "inside tr d \<equiv> slt (tr_min_ts tr) (timestamp d) \<and> slt (timestamp d) (tr_max_ts tr)"

lemma read_cells_loop_Ok: "block_wf b \<Longrightarrow> read_cells_loop oc tr b out = Ok (out @ filter (inside tr) (block_cells b))"
proof (induction "length (block_cells b)" arbitrary: b out)
  case 0
  then show ?case using block_next_cells[OF 0(2), of oc] by (subst read_cells_loop.simps) auto
next
  case (Suc n)
  then obtain c cs where c: "block_cells b = c # cs" by (cases "block_cells b") auto
  obtain b' where b': "block_next oc b = Ok (b', Some c)" "block_wf b'" "block_cells b' = cs"
    using block_next_cells[OF Suc.prems, of oc] c by auto
  then show ?case using Suc.hyps(1)[OF _ b'(2)] Suc.hyps(2) c
    by (subst read_cells_loop.simps) simp
qed

lemma block_slice_all: "block_wf b \<Longrightarrow> block_all (block_slice b start fin) = sub (block_all b) start fin"
  by (cases b) (simp_all add: drop_zip take_zip take_map drop_map)

lemma block_slice_wf: "block_wf b \<Longrightarrow> start < fin \<Longrightarrow> fin \<le> block_len b \<Longrightarrow> block_wf (block_slice b start fin)"
  by (cases b) (auto simp: block_wf_def block_len_def)

lemma block_slice_cells: "block_wf b \<Longrightarrow> block_cells (block_slice b start fin) = sub (block_all b) start fin"
  by (simp add: block_cells_def block_slice_all)

lemma pieces_concat: "i \<le> n \<Longrightarrow> n = piece_count b \<Longrightarrow> block_wf b \<Longrightarrow> block_len b mod MAX_BLOCK_VALUES \<noteq> 0 \<Longrightarrow>
  concat (map (\<lambda>i. sub (block_all b) (piece_start b i) (piece_end b i)) [i..<n]) = drop (piece_start b i) (block_all b)"
proof (induction "n - i" arbitrary: i)
  case 0
  then have "piece_start b i = block_len b" by (simp add: piece_start_count)
  then show ?case using 0 by (simp add: length_block_all)
next
  case (Suc k)
  have "[i..<n] = i # [Suc i..<n]" using Suc.hyps(2) by (simp add: upt_conv_Cons)
  moreover have "drop (piece_start b i) (block_all b) = sub (block_all b) (piece_start b i) (piece_end b i) @ drop (piece_end b i) (block_all b)"
    using piece_bounds(1)[OF Suc.prems(4), of i] Suc.hyps(2) Suc.prems(2)
    by (metis append_take_drop_id drop_drop le_add_diff_inverse2 less_imp_le zero_less_Suc zero_less_diff)
  ultimately show ?case using Suc.hyps(1)[of "Suc i"] Suc.hyps(2) Suc.prems by (simp add: piece_start_Suc)
qed

lemma read_blocks_pieces:
  assumes "block_wf b" "block_len b mod MAX_BLOCK_VALUES \<noteq> 0"
  shows "list_all2 (\<lambda>fb i. holds_piece oc tp file fb (block_slice b (piece_start b i) (piece_end b i))) fbs js \<Longrightarrow>
    file_wf (fc_file c) \<Longrightarrow> cursor_bytes c = file \<Longrightarrow> \<forall>i \<in> set js. i < piece_count b \<Longrightarrow>
    \<exists>c'. read_blocks oc tp c fbs tr out = Some (Ok (c', out @ filter (inside tr)
      (concat (map (\<lambda>i. sub (block_all b) (piece_start b i) (piece_end b i)) js))))"
proof (induction fbs js arbitrary: c out rule: list_all2_induct)
  case (Cons fb fbs i js)
  obtain c1 where c1: "tsm_decode oc tp c fb = Some (Ok (c1, block_slice b (piece_start b i) (piece_end b i)))" "fc_file c1 = fc_file c"
    using holds_piece_decode[OF Cons.prems(1)] Cons.hyps(1) Cons.prems(2) by blast
  have i: "i < piece_count b" using Cons.prems(3) by simp
  have rd: "read_cells_loop oc tr (block_slice b (piece_start b i) (piece_end b i)) out =
    Ok (out @ filter (inside tr) (sub (block_all b) (piece_start b i) (piece_end b i)))"
    using read_cells_loop_Ok[OF block_slice_wf[OF assms(1) piece_bounds[OF assms(2) i]], of oc tr out]
    by (simp only: block_slice_cells[OF assms(1)])
  have "cursor_bytes c1 = cursor_bytes c" using c1(2) by (simp add: cursor_bytes_def)
  then show ?case using c1 rd Cons.prems
      Cons.IH[of c1 "out @ filter (inside tr) (sub (block_all b) (piece_start b i) (piece_end b i))"] by simp
qed simp

text \<open>C20: A block written to a TSM file is cut into pieces of at most a thousand values; reading the
  pieces back yields exactly the cells of the block that lie strictly inside the time range.  The number of values is no multiple
  of a thousand, the file has room, and the coders accept the values: no float is the sentinel, strings are below the
  limits, and differences do not wrap in a build with overflow checks.\<close>

theorem tsm_blocks_read_back:
  assumes "codecs_ok tp" and "encodable oc tp b" and "block_wf b" and "block_len b mod 1000 \<noteq> 0"
    and "at_end w" and "encoded_size tp b \<le> cursor_room w"
  shows "\<exists>w' fbs c. write_one_to oc tp w b = Ok (w', fbs) \<and>
    read_blocks oc tp w' fbs tr [] = Some (Ok (c, filter (inside tr) (block_all b)))"
proof -
  have m: "block_len b mod MAX_BLOCK_VALUES \<noteq> 0" using assms(4) by (simp add: MAX_BLOCK_VALUES_def)
  obtain w' fbs where w': "write_one_to oc tp w b = Ok (w', fbs)" "at_end w'"
    "list_all2 (\<lambda>fb i. holds_piece oc tp (cursor_bytes w') fb (block_slice b (piece_start b i) (piece_end b i))) fbs [0..<piece_count b]"
    using write_one_to_Ok[OF assms(1-3) m assms(5,6)] by blast
  have "concat (map (\<lambda>i. sub (block_all b) (piece_start b i) (piece_end b i)) [0..<piece_count b]) = block_all b"
    using pieces_concat[of 0 "piece_count b" b] assms(3) m by (simp add: piece_start_def)
  then show ?thesis
    using read_blocks_pieces[OF assms(3) m w'(3), of w' tr "[]"] w'(1,2) by (auto simp: at_end_def)
qed

text \<open>The varint and the stored format of the interpretations, with a constant checksum.\<close>

definition plain_codecs :: Codecs where
  "plain_codecs = \<lparr>varint_enc = leb_encode, varint_dec = leb_decode, snap_max_len = store_max_len,
     snap_compress = store_compress, snap_decompress = Ok, crc32 = (\<lambda>_. 0)\<rparr>"

lemma plain_codecs_ok: "codecs_ok plain_codecs"
  by (simp add: codecs_ok_def plain_codecs_def leb.varint_axioms store.snappy_axioms)

definition sample_cursor :: FileCursor where
  "sample_cursor = file_into_cursor (blank_file 4096 0)"

lemma sample_cursor_at_end: "at_end sample_cursor" "cursor_room sample_cursor = 4096 * 2 ^ 32 - 1"
  using blank_file_wf[of 4096 0] by (simp_all add: sample_cursor_def at_end_def file_into_cursor_def blank_file_def cursor_room_def)

theorem tsm_blocks_read_back_witness:
  "\<exists>w' fbs c. write_one_to True plain_codecs sample_cursor (BF64 0 [10, 20, 30] [0, 5, 0]) = Ok (w', fbs) \<and>
    read_blocks True plain_codecs w' fbs \<lparr>tr_min_ts = 10, tr_max_ts = 40\<rparr> [] = Some (Ok (c, [DF64 20 5, DF64 30 0]))"
proof -
  have "encoded_size plain_codecs (BF64 0 [10, 20, 30] [0, 5, 0]) \<le> 100" by code_simp
  then have "encoded_size plain_codecs (BF64 0 [10, 20, 30] [0, 5, 0]) \<le> cursor_room sample_cursor"
    unfolding sample_cursor_at_end by simp
  from tsm_blocks_read_back[OF plain_codecs_ok _ _ _ sample_cursor_at_end(1) this, of True "\<lparr>tr_min_ts = 10, tr_max_ts = 40\<rparr>"]
  show ?thesis by (simp add: sadd_ok_def SENTINEL_def block_wf_def block_len_def)
qed

text \<open>C21: The writer panics on every block whose number of values is a multiple of a thousand, also on
  one with exactly a thousand values.\<close>

theorem write_one_to_multiple_panics:
  assumes "block_len b mod 1000 = 0"
  shows "write_one_to oc tp w b = Panic"
proof (cases "block_len b = 0")
  case False
  then have "write_file_block oc tp w b 0 0 = Panic"
    by (auto simp: write_file_block_def block_time_range_def index_def block_len_def)
  then show ?thesis using assms False
    by (simp add: write_one_to_def write_one_loop.simps[of oc tp b _ 0] MAX_BLOCK_VALUES_def)
qed (simp add: write_one_to_def)

theorem write_one_to_multiple_panics_witness:
  "write_one_to False plain_codecs sample_cursor (BBool 0 (replicate 2000 5) (replicate 2000 True)) = Panic"
  by (rule write_one_to_multiple_panics) (simp add: block_len_def)

end
