(* ===== verification/TsmIndex.thy ===== *)
theory TsmIndex
  imports TsmBlock "HOL-Library.Multiset"
begin

text \<open>
  Header, index and footer of a TSM file: the writers of \<^verbatim>\<open>src/tskv/src/tsm/writer.rs\<close>, the index reader of
  \<^verbatim>\<open>tsm/reader.rs\<close> and the entries of \<^verbatim>\<open>tsm/index.rs\<close>.  A hash map that is written is an
  association list in its iteration order.  The main result composes them with the block writer: the
  index of a written file lists every piece of every field, and each entry leads to its piece.
\<close>

subsection \<open>Writers\<close>

definition TSM_MAGIC :: u32 where
  "TSM_MAGIC = 0x1346613"

definition VERSION :: u8 where
  "VERSION = 1"

definition BLOOM_FILTER_SIZE :: nat where
  "BLOOM_FILTER_SIZE = 64"

definition FOOTER_SIZE :: nat where
  "FOOTER_SIZE = BLOOM_FILTER_SIZE + 8"

definition write_header_to :: "bool \<Rightarrow> FileCursor \<Rightarrow> (TskvError, FileCursor) result" where
  "write_header_to oc writer =
     map_err EWriteTsmErr
       (rbind (cursor_write oc writer (be_bytes 4 TSM_MAGIC)) (\<lambda>writer. cursor_write oc writer (be_bytes 1 VERSION)))"

definition write_footer_to :: "bool \<Rightarrow> FileCursor \<Rightarrow> BloomFilter \<Rightarrow> u64 \<Rightarrow> (TskvError, FileCursor) result" where
  "write_footer_to oc writer bloom_filter index_offset =
     map_err EWriteTsmErr
       (rbind (cursor_write oc writer (bloom_bytes bloom_filter)) (\<lambda>writer.
          cursor_write oc writer (to_be_bytes index_offset)))"

definition new_bloom_filter :: "(TskvError, BloomFilter) result" where
  "new_bloom_filter = unwrap (bloom_new 512)"

definition block_entry_bytes :: "FileBlock \<Rightarrow> bytes" where
  "block_entry_bytes blk = to_be_bytes (fb_min_ts blk) @ to_be_bytes (fb_max_ts blk) @ to_be_bytes (fb_offset blk) @
     to_be_bytes (fb_size blk) @ to_be_bytes (fb_val_off blk)"

fun index_blocks_loop :: "FieldId \<Rightarrow> FileBlock list \<Rightarrow> bytes \<Rightarrow> BloomFilter \<Rightarrow> (TskvError, bytes \<times> BloomFilter) result" where
  "index_blocks_loop fid [] buf bloom_filter = Ok (buf, bloom_filter)"
| "index_blocks_loop fid (blk # blks) buf bloom_filter =
     rbind (unwrap (bloom_insert bloom_filter (to_be_bytes fid))) (\<lambda>bloom_filter.
       index_blocks_loop fid blks (buf @ block_entry_bytes blk) bloom_filter)"

definition index_field_bytes :: "FieldId \<Rightarrow> FileBlock list \<Rightarrow> BloomFilter \<Rightarrow> (TskvError, bytes \<times> BloomFilter) result" where
  "index_field_bytes fid blks bloom_filter =
     (case blks of
        [] \<Rightarrow> Panic
      | block # _ \<Rightarrow>
          let typ = u8_from_value_type (fb_field_type block);
              cnt = (of_nat (length blks) :: u16) in
          index_blocks_loop fid blks (to_be_bytes fid @ be_bytes 1 typ @ be_bytes 2 cnt) bloom_filter)"

fun write_index_loop ::
  "bool \<Rightarrow> FileCursor \<Rightarrow> (FieldId \<times> FileBlock list) list \<Rightarrow> BloomFilter \<Rightarrow> (TskvError, FileCursor \<times> BloomFilter) result" where
  "write_index_loop oc writer [] bloom_filter = Ok (writer, bloom_filter)"
| "write_index_loop oc writer ((fid, blks) # indexs) bloom_filter =
     rbind (index_field_bytes fid blks bloom_filter) (\<lambda>(buf, bloom_filter).
     rbind (tsm_put oc writer buf) (\<lambda>writer. write_index_loop oc writer indexs bloom_filter))"

definition write_index_to ::
  "bool \<Rightarrow> FileCursor \<Rightarrow> (FieldId \<times> FileBlock list) list \<Rightarrow> (TskvError, FileCursor \<times> BloomFilter) result" where
  "write_index_to oc writer indexs = rbind new_bloom_filter (\<lambda>bloom_filter. write_index_loop oc writer indexs bloom_filter)"

text \<open>The provided method \<^verbatim>\<open>write\<close> of the trait \<^verbatim>\<open>TsmWriter\<close>, over the five required methods and the text of an
  error.  The size of the footer is not added: the closure after \<^verbatim>\<open>write_footer\<close> shadows the sum.\<close>

definition tsm_writer_write ::
  "(TskvError \<Rightarrow> string) \<Rightarrow> ('s \<Rightarrow> (TskvError, 's \<times> nat) result) \<Rightarrow> ('s \<Rightarrow> (TskvError, 's \<times> nat) result) \<Rightarrow>
   ('s \<Rightarrow> (TskvError, 's \<times> nat) result) \<Rightarrow> ('s \<Rightarrow> (TskvError, 's \<times> nat) result) \<Rightarrow> ('s \<Rightarrow> (TskvError, 's) result) \<Rightarrow>
   's \<Rightarrow> (TskvError, 's \<times> nat) result" where
  "tsm_writer_write to_string write_header write_blocks write_index write_footer commit s =
     map_err (\<lambda>e. EWriteTsmErr (to_string e))
       (rbind (write_header s) (\<lambda>(s, i1).
        rbind (write_blocks s) (\<lambda>(s, i2).
        rbind (write_index s) (\<lambda>(s, i3).
        rbind (write_footer s) (\<lambda>(s, _).
        rbind (commit s) (\<lambda>s. Ok (s, 0 + i1 + i2 + i3)))))))"

subsection \<open>The index reader\<close>

record IndexEntry =
  ie_key :: bytes
  ie_block_type :: ValueType
  ie_count :: u16
  ie_block :: FileBlock
  ie_curr_block :: u16

definition ie_field_id :: "IndexEntry \<Rightarrow> ('e, FieldId) result" where
  "ie_field_id e = rbind (slice_range (ie_key e) 0 8) decode_be_u64"

record TsmIndexReader =
  ir_r :: FileCursor
  ir_buf :: bytes
  ir_curr_offset :: u64
  ir_end_offset :: u64
  ir_curr :: "IndexEntry option"
  ir_next :: "IndexEntry option"

text \<open>\<^verbatim>\<open>len - FOOTER_SIZE\<close> wraps when overflow is not checked.\<close>

definition index_reader_try_new :: "bool \<Rightarrow> FileCursor \<Rightarrow> nat \<Rightarrow> (TskvError, TsmIndexReader) result" where
  "index_reader_try_new oc r len =
     rbind (map_err EReadTsmErr (cursor_seek oc r (SeekEnd (- 8)))) (\<lambda>(r, _).
     rbind (map_err EReadTsmErr (cursor_read oc r 8)) (\<lambda>(r, data).
     rbind (write_front (replicate 8 0) data) (\<lambda>buf.
       let index_offset = from_be buf in
       rbind (map_err EReadTsmErr (cursor_seek oc r (SeekStart (unat index_offset)))) (\<lambda>(r, _).
       rbind (sub_u64 oc (of_nat len) (of_nat FOOTER_SIZE)) (\<lambda>end_offset.
         Ok \<lparr>ir_r = r, ir_buf = buf, ir_curr_offset = index_offset, ir_end_offset = end_offset,
             ir_curr = None, ir_next = None\<rparr>)))))"

text \<open>A read of \<^verbatim>\<open>n\<close> bytes to the front of the buffer, and the offset moved by \<^verbatim>\<open>n\<close>.\<close>

definition index_read :: "bool \<Rightarrow> nat \<Rightarrow> TsmIndexReader \<Rightarrow> (TskvError, TsmIndexReader) result" where
  "index_read oc n s =
     rbind (map_err EReadTsmErr (cursor_read oc (ir_r s) n)) (\<lambda>(r, data).
     rbind (write_front (ir_buf s) data) (\<lambda>buf.
     rbind (add_u64 oc (ir_curr_offset s) (of_nat n)) (\<lambda>off.
       Ok (s\<lparr>ir_r := r, ir_buf := buf, ir_curr_offset := off\<rparr>))))"

definition next_block_entry :: "bool \<Rightarrow> ValueType \<Rightarrow> TsmIndexReader \<Rightarrow> (TskvError, TsmIndexReader \<times> FileBlock) result" where
  "next_block_entry oc field_type s =
     rbind (index_read oc 8 s) (\<lambda>s. let min_ts = from_be (ir_buf s) in
     rbind (index_read oc 8 s) (\<lambda>s. let max_ts = from_be (ir_buf s) in
     rbind (index_read oc 8 s) (\<lambda>s. let offset = from_be (ir_buf s) in
     rbind (index_read oc 8 s) (\<lambda>s. let sz = from_be (ir_buf s) in
     rbind (index_read oc 8 s) (\<lambda>s. let val_off = from_be (ir_buf s) in
       Ok (s, \<lparr>fb_min_ts = min_ts, fb_max_ts = max_ts, fb_offset = offset, fb_size = sz, fb_val_off = val_off,
               fb_field_type = field_type, fb_reader_idx = 0\<rparr>))))))"

definition next_index_entry :: "bool \<Rightarrow> TsmIndexReader \<Rightarrow> (TskvError, TsmIndexReader \<times> IndexEntry) result" where
  "next_index_entry oc s =
     rbind (index_read oc 8 s) (\<lambda>s. let field_id = take 8 (ir_buf s) in
     rbind (index_read oc 3 s) (\<lambda>s.
     rbind (index (ir_buf s) 0) (\<lambda>b. let block_type = value_type_from_u8 b in
     rbind (slice_range (ir_buf s) 1 3) (\<lambda>c.
     rbind (decode_be_u16 c) (\<lambda>count.
     rbind (next_block_entry oc block_type s) (\<lambda>(s, block).
       Ok (s, \<lparr>ie_key = field_id, ie_block_type = block_type, ie_count = count, ie_block = block, ie_curr_block = 1\<rparr>)))))))"

text \<open>An error ends the iteration in the model; the code would go on reading at an unknown place.
  \<^verbatim>\<open>curr_block += 1\<close> is guarded by the comparison with the count.\<close>

definition index_next :: "bool \<Rightarrow> TsmIndexReader \<Rightarrow> (TskvError, TsmIndexReader \<times> IndexEntry option) result" where
  "index_next oc s =
     (if ir_curr_offset s = ir_end_offset s then Ok (s, None)
      else
        rbind (case ir_curr s of
                 Some cur \<Rightarrow>
                   if ie_curr_block cur < ie_count cur then
                     rbind (next_block_entry oc (ie_block_type cur) s) (\<lambda>(s, block).
                       Ok (s, cur\<lparr>ie_block := block, ie_curr_block := ie_curr_block cur + 1\<rparr>))
                   else next_index_entry oc s
               | None \<Rightarrow> next_index_entry oc s) (\<lambda>(s, nxt).
          Ok (s\<lparr>ir_next := Some nxt, ir_curr := Some nxt\<rparr>, Some nxt)))"

subsection \<open>A whole file\<close>

text \<open>\<^verbatim>\<open>order\<close> is the order in which the hash map of the index yields its fields, \<^verbatim>\<open>sync_all\<close> the outcome of
  flushing the file to the disk.\<close>

definition build_tsm_file ::
  "bool \<Rightarrow> Codecs \<Rightarrow> (FileCursor \<Rightarrow> (string, unit) result) \<Rightarrow>
   ((FieldId \<times> FileBlock list) list \<Rightarrow> (FieldId \<times> FileBlock list) list) \<Rightarrow>
   File \<Rightarrow> (FieldId \<times> DataBlock) list \<Rightarrow> (TskvError, FileCursor \<times> nat) result" where
  "build_tsm_file oc tp sync_all order file block_set =
     (let fs_cursor = file_into_cursor file in
      rbind (write_header_to oc fs_cursor) (\<lambda>fs_cursor.
      rbind (write_blocks_to oc tp fs_cursor block_set) (\<lambda>(fs_cursor, ix).
        let index_pos = fc_pos fs_cursor in
        rbind (write_index_to oc fs_cursor (order ix)) (\<lambda>(fs_cursor, bloom_filter).
        rbind (write_footer_to oc fs_cursor bloom_filter (of_nat index_pos)) (\<lambda>fs_cursor.
        rbind (map_err EWriteTsmErr (sync_all fs_cursor)) (\<lambda>_.
          Ok (fs_cursor, f_len (fc_file fs_cursor))))))))"

subsection \<open>The index as bytes\<close>

definition field_bytes :: "FieldId \<times> FileBlock list \<Rightarrow> bytes" where
  "field_bytes = (\<lambda>(fid, blks). to_be_bytes fid @ be_bytes 1 (u8_from_value_type (fb_field_type (hd blks))) @
     be_bytes 2 (of_nat (length blks) :: u16) @ concat (map block_entry_bytes blks))"

lemma length_block_entry_bytes [simp]: "length (block_entry_bytes blk) = 40"
  by (simp add: block_entry_bytes_def)

lemma length_entries [simp]: "length (concat (map block_entry_bytes blks)) = 40 * length blks"
  by (induction blks) auto

lemma length_field_bytes [simp]: "length (field_bytes (fid, blks)) = 11 + 40 * length blks"
  by (simp add: field_bytes_def)

lemma bloom_insert_same_length:
  "bloom_wf f \<Longrightarrow> \<exists>f'. bloom_insert f d = Ok f' \<and> bloom_wf f' \<and> length (bf_b f') = length (bf_b f)"
  by (simp add: bloom_insert_eq bloom_wf_update)

lemma index_blocks_loop_Ok:
  "bloom_wf f \<Longrightarrow> \<exists>f'. index_blocks_loop fid blks buf f = Ok (buf @ concat (map block_entry_bytes blks), f') \<and> bloom_wf f' \<and>
    length (bf_b f') = length (bf_b f)"
proof (induction blks arbitrary: buf f)
  case (Cons blk blks)
  obtain f1 where f1: "bloom_insert f (to_be_bytes fid) = Ok f1" "bloom_wf f1" "length (bf_b f1) = length (bf_b f)"
    using bloom_insert_same_length[OF Cons.prems] by blast
  then show ?case using Cons.IH[OF f1(2), of "buf @ block_entry_bytes blk"] by auto
qed simp

lemma index_field_bytes_Ok:
  assumes "bloom_wf f" "blks \<noteq> []"
  shows "\<exists>f'. index_field_bytes fid blks f = Ok (field_bytes (fid, blks), f') \<and> bloom_wf f' \<and> length (bf_b f') = length (bf_b f)"
proof -
  let ?pre = "to_be_bytes fid @ be_bytes 1 (u8_from_value_type (fb_field_type (hd blks))) @ be_bytes 2 (of_nat (length blks) :: u16)"
  have "index_field_bytes fid blks f = index_blocks_loop fid blks ?pre f"
    using assms(2) by (cases blks) (simp_all add: index_field_bytes_def del: index_blocks_loop.simps)
  then show ?thesis using index_blocks_loop_Ok[OF assms(1), of fid blks ?pre] by (simp only: field_bytes_def prod.case append.assoc)
qed

lemma tsm_put_append:
  assumes "at_end w" "length buf \<le> cursor_room w"
  shows "\<exists>w'. tsm_put oc w buf = Ok w' \<and> at_end w' \<and> cursor_bytes w' = cursor_bytes w @ buf \<and> cursor_room w' + length buf = cursor_room w"
  using cursor_write_append[OF assms, of oc] by (auto simp: tsm_put_def)

lemma write_index_loop_Ok:
  "at_end w \<Longrightarrow> bloom_wf f \<Longrightarrow> \<forall>(fid, blks) \<in> set ix. blks \<noteq> [] \<Longrightarrow> length (concat (map field_bytes ix)) \<le> cursor_room w \<Longrightarrow>
    \<exists>w' f'. write_index_loop oc w ix f = Ok (w', f') \<and> at_end w' \<and> cursor_bytes w' = cursor_bytes w @ concat (map field_bytes ix) \<and>
      cursor_room w' + length (concat (map field_bytes ix)) = cursor_room w \<and> length (bf_b f') = length (bf_b f)"
proof (induction ix arbitrary: w f)
  case (Cons p ix)
  obtain fid blks where p: "p = (fid, blks)" "blks \<noteq> []" using Cons.prems(3) by (cases p) auto
  obtain f1 where f1: "index_field_bytes fid blks f = Ok (field_bytes p, f1)" "bloom_wf f1" "length (bf_b f1) = length (bf_b f)"
    using index_field_bytes_Ok[OF Cons.prems(2) p(2)] p(1) by blast
  obtain w1 where w1: "tsm_put oc w (field_bytes p) = Ok w1" "at_end w1" "cursor_bytes w1 = cursor_bytes w @ field_bytes p"
    "cursor_room w1 + length (field_bytes p) = cursor_room w"
    using tsm_put_append[OF Cons.prems(1), of "field_bytes p" oc] Cons.prems(4) by auto
  have "length (concat (map field_bytes ix)) \<le> cursor_room w1" using Cons.prems(4) w1(4) by simp
  from Cons.IH[OF w1(2) f1(2) _ this] Cons.prems(3) obtain w' f' where
    "write_index_loop oc w1 ix f1 = Ok (w', f')" "at_end w'" "cursor_bytes w' = cursor_bytes w1 @ concat (map field_bytes ix)"
    "cursor_room w' + length (concat (map field_bytes ix)) = cursor_room w1" "length (bf_b f') = length (bf_b f1)" by auto
  then show ?case using f1 w1 p(1) by auto
qed simp

lemma new_bloom_filter_Ok: "\<exists>f. new_bloom_filter = Ok f \<and> bloom_wf f \<and> length (bf_b f) = 64"
proof -
  have "rmap (\<lambda>f. length (bf_b f)) (bloom_new 512) = Ok 64" by code_simp
  then show ?thesis using bloom_new_wf[of 512] by (auto simp: new_bloom_filter_def)
qed

lemma write_index_to_Ok:
  assumes "at_end w" "\<forall>(fid, blks) \<in> set ix. blks \<noteq> []" "length (concat (map field_bytes ix)) \<le> cursor_room w"
  shows "\<exists>w' f. write_index_to oc w ix = Ok (w', f) \<and> at_end w' \<and> cursor_bytes w' = cursor_bytes w @ concat (map field_bytes ix) \<and>
      cursor_room w' + length (concat (map field_bytes ix)) = cursor_room w \<and> length (bloom_bytes f) = 64"
proof -
  obtain f where f: "new_bloom_filter = Ok f" "bloom_wf f" "length (bf_b f) = 64" using new_bloom_filter_Ok by blast
  have "write_index_to oc w ix = write_index_loop oc w ix f" unfolding write_index_to_def by (subst f(1)) simp
  then show ?thesis using write_index_loop_Ok[OF assms(1) f(2) assms(2,3), of oc] f(3) unfolding bloom_bytes_def by metis
qed

subsection \<open>Reading the index\<close>

text \<open>The reader stands before the bytes \<^verbatim>\<open>rest\<close>.\<close>

definition ready :: "TsmIndexReader \<Rightarrow> bytes \<Rightarrow> bool" where
  "ready s rest \<longleftrightarrow> file_wf (fc_file (ir_r s)) \<and> fc_pos (ir_r s) \<le> f_len (fc_file (ir_r s)) \<and>
     drop (fc_pos (ir_r s)) (cursor_bytes (ir_r s)) = rest \<and> ir_curr_offset s = of_nat (fc_pos (ir_r s)) \<and> length (ir_buf s) = 8"

text \<open>What a read keeps of the reader.\<close>

definition same_run :: "TsmIndexReader \<Rightarrow> TsmIndexReader \<Rightarrow> bool" where
  "same_run s s' \<longleftrightarrow> ir_end_offset s' = ir_end_offset s \<and> ir_curr s' = ir_curr s \<and> fc_file (ir_r s') = fc_file (ir_r s)"

lemma same_run_trans: "same_run s s' \<Longrightarrow> same_run s' s'' \<Longrightarrow> same_run s s''"
  by (simp add: same_run_def)

lemma index_read_Ok:
  assumes "ready s (data @ rest)" "length data = n" "n \<le> 8"
  shows "\<exists>s'. index_read oc n s = Ok s' \<and> ready s' rest \<and> same_run s s' \<and> ir_buf s' = data @ drop n (ir_buf s) \<and>
    fc_pos (ir_r s') = fc_pos (ir_r s) + n"
proof -
  let ?c = "ir_r s" and ?pos = "fc_pos (ir_r s)"
  have s: "file_wf (fc_file ?c)" "?pos \<le> f_len (fc_file ?c)" "drop ?pos (cursor_bytes ?c) = data @ rest"
    "ir_curr_offset s = of_nat ?pos" "length (ir_buf s) = 8" using assms(1) by (simp_all add: ready_def)
  have fl: "length (cursor_bytes ?c) = f_len (fc_file ?c)" by (simp add: cursor_bytes_def)
  have "length (drop ?pos (cursor_bytes ?c)) = n + length rest" using s(3) assms(2) by simp
  then have n: "?pos + n \<le> f_len (fc_file ?c)" using fl s(2) by simp
  have lt: "?pos + n < 2 ^ 64" using n file_wfD(3,6)[OF s(1)] by linarith
  have rd: "cursor_read oc ?c n = Ok (?c\<lparr>fc_pos := ?pos + n\<rparr>, data)"
    using cursor_read_Ok[OF s(1,2), of oc n] n assms(2) s(3) by (simp add: min_def)
  have add: "add_u64 oc (of_nat ?pos) (of_nat n) = (Ok (of_nat (?pos + n)) :: (TskvError, u64) result)"
    using add_u64_fits[of "of_nat ?pos" "of_nat n" oc] lt assms(3) by (simp add: unat_u64)
  have "drop (?pos + n) (cursor_bytes ?c) = rest"
    using arg_cong[OF s(3), of "drop n"] assms(2) by (simp add: add.commute)
  then show ?thesis using rd add s assms n
    by (simp add: index_read_def write_front_def ready_def same_run_def cursor_bytes_def)
qed

lemma next_block_entry_Ok:
  assumes "ready s (block_entry_bytes blk @ rest)"
  shows "\<exists>s'. next_block_entry oc ft s = Ok (s', blk\<lparr>fb_field_type := ft, fb_reader_idx := 0\<rparr>) \<and> ready s' rest \<and> same_run s s' \<and>
    fc_pos (ir_r s') = fc_pos (ir_r s) + 40"
proof -
  note r = index_read_Ok[where n = 8 and oc = oc]
  have buf: "\<And>s s' rest. ready s rest \<Longrightarrow> drop 8 (ir_buf s) = []" by (simp add: ready_def)
  obtain s1 where s1: "index_read oc 8 s = Ok s1" "ready s1 (to_be_bytes (fb_max_ts blk) @ to_be_bytes (fb_offset blk) @
      to_be_bytes (fb_size blk) @ to_be_bytes (fb_val_off blk) @ rest)" "same_run s s1" "ir_buf s1 = to_be_bytes (fb_min_ts blk)"
      "fc_pos (ir_r s1) = fc_pos (ir_r s) + 8"
    using r[of s "to_be_bytes (fb_min_ts blk)"] assms buf[OF assms] by (auto simp: block_entry_bytes_def)
  obtain s2 where s2: "index_read oc 8 s1 = Ok s2" "ready s2 (to_be_bytes (fb_offset blk) @
      to_be_bytes (fb_size blk) @ to_be_bytes (fb_val_off blk) @ rest)" "same_run s1 s2" "ir_buf s2 = to_be_bytes (fb_max_ts blk)"
      "fc_pos (ir_r s2) = fc_pos (ir_r s1) + 8"
    using r[OF s1(2)] buf[OF s1(2)] by auto
  obtain s3 where s3: "index_read oc 8 s2 = Ok s3" "ready s3 (to_be_bytes (fb_size blk) @ to_be_bytes (fb_val_off blk) @ rest)"
      "same_run s2 s3" "ir_buf s3 = to_be_bytes (fb_offset blk)" "fc_pos (ir_r s3) = fc_pos (ir_r s2) + 8"
    using r[OF s2(2)] buf[OF s2(2)] by auto
  obtain s4 where s4: "index_read oc 8 s3 = Ok s4" "ready s4 (to_be_bytes (fb_val_off blk) @ rest)"
      "same_run s3 s4" "ir_buf s4 = to_be_bytes (fb_size blk)" "fc_pos (ir_r s4) = fc_pos (ir_r s3) + 8"
    using r[OF s3(2)] buf[OF s3(2)] by auto
  obtain s5 where s5: "index_read oc 8 s4 = Ok s5" "ready s5 rest" "same_run s4 s5" "ir_buf s5 = to_be_bytes (fb_val_off blk)"
      "fc_pos (ir_r s5) = fc_pos (ir_r s4) + 8"
    using r[OF s4(2)] buf[OF s4(2)] by auto
  have "same_run s s5" using s1(3) s2(3) s3(3) s4(3) s5(3) by (simp add: same_run_def)
  then show ?thesis
    using s1(1,4,5) s2(1,4,5) s3(1,4,5) s4(1,4,5) s5(1,2,4,5) by (simp add: next_block_entry_def)
qed

lemma value_type_u8: "value_type_from_u8 (u8_from_value_type t) = t"
  by (cases t) (simp_all add: value_type_from_u8_def)

text \<open>An entry of the index, and the entries of a field.\<close>

definition entry_of :: "FieldId \<Rightarrow> ValueType \<Rightarrow> nat \<Rightarrow> FileBlock \<Rightarrow> nat \<Rightarrow> IndexEntry" where
  "entry_of fid ft n blk i = \<lparr>ie_key = to_be_bytes fid, ie_block_type = ft, ie_count = of_nat n,
     ie_block = blk\<lparr>fb_field_type := ft, fb_reader_idx := 0\<rparr>, ie_curr_block = of_nat i\<rparr>"

definition field_entries :: "FieldId \<times> FileBlock list \<Rightarrow> IndexEntry list" where
  "field_entries = (\<lambda>(fid, blks). map2 (entry_of fid (fb_field_type (hd blks)) (length blks)) blks [1..<Suc (length blks)])"

lemma be_bytes_1: "be_bytes (Suc 0) (v :: u8) = [v]"
  by (simp add: be_bytes_Suc)

lemma next_index_entry_Ok:
  assumes "ready s (field_bytes (fid, blk # blks) @ rest)"
  shows "\<exists>s'. next_index_entry oc s = Ok (s', entry_of fid (fb_field_type blk) (length (blk # blks)) blk 1) \<and>
    ready s' (concat (map block_entry_bytes blks) @ rest) \<and> same_run s s' \<and> fc_pos (ir_r s') = fc_pos (ir_r s) + 51"
proof -
  define n :: u16 where "n = of_nat (length (blk # blks))"
  let ?ft = "fb_field_type blk" and ?rest = "concat (map block_entry_bytes blks) @ rest"
  have fb: "field_bytes (fid, blk # blks) @ rest =
    to_be_bytes fid @ (be_bytes 1 (u8_from_value_type ?ft) @ be_bytes 2 n) @ block_entry_bytes blk @ ?rest"
    by (simp add: field_bytes_def n_def)
  have buf: "length (ir_buf s) = 8" using assms by (simp add: ready_def)
  obtain s1 where s1: "index_read oc 8 s = Ok s1" "ready s1 ((be_bytes 1 (u8_from_value_type ?ft) @ be_bytes 2 n) @ block_entry_bytes blk @ ?rest)"
    "same_run s s1" "ir_buf s1 = to_be_bytes fid" "fc_pos (ir_r s1) = fc_pos (ir_r s) + 8"
    using index_read_Ok[OF assms[unfolded fb], where n = 8 and oc = oc] buf by auto
  obtain s2 where s2: "index_read oc 3 s1 = Ok s2" "ready s2 (block_entry_bytes blk @ ?rest)" "same_run s1 s2"
    "ir_buf s2 = (be_bytes 1 (u8_from_value_type ?ft) @ be_bytes 2 n) @ drop 3 (to_be_bytes fid)"
    "fc_pos (ir_r s2) = fc_pos (ir_r s1) + 3"
    using index_read_Ok[OF s1(2), where n = 3 and oc = oc] s1(4) by auto
  obtain s3 where s3: "next_block_entry oc ?ft s2 = Ok (s3, blk\<lparr>fb_field_type := ?ft, fb_reader_idx := 0\<rparr>)" "ready s3 ?rest"
    "same_run s2 s3" "fc_pos (ir_r s3) = fc_pos (ir_r s2) + 40"
    using next_block_entry_Ok[OF s2(2), of oc ?ft] by blast
  have b: "index (ir_buf s2) 0 = (Ok (u8_from_value_type ?ft) :: (TskvError, u8) result)"
    "slice_range (ir_buf s2) 1 3 = (Ok (be_bytes 2 n) :: (TskvError, bytes) result)"
    "decode_be_u16 (be_bytes 2 n) = (Ok n :: (TskvError, u16) result)"
    unfolding s2(4) by (simp_all add: index_def slice_range_def be_bytes_1 decode_be_u16_def decode_be_def)
  have "next_index_entry oc s = Ok (s3, entry_of fid ?ft (length (blk # blks)) blk 1)"
    unfolding next_index_entry_def entry_of_def n_def[symmetric] using s1(1,4) s2(1) s3(1) b by (simp add: value_type_u8 Let_def)
  moreover have "same_run s s3" using s1(3) s2(3) s3(3) by (simp add: same_run_def)
  ultimately show ?thesis using s1(5) s2(5) s3(2,4) by simp
qed

text \<open>The reader has the bytes \<^verbatim>\<open>todo\<close> of the index before it.\<close>

definition before :: "TsmIndexReader \<Rightarrow> bytes \<Rightarrow> bool" where
  "before s todo \<longleftrightarrow> (\<exists>foot. ready s (todo @ foot)) \<and> ir_end_offset s = of_nat (fc_pos (ir_r s) + length todo)"

definition mid_field :: "TsmIndexReader \<Rightarrow> bool" where
  "mid_field s \<longleftrightarrow> (\<exists>e. ir_curr s = Some e \<and> ie_curr_block e < ie_count e)"

lemma before_offset:
  assumes "before s todo"
  shows "ir_curr_offset s = ir_end_offset s \<longleftrightarrow> todo = []"
proof -
  obtain foot where r: "ready s (todo @ foot)" "ir_end_offset s = of_nat (fc_pos (ir_r s) + length todo)"
    using assms by (auto simp: before_def)
  have "length (drop (fc_pos (ir_r s)) (cursor_bytes (ir_r s))) = length todo + length foot" using r(1) by (simp add: ready_def)
  moreover have "fc_pos (ir_r s) \<le> f_len (fc_file (ir_r s))" using r(1) by (simp add: ready_def)
  ultimately have "fc_pos (ir_r s) + length todo \<le> f_len (fc_file (ir_r s))" by (simp add: cursor_bytes_def)
  then have lt: "fc_pos (ir_r s) + length todo < 2 ^ 64" using file_wfD(3,6)[of "fc_file (ir_r s)"] r(1) unfolding ready_def by linarith
  have "ir_curr_offset s = ir_end_offset s \<longleftrightarrow> unat (of_nat (fc_pos (ir_r s)) :: u64) = unat (of_nat (fc_pos (ir_r s) + length todo) :: u64)"
    using r by (simp only: ready_def word_unat_eq_iff)
  also have "\<dots> \<longleftrightarrow> todo = []" using lt by (simp only: unat_u64 add_lessD1 length_0_conv[symmetric]) linarith
  finally show ?thesis .
qed

lemma before_step:
  assumes "before s (a @ todo)" "ready s' (todo @ foot)" "same_run s s'" "fc_pos (ir_r s') = fc_pos (ir_r s) + length a"
  shows "before (s'\<lparr>ir_next := x, ir_curr := y\<rparr>) todo"
  using assms by (auto simp: before_def same_run_def ready_def add.assoc)

lemma index_next_block:
  assumes "before s (block_entry_bytes blk @ todo)" "ir_curr s = Some (entry_of fid ft n b i)" "i < n" "n < 2 ^ 16"
  shows "\<exists>s'. index_next oc s = Ok (s', Some (entry_of fid ft n blk (Suc i))) \<and> before s' todo \<and>
    ir_curr s' = Some (entry_of fid ft n blk (Suc i))"
proof -
  obtain foot where "ready s (block_entry_bytes blk @ todo @ foot)" using assms(1) by (auto simp: before_def)
  from next_block_entry_Ok[OF this, of oc ft] obtain s1 where s1:
    "next_block_entry oc ft s = Ok (s1, blk\<lparr>fb_field_type := ft, fb_reader_idx := 0\<rparr>)" "ready s1 (todo @ foot)" "same_run s s1"
    "fc_pos (ir_r s1) = fc_pos (ir_r s) + 40" by blast
  have lt: "(of_nat i :: u16) < of_nat n" using assms(3,4) by (simp add: word_less_nat_alt unat_of_nat take_bit_eq_mod)
  have ne: "ir_curr_offset s \<noteq> ir_end_offset s"
    using before_offset[OF assms(1)] by (auto simp: block_entry_bytes_def)
  let ?e = "entry_of fid ft n blk (Suc i)"
  have "(entry_of fid ft n b i)\<lparr>ie_block := blk\<lparr>fb_field_type := ft, fb_reader_idx := 0\<rparr>, ie_curr_block := of_nat i + 1\<rparr> = ?e"
    by (simp add: entry_of_def)
  then have "index_next oc s = Ok (s1\<lparr>ir_next := Some ?e, ir_curr := Some ?e\<rparr>, Some ?e)"
    using ne s1(1) assms(2) lt by (simp add: index_next_def entry_of_def)
  moreover have "before (s1\<lparr>ir_next := Some ?e, ir_curr := Some ?e\<rparr>) todo"
    using before_step[OF assms(1) s1(2,3)] s1(4) by simp
  ultimately show ?thesis by simp
qed

lemma index_next_field:
  assumes "before s (field_bytes (fid, blk # blks) @ todo)" "\<not> mid_field s"
  shows "\<exists>s'. index_next oc s = Ok (s', Some (entry_of fid (fb_field_type blk) (length (blk # blks)) blk 1)) \<and>
    before s' (concat (map block_entry_bytes blks) @ todo) \<and>
    ir_curr s' = Some (entry_of fid (fb_field_type blk) (length (blk # blks)) blk 1)"
proof -
  let ?e = "entry_of fid (fb_field_type blk) (length (blk # blks)) blk 1"
  obtain foot where r: "ready s (field_bytes (fid, blk # blks) @ todo @ foot)" using assms(1) by (auto simp: before_def)
  from next_index_entry_Ok[OF r, of oc] obtain s1 where s1: "next_index_entry oc s = Ok (s1, ?e)"
    "ready s1 ((concat (map block_entry_bytes blks) @ todo) @ foot)" "same_run s s1" "fc_pos (ir_r s1) = fc_pos (ir_r s) + 51"
    by (metis append.assoc)
  have ne: "ir_curr_offset s \<noteq> ir_end_offset s" using before_offset[OF assms(1)] by (auto simp: field_bytes_def)
  have "index_next oc s = Ok (s1\<lparr>ir_next := Some ?e, ir_curr := Some ?e\<rparr>, Some ?e)"
    using ne s1(1) assms(2) by (auto simp: index_next_def mid_field_def split: option.splits)
  moreover obtain pre where pre: "field_bytes (fid, blk # blks) @ todo = pre @ concat (map block_entry_bytes blks) @ todo" "length pre = 51"
    by (simp add: field_bytes_def)
  have "before (s1\<lparr>ir_next := Some ?e, ir_curr := Some ?e\<rparr>) (concat (map block_entry_bytes blks) @ todo)"
    using before_step[OF assms(1)[unfolded pre(1)] s1(2,3)] s1(4) pre(2) by simp
  ultimately show ?thesis by simp
qed

text \<open>The entries a loop over the iterator sees; \<^verbatim>\<open>fuel\<close> bounds the number of calls.\<close>

fun index_collect :: "nat \<Rightarrow> bool \<Rightarrow> TsmIndexReader \<Rightarrow> (TskvError, IndexEntry list) result option" where
  "index_collect 0 oc s = None"
| "index_collect (Suc fuel) oc s =
     (case index_next oc s of
        Ok (s, None) \<Rightarrow> Some (Ok [])
      | Ok (s, Some e) \<Rightarrow> map_option (rmap ((#) e)) (index_collect fuel oc s)
      | Err e \<Rightarrow> Some (Err e)
      | Panic \<Rightarrow> Some Panic)"

lemma rmap_append: "map_option (rmap ((#) e)) (map_option (rmap ((@) es)) r) = map_option (rmap (\<lambda>a. e # es @ a)) r"
  by (cases r; cases "the r") auto

lemma collect_blocks:
  "before s (concat (map block_entry_bytes blks) @ todo) \<Longrightarrow> ir_curr s = Some (entry_of fid ft n b i) \<Longrightarrow> i + length blks = n \<Longrightarrow>
    n < 2 ^ 16 \<Longrightarrow> \<exists>s'. (\<forall>k. index_collect (length blks + k) oc s =
      map_option (rmap ((@) (map2 (entry_of fid ft n) blks [Suc i..<Suc n]))) (index_collect k oc s')) \<and> before s' todo \<and> \<not> mid_field s'"
proof (induction blks arbitrary: s b i)
  case Nil
  have "map_option (rmap (\<lambda>a. a)) r = r" for r :: "(TskvError, IndexEntry list) result option"
    by (cases r; cases "the r") auto
  then show ?case using Nil by (auto simp: mid_field_def entry_of_def)
next
  case (Cons blk blks)
  obtain s1 where s1: "index_next oc s = Ok (s1, Some (entry_of fid ft n blk (Suc i)))"
    "before s1 (concat (map block_entry_bytes blks) @ todo)" "ir_curr s1 = Some (entry_of fid ft n blk (Suc i))"
    using index_next_block[of s blk "concat (map block_entry_bytes blks) @ todo" fid ft n b i oc] Cons.prems by auto
  obtain s' where s': "\<forall>k. index_collect (length blks + k) oc s1 =
      map_option (rmap ((@) (map2 (entry_of fid ft n) blks [Suc (Suc i)..<Suc n]))) (index_collect k oc s')" "before s' todo" "\<not> mid_field s'"
    using Cons.IH[OF s1(2,3)] Cons.prems(3,4) by auto
  have "[Suc i..<Suc n] = Suc i # [Suc (Suc i)..<Suc n]" using Cons.prems(3) by (simp add: upt_conv_Cons)
  then show ?case using s1(1) s' by (intro exI[of _ s']) (auto simp: rmap_append simp del: upt_Suc)
qed

lemma collect_fields:
  "before s (concat (map field_bytes ix)) \<Longrightarrow> \<not> mid_field s \<Longrightarrow> \<forall>(fid, blks) \<in> set ix. blks \<noteq> [] \<and> length blks < 2 ^ 16 \<Longrightarrow>
    index_collect (Suc (sum_list (map (length \<circ> snd) ix))) oc s = Some (Ok (concat (map field_entries ix)))"
proof (induction ix arbitrary: s)
  case Nil
  then have "index_next oc s = Ok (s, None)" using before_offset[of s "[]"] by (simp add: index_next_def)
  then show ?case by simp
next
  case (Cons p ix)
  obtain fid blk blks where p: "p = (fid, blk # blks)" "length (blk # blks) < 2 ^ 16"
    using Cons.prems(3) by (cases p) (auto simp: neq_Nil_conv)
  let ?ft = "fb_field_type blk" and ?n = "length (blk # blks)"
  obtain s1 where s1: "index_next oc s = Ok (s1, Some (entry_of fid ?ft ?n blk 1))"
    "before s1 (concat (map block_entry_bytes blks) @ concat (map field_bytes ix))" "ir_curr s1 = Some (entry_of fid ?ft ?n blk 1)"
    using index_next_field[of s fid blk blks "concat (map field_bytes ix)" oc] Cons.prems(1,2) p(1) by auto
  obtain s2 where s2: "\<forall>k. index_collect (length blks + k) oc s1 =
      map_option (rmap ((@) (map2 (entry_of fid ?ft ?n) blks [Suc 1..<Suc ?n]))) (index_collect k oc s2)"
      "before s2 (concat (map field_bytes ix))" "\<not> mid_field s2"
    using collect_blocks[OF s1(2,3), of oc] p(2) by auto
  have fe: "field_entries p = entry_of fid ?ft ?n blk 1 # map2 (entry_of fid ?ft ?n) blks [Suc 1..<Suc ?n]"
    unfolding field_entries_def p(1) prod.case by (subst upt_conv_Cons) (simp_all del: upt_Suc)
  have IH: "index_collect (Suc (sum_list (map (length \<circ> snd) ix))) oc s2 = Some (Ok (concat (map field_entries ix)))"
    by (rule Cons.IH[OF s2(2,3)]) (use Cons.prems(3) in simp)
  have "index_collect (length blks + Suc (sum_list (map (length \<circ> snd) ix))) oc s1 =
      Some (Ok (map2 (entry_of fid ?ft ?n) blks [Suc 1..<Suc ?n] @ concat (map field_entries ix)))"
    unfolding s2(1)[rule_format] IH by (simp only: option.map rmap.simps)
  moreover have "sum_list (map (length \<circ> snd) (p # ix)) = length blks + Suc (sum_list (map (length \<circ> snd) ix))"
    using p(1) by simp
  ultimately show ?case unfolding index_collect.simps s1(1) list.map concat.simps fe
    by (simp only: result.case prod.case option.case option.map rmap.simps append_Cons)
qed

subsection \<open>From the blocks to the file and back\<close>

lemma write_header_to_Ok:
  assumes "at_end w" "5 \<le> cursor_room w"
  shows "\<exists>w' head. write_header_to oc w = Ok w' \<and> at_end w' \<and> cursor_bytes w' = cursor_bytes w @ head \<and> cursor_room w' + 5 = cursor_room w"
proof -
  obtain w1 where w1: "cursor_write oc w (be_bytes 4 TSM_MAGIC) = Ok w1" "at_end w1"
    "cursor_bytes w1 = cursor_bytes w @ be_bytes 4 TSM_MAGIC" "cursor_room w1 + 4 = cursor_room w"
    using cursor_write_append[OF assms(1), of "be_bytes 4 TSM_MAGIC" oc] assms(2) by auto
  show ?thesis using cursor_write_append[OF w1(2), of "be_bytes 1 VERSION" oc] w1 assms(2) by (fastforce simp: write_header_to_def)
qed

lemma write_footer_to_Ok:
  assumes "at_end w" "length (bloom_bytes f) = 64" "72 \<le> cursor_room w"
  shows "\<exists>w'. write_footer_to oc w f off = Ok w' \<and> at_end w' \<and> cursor_bytes w' = cursor_bytes w @ bloom_bytes f @ to_be_bytes off"
proof -
  obtain w1 where w1: "cursor_write oc w (bloom_bytes f) = Ok w1" "at_end w1"
    "cursor_bytes w1 = cursor_bytes w @ bloom_bytes f" "cursor_room w1 + 64 = cursor_room w"
    using cursor_write_append[OF assms(1), of "bloom_bytes f" oc] assms(2,3) by auto
  show ?thesis using cursor_write_append[OF w1(2), of "to_be_bytes off" oc] w1 assms(3) by (fastforce simp: write_footer_to_def)
qed

text \<open>The entries \<^verbatim>\<open>fbs\<close> of a field lead to the pieces of its block.\<close>

definition holds_block :: "bool \<Rightarrow> Codecs \<Rightarrow> bytes \<Rightarrow> FileBlock list \<Rightarrow> DataBlock \<Rightarrow> bool" where
  "holds_block oc tp file fbs b \<longleftrightarrow>
     list_all2 (\<lambda>fb i. holds_piece oc tp file fb (block_slice b (piece_start b i) (piece_end b i))) fbs [0..<piece_count b]"

lemma holds_block_append: "holds_block oc tp file fbs b \<Longrightarrow> holds_block oc tp (file @ tail) fbs b"
  unfolding holds_block_def by (erule list_all2_mono) (rule holds_piece_append)

lemma holds_block_length: "holds_block oc tp file fbs b \<Longrightarrow> length fbs = piece_count b"
  by (auto simp: holds_block_def dest: list_all2_lengthD)

definition storable :: "bool \<Rightarrow> Codecs \<Rightarrow> DataBlock \<Rightarrow> bool" where
  "storable oc tp b \<longleftrightarrow> encodable oc tp b \<and> block_wf b \<and> block_len b mod MAX_BLOCK_VALUES \<noteq> 0 \<and> piece_count b < 2 ^ 16"

lemma write_blocks_to_Ok:
  "codecs_ok tp \<Longrightarrow> at_end w \<Longrightarrow> \<forall>(fid, b) \<in> set bset. storable oc tp b \<Longrightarrow>
    sum_list (map (\<lambda>(fid, b). encoded_size tp b) bset) \<le> cursor_room w \<Longrightarrow>
    \<exists>w' ix data. write_blocks_to oc tp w bset = Ok (w', ix) \<and> at_end w' \<and> cursor_bytes w' = cursor_bytes w @ data \<and>
      cursor_room w' + sum_list (map (\<lambda>(fid, b). encoded_size tp b) bset) = cursor_room w \<and>
      list_all2 (\<lambda>(fid, b) (fid', fbs). fid' = fid \<and> holds_block oc tp (cursor_bytes w') fbs b) bset ix"
proof (induction bset arbitrary: w)
  case (Cons p bset)
  obtain fid b where p: "p = (fid, b)" by (cases p)
  have b: "encodable oc tp b" "block_wf b" "block_len b mod MAX_BLOCK_VALUES \<noteq> 0" "encoded_size tp b \<le> cursor_room w"
    using Cons.prems(3,4) by (auto simp: p storable_def)
  obtain w1 fbs data1 where w1: "write_one_to oc tp w b = Ok (w1, fbs)" "at_end w1" "cursor_bytes w1 = cursor_bytes w @ data1"
    "cursor_room w1 + encoded_size tp b = cursor_room w" "holds_block oc tp (cursor_bytes w1) fbs b"
    using write_one_to_Ok[OF Cons.prems(1) b(1-3) Cons.prems(2) b(4)] unfolding holds_block_def by blast
  have "sum_list (map (\<lambda>(fid, b). encoded_size tp b) bset) \<le> cursor_room w1" using Cons.prems(4) w1(4) by (simp add: p)
  then obtain w2 ix data2 where w2: "write_blocks_to oc tp w1 bset = Ok (w2, ix)" "at_end w2" "cursor_bytes w2 = cursor_bytes w1 @ data2"
    "cursor_room w2 + sum_list (map (\<lambda>(fid, b). encoded_size tp b) bset) = cursor_room w1"
    "list_all2 (\<lambda>(fid, b) (fid', fbs). fid' = fid \<and> holds_block oc tp (cursor_bytes w2) fbs b) bset ix"
    using Cons.IH[OF Cons.prems(1) w1(2)] Cons.prems(3) by auto
  have "holds_block oc tp (cursor_bytes w2) fbs b" using holds_block_append[OF w1(5)] w2(3) by simp
  then show ?case using w1 w2 by (auto simp: p intro!: exI[of _ w2] exI[of _ "(fid, fbs) # ix"])
qed simp

lemma index_reader_try_new_Ok:
  assumes "at_end c" "cursor_bytes c = pre @ todo @ bloom @ to_be_bytes (of_nat (length pre))" "length bloom = 64"
  shows "\<exists>s. index_reader_try_new oc c (f_len (fc_file c)) = Ok s \<and> before s todo \<and> \<not> mid_field s"
proof -
  let ?f = "fc_file c" and ?n = "f_len (fc_file c)"
  have wf: "file_wf ?f" using assms(1) by (simp add: at_end_def)
  have len: "?n = length pre + length todo + 72" using arg_cong[OF assms(2), of length] assms(3) by (simp add: cursor_bytes_def)
  have lt: "?n < 2 ^ 64" using file_wfD(3,6)[OF wf] by linarith
  let ?c1 = "c\<lparr>fc_pos := ?n - 8\<rparr>" and ?c2 = "c\<lparr>fc_pos := length pre\<rparr>"
  have s1: "cursor_seek oc c (SeekEnd (- 8)) = Ok (?c1, ?n - 8)" using len by (simp add: cursor_seek_def seek_by_def)
  have "cursor_bytes ?c1 = (pre @ todo @ bloom) @ to_be_bytes (of_nat (length pre))" using assms(2) by (simp add: cursor_bytes_def)
  then have "take 8 (drop (?n - 8) (cursor_bytes ?c1)) = to_be_bytes (of_nat (length pre))" using len assms(3) by simp
  then have rd: "cursor_read oc ?c1 8 = Ok (?c1\<lparr>fc_pos := ?n\<rparr>, to_be_bytes (of_nat (length pre)))"
    using cursor_read_Ok[of ?c1 oc 8] wf len by simp
  have off: "unat (of_nat (length pre) :: u64) = length pre" using lt len by (simp only: unat_u64 add_lessD1)
  have "(of_nat ?n :: u64) - of_nat FOOTER_SIZE = of_nat (length pre + length todo)"
    using len by (simp add: FOOTER_SIZE_def BLOOM_FILTER_SIZE_def)
  moreover have "(of_nat FOOTER_SIZE :: u64) \<le> of_nat ?n"
    using lt len by (simp only: word_le_nat_alt unat_u64) (simp add: FOOTER_SIZE_def BLOOM_FILTER_SIZE_def)
  ultimately have sub: "sub_u64 oc (of_nat ?n) (of_nat FOOTER_SIZE) = (Ok (of_nat (length pre + length todo)) :: (TskvError, u64) result)"
    using sub_u64_fits[of "of_nat FOOTER_SIZE" "of_nat ?n" oc] by metis
  let ?s = "\<lparr>ir_r = ?c2, ir_buf = to_be_bytes (of_nat (length pre)), ir_curr_offset = of_nat (length pre),
    ir_end_offset = of_nat (length pre + length todo), ir_curr = None, ir_next = None\<rparr>"
  have "index_reader_try_new oc c ?n = Ok ?s"
    unfolding index_reader_try_new_def using s1 rd off sub by (simp add: write_front_def cursor_seek_def Let_def del: of_nat_add)
  moreover have "before ?s todo"
    unfolding before_def ready_def using wf len assms(2) by (auto simp: cursor_bytes_def)
  ultimately show ?thesis by (auto simp: mid_field_def)
qed

lemma field_entries_blocks:
  assumes "holds_block oc tp file fbs b" "fbs \<noteq> []"
  shows "holds_block oc tp file (map ie_block (field_entries (fid, fbs))) b"
proof -
  have ty: "fb_field_type fb = block_field_type b" if "fb \<in> set fbs" for fb
    using assms(1) that unfolding holds_block_def holds_piece_def
    by (auto simp: list_all2_conv_all_nth in_set_conv_nth)
  have "map ie_block (field_entries (fid, fbs)) = map (\<lambda>fb. fb\<lparr>fb_field_type := fb_field_type (hd fbs), fb_reader_idx := 0\<rparr>) fbs"
    by (rule nth_equalityI) (simp_all add: field_entries_def entry_of_def del: upt_Suc)
  also have "\<dots> = map (\<lambda>fb. fb\<lparr>fb_reader_idx := 0\<rparr>) fbs" using ty assms(2) by (auto)
  finally have eq: "map ie_block (field_entries (fid, fbs)) = map (\<lambda>fb. fb\<lparr>fb_reader_idx := 0\<rparr>) fbs" .
  show ?thesis using assms(1) unfolding eq holds_block_def list_all2_map1
    by (rule list_all2_mono) (simp add: holds_piece_def placed_def)
qed

lemma field_entries_key: "e \<in> set (field_entries (fid, fbs)) \<Longrightarrow> ie_key e = to_be_bytes fid"
  by (auto simp: field_entries_def entry_of_def set_zip)

lemma filter_field:
  "distinct (map fst ix) \<Longrightarrow> (fid, fbs) \<in> set ix \<Longrightarrow>
    filter (\<lambda>e. ie_key e = to_be_bytes fid) (concat (map field_entries ix)) = field_entries (fid, fbs)"
proof (induction ix)
  case (Cons p ix)
  have none: "filter (\<lambda>e. ie_key e = to_be_bytes fid) (field_entries q) = []" if "fst q \<noteq> fid" for q
    using that field_entries_key[of _ "fst q" "snd q"] by (auto simp: filter_empty_conv be_bytes_inject)
  show ?case
  proof (cases "p = (fid, fbs)")
    case True
    then have "fst q \<noteq> fid" if "q \<in> set ix" for q using Cons.prems(1) that by auto
    then have "filter (\<lambda>e. ie_key e = to_be_bytes fid) (concat (map field_entries ix)) = []"
      using none by (simp add: filter_concat)
    moreover have "filter (\<lambda>e. ie_key e = to_be_bytes fid) (field_entries p) = field_entries p"
      using True field_entries_key[of _ fid fbs] by simp
    ultimately show ?thesis using True by simp
  next
    case False
    then have "(fid, fbs) \<in> set ix" "fst p \<noteq> fid" using Cons.prems by (auto simp: rev_image_eqI)
    then show ?thesis using Cons.IH Cons.prems(1) none by simp
  qed
qed simp

lemma read_blocks_holds:
  assumes "holds_block oc tp (cursor_bytes c) fbs b" "file_wf (fc_file c)" "block_wf b" "block_len b mod MAX_BLOCK_VALUES \<noteq> 0"
  shows "\<exists>c'. read_blocks oc tp c fbs tr [] = Some (Ok (c', filter (inside tr) (block_all b)))"
  using read_blocks_pieces[OF assms(3,4) assms(1)[unfolded holds_block_def] assms(2) refl, of tr "[]"]
    pieces_concat[of 0 "piece_count b" b] assms(3,4) by (simp add: piece_start_def)

text \<open>The size of a file with the given blocks.\<close>

definition tsm_size :: "Codecs \<Rightarrow> (FieldId \<times> DataBlock) list \<Rightarrow> nat" where
  "tsm_size tp bset = 5 + sum_list (map (\<lambda>(fid, b). encoded_size tp b) bset) +
     sum_list (map (\<lambda>(fid, b). 11 + 40 * piece_count b) bset) + 72"

lemma index_sizes:
  assumes "list_all2 (\<lambda>(fid, b) (fid', fbs). fid' = fid \<and> holds_block oc tp file fbs b) bset ix"
  shows "length (concat (map field_bytes ix)) = sum_list (map (\<lambda>(fid, b). 11 + 40 * piece_count b) bset)"
    "sum_list (map (length \<circ> snd) ix) = sum_list (map (\<lambda>(fid, b). piece_count b) bset)" "map fst ix = map fst bset"
  using assms by (induction rule: list_all2_induct) (auto dest: holds_block_length)

lemma mset_eq_sums:
  assumes "mset xs = mset ys"
  shows "sum_list (map f xs) = sum_list (map (f :: _ \<Rightarrow> nat) ys)" "length (concat (map g xs)) = length (concat (map g ys))"
proof -
  show s: "sum_list (map f xs) = sum_list (map f ys)" for f :: "'a \<Rightarrow> nat"
    using arg_cong[OF assms, of "\<lambda>m. sum_mset (image_mset f m)"] by (simp flip: sum_mset_sum_list)
  show "length (concat (map g xs)) = length (concat (map g ys))"
    using s[of "length \<circ> g"] by (simp add: length_concat)
qed

lemma build_tsm_file_Ok:
  assumes "codecs_ok tp" "file_wf file" "f_len file = 0" "\<forall>c. sync_all c = Ok ()" "\<forall>ix. mset (order ix) = mset ix"
    and "\<forall>(fid, b) \<in> set bset. storable oc tp b" "tsm_size tp bset < f_cap file"
  shows "\<exists>c ix s. build_tsm_file oc tp sync_all order file bset = Ok (c, f_len (fc_file c)) \<and> file_wf (fc_file c) \<and>
    list_all2 (\<lambda>(fid, b) (fid', fbs). fid' = fid \<and> holds_block oc tp (cursor_bytes c) fbs b) bset ix \<and>
    index_reader_try_new oc c (f_len (fc_file c)) = Ok s \<and> before s (concat (map field_bytes (order ix))) \<and> \<not> mid_field s"
proof -
  let ?c = "file_into_cursor file"
  have c: "at_end ?c" "cursor_room ?c = f_cap file - 1" using assms(2,3) by (simp_all add: at_end_def file_into_cursor_def cursor_room_def)
  have sz: "5 + sum_list (map (\<lambda>(fid, b). encoded_size tp b) bset) + sum_list (map (\<lambda>(fid, b). 11 + 40 * piece_count b) bset) + 72 \<le> cursor_room ?c"
    using assms(7) c(2) unfolding tsm_size_def by linarith
  then obtain w1 where w1: "write_header_to oc ?c = Ok w1" "at_end w1" "cursor_room w1 + 5 = cursor_room ?c"
    using write_header_to_Ok[OF c(1), of oc] by auto
  have "sum_list (map (\<lambda>(fid, b). encoded_size tp b) bset) \<le> cursor_room w1" using w1(3) sz by linarith
  then obtain w2 ix where w2: "write_blocks_to oc tp w1 bset = Ok (w2, ix)" "at_end w2"
    "cursor_room w2 + sum_list (map (\<lambda>(fid, b). encoded_size tp b) bset) = cursor_room w1"
    "list_all2 (\<lambda>(fid, b) (fid', fbs). fid' = fid \<and> holds_block oc tp (cursor_bytes w2) fbs b) bset ix"
    using write_blocks_to_Ok[OF assms(1) w1(2) assms(6)] by blast
  have os: "length (concat (map field_bytes (order ix))) = sum_list (map (\<lambda>(fid, b). 11 + 40 * piece_count b) bset)" "set (order ix) = set ix"
    using mset_eq_sums(2)[OF assms(5)[rule_format], of field_bytes ix] index_sizes(1)[OF w2(4)] mset_eq_setD[OF assms(5)[rule_format]] by auto
  have ne: "\<forall>(fid, blks) \<in> set (order ix). blks \<noteq> []"
    using w2(4) unfolding os(2) by (force simp: in_set_conv_nth list_all2_conv_all_nth piece_count_def dest: holds_block_length)
  have "length (concat (map field_bytes (order ix))) \<le> cursor_room w2" unfolding os(1) using w1(3) w2(3) sz by linarith
  then obtain w3 f where w3: "write_index_to oc w2 (order ix) = Ok (w3, f)" "at_end w3" "length (bloom_bytes f) = 64"
    "cursor_bytes w3 = cursor_bytes w2 @ concat (map field_bytes (order ix))"
    "cursor_room w3 + sum_list (map (\<lambda>(fid, b). 11 + 40 * piece_count b) bset) = cursor_room w2"
    using write_index_to_Ok[OF w2(2) ne, of oc] unfolding os(1) by blast
  have "72 \<le> cursor_room w3" using w1(3) w2(3) w3(5) sz by linarith
  then obtain w4 where w4: "write_footer_to oc w3 f (of_nat (fc_pos w2)) = Ok w4" "at_end w4"
    "cursor_bytes w4 = cursor_bytes w3 @ bloom_bytes f @ to_be_bytes (of_nat (fc_pos w2))"
    using write_footer_to_Ok[OF w3(2,3), of oc] by blast
  have pos: "fc_pos w2 = length (cursor_bytes w2)" using w2(2) by (simp add: at_end_def cursor_bytes_def)
  have bytes: "cursor_bytes w4 = cursor_bytes w2 @ concat (map field_bytes (order ix)) @ bloom_bytes f @ to_be_bytes (of_nat (length (cursor_bytes w2)))"
    using w4(3) w3(4) pos by simp
  have "list_all2 (\<lambda>(fid, b) (fid', fbs). fid' = fid \<and> holds_block oc tp (cursor_bytes w4) fbs b) bset ix"
    using w2(4) by (rule list_all2_mono) (auto simp: bytes intro: holds_block_append)
  moreover have "build_tsm_file oc tp sync_all order file bset = Ok (w4, f_len (fc_file w4))"
    using w1(1) w2(1) w3(1) w4(1) assms(4) by (simp add: build_tsm_file_def)
  ultimately show ?thesis using index_reader_try_new_Ok[OF w4(2) bytes w3(3), of oc] w4(2) by (auto simp: at_end_def)
qed

lemma tsm_file_read_back:
  assumes "codecs_ok tp" "file_wf file" "f_len file = 0" "\<forall>c. sync_all c = Ok ()" "\<forall>ix. mset (order ix) = mset ix"
    and "distinct (map fst bset)" "\<forall>(fid, b) \<in> set bset. storable oc tp b" "tsm_size tp bset < f_page_len file * 2 ^ 32"
  shows "\<exists>c s entries. build_tsm_file oc tp sync_all order file bset = Ok (c, f_len (fc_file c)) \<and> file_wf (fc_file c) \<and>
    index_reader_try_new oc c (f_len (fc_file c)) = Ok s \<and>
    index_collect (Suc (sum_list (map (\<lambda>(fid, b). piece_count b) bset))) oc s = Some (Ok entries) \<and>
    (\<forall>e \<in> set entries. \<exists>fid \<in> fst ` set bset. ie_key e = to_be_bytes fid) \<and>
    (\<forall>(fid, b) \<in> set bset. \<forall>d. fc_file d = fc_file c \<longrightarrow>
      (\<exists>d'. read_blocks oc tp d (map ie_block (filter (\<lambda>e. ie_key e = to_be_bytes fid) entries)) tr [] = Some (Ok (d', filter (inside tr) (block_all b)))))"
proof -
  obtain c ix s where c: "build_tsm_file oc tp sync_all order file bset = Ok (c, f_len (fc_file c))" "file_wf (fc_file c)"
    "list_all2 (\<lambda>(fid, b) (fid', fbs). fid' = fid \<and> holds_block oc tp (cursor_bytes c) fbs b) bset ix"
    "index_reader_try_new oc c (f_len (fc_file c)) = Ok s" "before s (concat (map field_bytes (order ix)))" "\<not> mid_field s"
    using build_tsm_file_Ok[OF assms(1-5,7)] assms(8) by blast
  have ms: "mset (order ix) = mset ix" using assms(5) by blast
  have set: "set (order ix) = set ix" using mset_eq_setD[OF ms] .
  have "mset (map fst (order ix)) = mset (map fst ix)" using ms by simp
  then have dist: "distinct (map fst (order ix))"
    using mset_eq_imp_distinct_iff assms(6) index_sizes(3)[OF c(3)] by metis
  have in_ix: "\<exists>fbs. (fid, fbs) \<in> set (order ix) \<and> holds_block oc tp (cursor_bytes c) fbs b" if "(fid, b) \<in> set bset" for fid b
    using c(3) that unfolding set by (fastforce simp: in_set_conv_nth list_all2_conv_all_nth)
  have good: "\<forall>(fid, blks) \<in> set (order ix). blks \<noteq> [] \<and> length blks < 2 ^ 16"
    using c(3) assms(7) unfolding set
    by (force simp: in_set_conv_nth list_all2_conv_all_nth piece_count_def storable_def dest: holds_block_length)
  let ?entries = "concat (map field_entries (order ix))"
  have collect: "index_collect (Suc (sum_list (map (\<lambda>(fid, b). piece_count b) bset))) oc s = Some (Ok ?entries)"
    using collect_fields[OF c(5,6) good, of oc] mset_eq_sums(1)[OF ms, of "length \<circ> snd"] index_sizes(2)[OF c(3)] by metis
  have reads: "\<exists>d'. read_blocks oc tp d (map ie_block (filter (\<lambda>e. ie_key e = to_be_bytes fid) ?entries)) tr [] =
      Some (Ok (d', filter (inside tr) (block_all b)))" if fb: "(fid, b) \<in> set bset" and d: "fc_file d = fc_file c" for fid b d
  proof -
    obtain fbs where fbs: "(fid, fbs) \<in> set (order ix)" "holds_block oc tp (cursor_bytes c) fbs b" using in_ix[OF fb] by blast
    then have "fbs \<noteq> []" using good by auto
    moreover have "cursor_bytes d = cursor_bytes c" "file_wf (fc_file d)" using d c(2) by (simp_all add: cursor_bytes_def)
    ultimately show ?thesis using read_blocks_holds[of oc tp d, OF field_entries_blocks] fbs(2) assms(7) fb filter_field[OF dist fbs(1)]
      by (auto simp: storable_def)
  qed
  have keys: "\<exists>fid \<in> fst ` set bset. ie_key e = to_be_bytes fid" if e: "e \<in> set ?entries" for e
  proof -
    obtain fid fbs where "(fid, fbs) \<in> set (order ix)" "e \<in> set (field_entries (fid, fbs))" using e by auto
    moreover from this(1) have "fid \<in> set (map fst ix)" unfolding set by force
    ultimately show ?thesis using field_entries_key index_sizes(3)[OF c(3)] by auto
  qed
  have "\<forall>(fid, b) \<in> set bset. \<forall>d. fc_file d = fc_file c \<longrightarrow>
      (\<exists>d'. read_blocks oc tp d (map ie_block (filter (\<lambda>e. ie_key e = to_be_bytes fid) ?entries)) tr [] = Some (Ok (d', filter (inside tr) (block_all b))))"
    using reads by (simp add: split_beta)
  then show ?thesis
    by (intro exI conjI ballI) (rule c(1), rule c(2), rule c(4), rule collect, rule keys, assumption, rule bspec)
qed

text \<open>C1: A file built from a set of blocks can be read through its index: the index reader lists the pieces
  of every field, in whatever order the hash map of the index yields the fields, and the block reader
  returns from the entries of a field exactly the cells of its block strictly inside the time range.  The blocks have a number
  of values that is no multiple of a thousand and at most 65535 pieces, and the coders accept their values: no float
  is the sentinel, strings are below the limits, and differences do not wrap in a build with overflow checks.\<close>

theorem tsm_file_roundtrip:
  assumes "codecs_ok tp" and "file_wf file" and "f_len file = 0" and "\<forall>c. sync_all c = Ok ()" and "\<forall>ix. mset (order ix) = mset ix"
    and "distinct (map fst bset)" and "\<forall>(fid, b) \<in> set bset. storable oc tp b" and "tsm_size tp bset < f_page_len file * 2 ^ 32"
  shows "\<exists>c n s entries. build_tsm_file oc tp sync_all order file bset = Ok (c, n) \<and> index_reader_try_new oc c n = Ok s \<and>
    index_collect (Suc (sum_list (map (\<lambda>(fid, b). piece_count b) bset))) oc s = Some (Ok entries) \<and>
    (\<forall>(fid, b) \<in> set bset. \<exists>c'. read_blocks oc tp c (map ie_block (filter (\<lambda>e. ie_key e = to_be_bytes fid) entries)) tr [] =
      Some (Ok (c', filter (inside tr) (block_all b))))"
proof -
  obtain c s entries where c: "build_tsm_file oc tp sync_all order file bset = Ok (c, f_len (fc_file c))"
    "index_reader_try_new oc c (f_len (fc_file c)) = Ok s"
    "index_collect (Suc (sum_list (map (\<lambda>(fid, b). piece_count b) bset))) oc s = Some (Ok entries)"
    "\<forall>(fid, b) \<in> set bset. \<forall>d. fc_file d = fc_file c \<longrightarrow>
      (\<exists>d'. read_blocks oc tp d (map ie_block (filter (\<lambda>e. ie_key e = to_be_bytes fid) entries)) tr [] = Some (Ok (d', filter (inside tr) (block_all b))))"
    using tsm_file_read_back[OF assms, of tr] by blast
  show ?thesis by (intro exI conjI, rule c(1), rule c(2), rule c(3)) (use c(4) in \<open>simp add: split_beta\<close>)
qed

theorem tsm_file_roundtrip_witness:
  "\<exists>c n s entries c'. build_tsm_file True plain_codecs (\<lambda>_. Ok ()) rev (blank_file 4096 0) [(7, BI64 0 [10, 20] [1, 5]), (9, BBool 0 [30] [True])] = Ok (c, n) \<and>
    index_reader_try_new True c n = Ok s \<and> index_collect 3 True s = Some (Ok entries) \<and>
    read_blocks True plain_codecs c (map ie_block (filter (\<lambda>e. ie_key e = to_be_bytes 7) entries)) \<lparr>tr_min_ts = 0, tr_max_ts = 40\<rparr> [] =
      Some (Ok (c', [DI64 10 1, DI64 20 5]))"
proof -
  let ?bset = "[(7, BI64 0 [10, 20] [1, 5]), (9, BBool 0 [30] [True])] :: (FieldId \<times> DataBlock) list"
  have "tsm_size plain_codecs ?bset \<le> 1000" by code_simp
  then have sz: "tsm_size plain_codecs ?bset < f_page_len (blank_file 4096 0) * 2 ^ 32" by (simp add: blank_file_def)
  have st: "\<forall>(fid, b) \<in> set ?bset. storable True plain_codecs b"
    by (simp add: storable_def block_wf_def block_len_def piece_count_def MAX_BLOCK_VALUES_def sadd_ok_def)
  show ?thesis
    using tsm_file_roundtrip[OF plain_codecs_ok blank_file_wf _ _ _ _ st sz, of "\<lambda>_. Ok ()" rev "\<lparr>tr_min_ts = 0, tr_max_ts = 40\<rparr>"]
    by (fastforce simp: blank_file_def piece_count_def block_len_def MAX_BLOCK_VALUES_def numeral_3_eq_3)
qed

end
