(* ===== verification/FileUtils.thy ===== *)
theory FileUtils
  imports Errors
begin

text \<open>
  File names of \<^verbatim>\<open>src/tskv/src/file_utils.rs\<close>.  Names are strings of single-byte characters.  The
  three patterns are matched by the crate regex, so the match is a parameter with the meaning of the
  patterns as hypothesis (locale \<^verbatim>\<open>name_patterns\<close>); directory listings are parameters too.  The
  results say which numbers come back out of a name.
\<close>

subsection \<open>Formatting and parsing numbers\<close>

definition digit :: "nat \<Rightarrow> char" where
  "digit d = char_of (48 + d)"

fun dec :: "nat \<Rightarrow> string" where
  "dec n = (if n < 10 then [digit n] else dec (n div 10) @ [digit (n mod 10)])"

declare dec.simps [simp del]

text \<open>The format \<^verbatim>\<open>{:06}\<close>.\<close>

definition fmt06 :: "nat \<Rightarrow> string" where
  "fmt06 n = replicate (6 - length (dec n)) (digit 0) @ dec n"

definition is_digit :: "char \<Rightarrow> bool" where
  "is_digit c \<longleftrightarrow> 48 \<le> (of_char c :: nat) \<and> (of_char c :: nat) < 58"

definition digits_value :: "string \<Rightarrow> nat" where
  "digits_value s = foldl (\<lambda>a c. a * 10 + (of_char c - 48)) 0 s"

text \<open>\<^verbatim>\<open>str::parse::<u64>\<close>\<close>

definition parse_u64 :: "string \<Rightarrow> nat option" where
  "parse_u64 s =
     (let s = (case s of c # cs \<Rightarrow> if c = CHR ''+'' then cs else s | [] \<Rightarrow> []) in
      if s \<noteq> [] \<and> list_all is_digit s \<and> digits_value s < 2 ^ 64 then Some (digits_value s) else None)"

subsection \<open>Names\<close>

record Patterns =
  summary_match :: "string \<Rightarrow> bool"
  wal_match :: "string \<Rightarrow> bool"
  schema_match :: "string \<Rightarrow> bool"

definition make_summary_file :: "string \<Rightarrow> nat \<Rightarrow> string" where
  "make_summary_file path number = path @ ''/summary-'' @ fmt06 number"

definition check_summary_file_name :: "Patterns \<Rightarrow> string \<Rightarrow> bool" where
  "check_summary_file_name re file_name = summary_match re file_name"

definition get_summary_file_id :: "Patterns \<Rightarrow> string \<Rightarrow> (TskvError, nat) result" where
  "get_summary_file_id re file_name =
     (if \<not> check_summary_file_name re file_name
      then Err (EInvalidFileName file_name ''summary file name does not contain an id'')
      else rbind (slice_from file_name 8) (\<lambda>file_number.
        ok_or (EInvalidFileName file_name ''sumary file name contains an invalid id'') (parse_u64 file_number)))"

definition make_wal_file :: "string \<Rightarrow> nat \<Rightarrow> string" where
  "make_wal_file path seq = path @ ''/_'' @ fmt06 seq @ ''.wal''"

definition check_wal_file_name :: "Patterns \<Rightarrow> string \<Rightarrow> bool" where
  "check_wal_file_name re file_name = wal_match re file_name"

definition get_wal_file_id :: "Patterns \<Rightarrow> string \<Rightarrow> (TskvError, nat) result" where
  "get_wal_file_id re file_name =
     (if \<not> check_wal_file_name re file_name
      then Err (EInvalidFileName file_name ''wal file name does not contain an id'')
      else rbind (slice_range file_name 1 7) (\<lambda>file_number.
        ok_or (EInvalidFileName file_name ''wal file name contains an invalid id'') (parse_u64 file_number)))"

definition make_tsm_file_name :: "string \<Rightarrow> nat \<Rightarrow> string" where
  "make_tsm_file_name path seq = path @ ''/_'' @ fmt06 seq @ ''.tsm''"

definition make_tsm_tombstone_file_name :: "string \<Rightarrow> nat \<Rightarrow> string" where
  "make_tsm_tombstone_file_name path seq = path @ ''/_'' @ fmt06 seq @ ''.tombstone''"

definition make_delta_file_name :: "string \<Rightarrow> nat \<Rightarrow> string" where
  "make_delta_file_name path seq = path @ ''/_'' @ fmt06 seq @ ''.delta''"

definition make_schema_file :: "string \<Rightarrow> nat \<Rightarrow> string" where
  "make_schema_file path seq = path @ ''/_'' @ fmt06 seq @ ''.schema''"

definition check_schema_file :: "Patterns \<Rightarrow> string \<Rightarrow> bool" where
  "check_schema_file re file_name = schema_match re file_name"

definition get_schema_file_id :: "Patterns \<Rightarrow> string \<Rightarrow> (TskvError, nat) result" where
  "get_schema_file_id re file_name =
     (if \<not> check_schema_file re file_name
      then Err (EInvalidFileName file_name ''schema file name does not contain an id'')
      else rbind (slice_range file_name 1 7) (\<lambda>file_number.
        ok_or (EInvalidFileName file_name ''schema file name contains an invalid id'') (parse_u64 file_number)))"

text \<open>The loop over the listing with the running maximum and its index.\<close>

fun max_sequence_loop ::
  "(string \<Rightarrow> (TskvError, nat) result) \<Rightarrow> nat \<Rightarrow> string list \<Rightarrow> nat \<Rightarrow> nat \<Rightarrow> (TskvError, nat \<times> nat) result" where
  "max_sequence_loop get_sequence i [] max_id max_index = Ok (max_id, max_index)"
| "max_sequence_loop get_sequence i (file_name # segments) max_id max_index =
     (case get_sequence file_name of
        Ok fid \<Rightarrow>
          if max_id < fid then max_sequence_loop get_sequence (i + 1) segments fid i
          else max_sequence_loop get_sequence (i + 1) segments max_id max_index
      | Err _ \<Rightarrow> max_sequence_loop get_sequence (i + 1) segments max_id max_index
      | Panic \<Rightarrow> Panic)"

text \<open>\<^verbatim>\<open>segments\<close> is what \<^verbatim>\<open>list_file_names\<close> returns for the directory.\<close>

definition get_max_sequence_file_name ::
  "string list \<Rightarrow> (string \<Rightarrow> (TskvError, nat) result) \<Rightarrow> (TskvError, (string \<times> nat) option) result" where
  "get_max_sequence_file_name segments get_sequence =
     (if segments = [] then Ok None
      else rbind (max_sequence_loop get_sequence 0 segments 1 0) (\<lambda>(max_id, max_index).
        rbind (index segments max_index) (\<lambda>max_file_name. Ok (Some (max_file_name, max_id)))))"

subsection \<open>Decimal numbers\<close>

lemma of_char_digit [simp]: "d < 10 \<Longrightarrow> (of_char (digit d) :: nat) = 48 + d"
  by (simp add: digit_def)

lemma is_digit_digit [simp]: "d < 10 \<Longrightarrow> is_digit (digit d)"
  by (simp add: is_digit_def)

lemma dec_digits: "list_all is_digit (dec n)"
  by (induction n rule: dec.induct) (subst dec.simps, auto)

lemma dec_ne [simp]: "dec n \<noteq> []"
  by (subst dec.simps) auto

lemma digits_value_snoc: "digits_value (s @ [c]) = digits_value s * 10 + (of_char c - 48)"
  by (simp add: digits_value_def)

lemma digits_value_dec: "digits_value (dec n) = n"
proof (induction n rule: dec.induct)
  case (1 n)
  then show ?case
    by (subst dec.simps) (auto simp: digits_value_snoc, simp add: digits_value_def)
qed

lemma digits_value_zeros: "digits_value (replicate k (digit 0) @ s) = digits_value s"
  by (induction k) (simp_all add: digits_value_def)

lemma digits_fmt06: "list_all is_digit (fmt06 n)" "digits_value (fmt06 n) = n" "fmt06 n \<noteq> []"
  using dec_digits[of n] by (auto simp: fmt06_def digits_value_zeros digits_value_dec list_all_iff)

lemma parse_fmt06:
  assumes "n < 2 ^ 64"
  shows "parse_u64 (fmt06 n) = Some n"
proof -
  obtain c cs where c: "fmt06 n = c # cs" using digits_fmt06(3) by (cases "fmt06 n") auto
  then have "c \<noteq> CHR ''+''" using digits_fmt06(1)[of n] by (auto simp: is_digit_def)
  then show ?thesis using assms digits_fmt06[of n] c by (simp add: parse_u64_def)
qed

lemma length_dec: "length (dec n) \<le> k \<longleftrightarrow> n < 10 ^ k" if "0 < k"
  using that
proof (induction n arbitrary: k rule: dec.induct)
  case (1 n)
  show ?case
  proof (cases "n < 10")
    case True
    moreover have "(10::nat) ^ 1 \<le> 10 ^ k" using 1(2) by (intro power_increasing) auto
    ultimately show ?thesis using 1(2) by (subst dec.simps) auto
  next
    case False
    show ?thesis
    proof (cases "k = 1")
      case True
      then show ?thesis using False by (subst dec.simps) (auto simp: Suc_le_eq)
    next
      case k: False
      then obtain j where j: "k = Suc j" "0 < j" using 1(2) by (cases k) auto
      have "length (dec n) \<le> k \<longleftrightarrow> length (dec (n div 10)) \<le> j" using False j by (subst dec.simps) simp
      also have "\<dots> \<longleftrightarrow> n div 10 < 10 ^ j" using 1(1)[OF False j(2)] .
      also have "\<dots> \<longleftrightarrow> n < 10 ^ k" using j by (simp add: less_mult_imp_div_less mult.commute div_less_iff_less_mult)
      finally show ?thesis .
    qed
  qed
qed

lemma length_fmt06: "length (fmt06 n) = (if n < 1000000 then 6 else length (dec n))" "n \<ge> 1000000 \<Longrightarrow> 6 < length (dec n)"
  using length_dec[of 6 n] by (auto simp: fmt06_def)

subsection \<open>The patterns\<close>

text \<open>The meaning of the unanchored patterns, on single-byte characters.\<close>

locale name_patterns =
  fixes re :: Patterns
  assumes summary_matches: "summary_match re s \<longleftrightarrow>
      (\<exists>pre ds post. s = pre @ ''summary-'' @ ds @ post \<and> length ds = 6 \<and> list_all is_digit ds)"
    and wal_matches: "wal_match re s \<longleftrightarrow>
      (\<exists>pre ds post. s = pre @ ''_'' @ ds @ ''.wal'' @ post \<and> length ds = 6 \<and> list_all is_digit ds)"
    and schema_matches: "schema_match re s \<longleftrightarrow>
      (\<exists>pre ds post. s = pre @ ''_'' @ ds @ ''.schema'' @ post \<and> length ds = 6 \<and> list_all is_digit ds)"

definition occurs :: "string \<Rightarrow> string \<Rightarrow> string \<Rightarrow> bool" where
  "occurs l1 l2 s \<longleftrightarrow> list_ex (\<lambda>i. let t = drop i s in
     take (length l1) t = l1 \<and> length (take 6 (drop (length l1) t)) = 6 \<and> list_all is_digit (take 6 (drop (length l1) t)) \<and>
     take (length l2) (drop (length l1 + 6) t) = l2) [0..<length s + 1]"

definition ascii_patterns :: Patterns where
  "ascii_patterns = \<lparr>summary_match = occurs ''summary-'' [], wal_match = occurs ''_'' ''.wal'', schema_match = occurs ''_'' ''.schema''\<rparr>"

lemma occurs_iff: "occurs l1 l2 s \<longleftrightarrow> (\<exists>pre ds post. s = pre @ l1 @ ds @ l2 @ post \<and> length ds = 6 \<and> list_all is_digit ds)"
proof
  assume "occurs l1 l2 s"
  then obtain i where i: "take (length l1) (drop i s) = l1" "length (take 6 (drop (length l1) (drop i s))) = 6"
    "list_all is_digit (take 6 (drop (length l1) (drop i s)))" "take (length l2) (drop (length l1 + 6) (drop i s)) = l2"
    unfolding occurs_def list_ex_iff Let_def by blast
  let ?t = "drop i s" and ?ds = "take 6 (drop (length l1) (drop i s))"
  have "?t = take (length l1) ?t @ drop (length l1) ?t" by (rule append_take_drop_id[symmetric])
  also have "drop (length l1) ?t = ?ds @ drop 6 (drop (length l1) ?t)" by (rule append_take_drop_id[symmetric])
  also have "drop 6 (drop (length l1) ?t) = drop (length l1 + 6) ?t" by (simp add: ac_simps)
  also have "drop (length l1 + 6) ?t = l2 @ drop (length l2) (drop (length l1 + 6) ?t)" using i(4) by (metis append_take_drop_id)
  finally have "?t = l1 @ ?ds @ l2 @ drop (length l2) (drop (length l1 + 6) ?t)" unfolding i(1) .
  then have "s = take i s @ l1 @ ?ds @ l2 @ drop (length l2) (drop (length l1 + 6) ?t)" by (metis append_take_drop_id)
  then show "\<exists>pre ds post. s = pre @ l1 @ ds @ l2 @ post \<and> length ds = 6 \<and> list_all is_digit ds" using i(2,3) by blast
next
  assume "\<exists>pre ds post. s = pre @ l1 @ ds @ l2 @ post \<and> length ds = 6 \<and> list_all is_digit ds"
  then obtain pre ds post where "s = pre @ l1 @ ds @ l2 @ post" "length ds = 6" "list_all is_digit ds" by blast
  then show "occurs l1 l2 s" unfolding occurs_def list_ex_iff Let_def by (intro bexI[of _ "length pre"]) auto
qed

interpretation ascii: name_patterns ascii_patterns
  by unfold_locales (simp_all add: ascii_patterns_def occurs_iff)

text \<open>The last component of a path.\<close>

definition path_file_name :: "string \<Rightarrow> string" where
  "path_file_name p = rev (takeWhile (\<lambda>c. c \<noteq> CHR ''/'') (rev p))"

lemma path_file_name_append: "CHR ''/'' \<notin> set name \<Longrightarrow> path_file_name (path @ ''/'' @ name) = name"
  unfolding path_file_name_def by (simp, subst takeWhile_append2) auto

lemma digits_no: "list_all is_digit s \<Longrightarrow> \<not> is_digit c \<Longrightarrow> c \<notin> set s"
  by (auto simp: list_all_iff)

lemma underscore_unique:
  assumes "list_all is_digit ds" "CHR ''_'' \<notin> set ext" "''_'' @ ds @ ext = pre @ ''_'' @ ds' @ rest"
  shows "pre = []"
proof (rule ccontr)
  assume "pre \<noteq> []"
  then obtain c pre' where "pre = c # pre'" by (cases pre) auto
  then have "ds @ ext = pre' @ ''_'' @ ds' @ rest" using assms(3) by simp
  then have "CHR ''_'' \<in> set (ds @ ext)" by simp
  moreover have "CHR ''_'' \<notin> set ds" using digits_no[OF assms(1)] by (simp add: is_digit_def)
  ultimately show False using assms(2) by simp
qed

lemma six_digits_only:
  assumes "list_all is_digit ds" "\<not> is_digit c" "6 < length ds" "CHR ''_'' \<notin> set ext"
    and "''_'' @ ds @ ext = pre @ ''_'' @ ds' @ c # rest" "length ds' = 6"
  shows False
proof -
  have "pre = []" by (rule underscore_unique[OF assms(1,4,5)])
  then have eq: "ds @ ext = ds' @ c # rest" using assms(5) by simp
  have "(ds @ ext) ! 6 = ds ! 6" using assms(3) by (simp add: nth_append)
  moreover have "(ds' @ c # rest) ! 6 = c" using assms(6) by (simp add: nth_append)
  ultimately have "c = ds ! 6" using eq by simp
  then show False using assms(1,2,3) by (simp add: list_all_length)
qed

lemma wal_name_id:
  assumes "name_patterns re" "seq < 2 ^ 64"
  shows "get_wal_file_id re (''_'' @ fmt06 seq @ ''.wal'') =
    (if seq < 1000000 then Ok seq else Err (EInvalidFileName (''_'' @ fmt06 seq @ ''.wal'') ''wal file name does not contain an id''))"
proof (cases "seq < 1000000")
  case True
  let ?name = "''_'' @ fmt06 seq @ ''.wal''"
  have len: "length (fmt06 seq) = 6" using True by (simp add: length_fmt06)
  then have "\<exists>pre ds post. ?name = pre @ ''_'' @ ds @ ''.wal'' @ post \<and> length ds = 6 \<and> list_all is_digit ds"
    using digits_fmt06(1)[of seq] by (intro exI[of _ "[]"] exI[of _ "fmt06 seq"]) simp
  then have "wal_match re ?name" using name_patterns.wal_matches[OF assms(1)] by blast
  then show ?thesis unfolding get_wal_file_id_def check_wal_file_name_def
    using True len parse_fmt06[OF assms(2)] by (simp add: slice_range_def)
next
  case False
  then have "6 < length (fmt06 seq)" using length_fmt06[of seq] by simp
  then have "\<not> wal_match re (''_'' @ fmt06 seq @ ''.wal'')"
    unfolding name_patterns.wal_matches[OF assms(1)]
    using six_digits_only[of "fmt06 seq" "CHR ''.''" "''.wal''"] digits_fmt06(1) by (fastforce simp: is_digit_def)
  then show ?thesis unfolding get_wal_file_id_def check_wal_file_name_def using False by simp
qed

lemma wal_path_name: "path_file_name (make_wal_file path seq) = ''_'' @ fmt06 seq @ ''.wal''"
proof -
  let ?name = "''_'' @ fmt06 seq @ ''.wal''"
  have "CHR ''/'' \<notin> set ?name" using digits_no[OF digits_fmt06(1)[of seq], of "CHR ''/''"] by (simp add: is_digit_def)
  then show ?thesis using path_file_name_append[of ?name path] by (simp add: make_wal_file_def)
qed

text \<open>C22: The number of a log file comes back out of its name below a million; names of later log files
  have seven digits and are rejected.\<close>

theorem wal_file_id_roundtrip:
  assumes "name_patterns re" and "seq < 2 ^ 64"
  shows "get_wal_file_id re (path_file_name (make_wal_file path seq)) =
    (if seq < 1000000 then Ok seq
     else Err (EInvalidFileName (path_file_name (make_wal_file path seq)) ''wal file name does not contain an id''))"
  unfolding wal_path_name by (rule wal_name_id[OF assms])

theorem wal_file_id_roundtrip_witness:
  "get_wal_file_id ascii_patterns (path_file_name (make_wal_file ''/tmp'' 123)) = Ok 123 \<and>
   get_wal_file_id ascii_patterns (path_file_name (make_wal_file ''/tmp'' 1000000)) \<noteq> Ok 1000000"
  using wal_file_id_roundtrip[OF ascii.name_patterns_axioms, of 123 "''/tmp''"]
    wal_file_id_roundtrip[OF ascii.name_patterns_axioms, of 1000000 "''/tmp''"] by simp

subsection \<open>The last file of a directory\<close>

definition seq_of :: "(string \<Rightarrow> (TskvError, nat) result) \<Rightarrow> string \<Rightarrow> nat" where
  "seq_of get_sequence name = (case get_sequence name of Ok k \<Rightarrow> k | _ \<Rightarrow> 0)"

lemma max_sequence_loop_Ok:
  "\<forall>s \<in> set segments. get_sequence s \<noteq> Panic \<Longrightarrow>
    \<exists>m j. max_sequence_loop get_sequence i segments max_id max_index = Ok (m, j) \<and>
      m = foldl max max_id (map (seq_of get_sequence) segments) \<and>
      (if m = max_id then j = max_index else i \<le> j \<and> j < i + length segments \<and> get_sequence (segments ! (j - i)) = Ok m)"
proof (induction segments arbitrary: i max_id max_index)
  case (Cons f segments)
  have mono: "a \<le> foldl max a xs" for a :: nat and xs by (induction xs arbitrary: a) (auto intro: order_trans[OF max.cobounded1])
  show ?case
  proof (cases "max_id < seq_of get_sequence f")
    case True
    then obtain k where k: "get_sequence f = Ok k" "max_id < k" "seq_of get_sequence f = k"
      by (auto simp: seq_of_def split: result.splits)
    obtain m j where mj: "max_sequence_loop get_sequence (Suc i) segments k i = Ok (m, j)"
      "m = foldl max k (map (seq_of get_sequence) segments)"
      "if m = k then j = i else Suc i \<le> j \<and> j < Suc i + length segments \<and> get_sequence (segments ! (j - Suc i)) = Ok m"
      using Cons.IH[of "Suc i" k i] Cons.prems by auto
    have "m \<noteq> max_id" using mono[of k] k(2) mj(2) by (metis leD)
    moreover have "max max_id k = k" using k(2) by simp
    ultimately show ?thesis using k mj by (auto simp: nth_Cons' split: if_splits)
  next
    case False
    then have "max_sequence_loop get_sequence i (f # segments) max_id max_index = max_sequence_loop get_sequence (i + 1) segments max_id max_index"
      using Cons.prems by (auto simp: seq_of_def split: result.splits)
    moreover have "max max_id (seq_of get_sequence f) = max_id" using False by simp
    ultimately show ?thesis using Cons.IH[of "i + 1" max_id max_index] Cons.prems
      by (auto simp: nth_Cons' split: if_splits)
  qed
qed simp

text \<open>C23: Of a directory with a file whose number is above one, the file with the largest number is
  returned; a directory that has none yields its first name with the number one, whatever that name is.\<close>

theorem max_sequence_file:
  assumes "segments \<noteq> []" and "\<forall>s \<in> set segments. get_sequence s \<noteq> Panic"
  shows "\<exists>name m. get_max_sequence_file_name segments get_sequence = Ok (Some (name, m)) \<and> name \<in> set segments \<and>
    (\<forall>s \<in> set segments. \<forall>k. get_sequence s = Ok k \<longrightarrow> k \<le> m) \<and>
    (if (\<exists>s \<in> set segments. \<exists>k > 1. get_sequence s = Ok k) then get_sequence name = Ok m else name = hd segments \<and> m = 1)"
proof -
  obtain m j where mj: "max_sequence_loop get_sequence 0 segments 1 0 = Ok (m, j)"
      "m = foldl max 1 (map (seq_of get_sequence) segments)"
      "if m = 1 then j = 0 else 0 \<le> j \<and> j < 0 + length segments \<and> get_sequence (segments ! (j - 0)) = Ok m"
    using max_sequence_loop_Ok[OF assms(2), of 0 1 0] by blast
  have fold: "foldl max a xs = Max (insert a (set xs))" for a :: nat and xs
  proof (induction xs arbitrary: a)
    case (Cons x xs)
    then show ?case by (cases "set xs = {}") (auto simp: ac_simps)
  qed simp
  then have m: "m = Max (insert 1 (seq_of get_sequence ` set segments))" using mj(2) by simp
  have le: "k \<le> m" if "s \<in> set segments" "get_sequence s = Ok k" for s k
  proof -
    have "k \<in> insert 1 (seq_of get_sequence ` set segments)" using that by (force simp: seq_of_def)
    then show ?thesis unfolding m by (intro Max_ge) auto
  qed
  have j: "j < length segments" using mj(3) assms(1) by (auto split: if_splits)
  have m1: "1 \<le> m" unfolding m by (intro Max_ge) auto
  then have one: "m = 1 \<or> (\<exists>s \<in> set segments. get_sequence s = Ok m \<and> 1 < m)"
    using mj(3) j by (auto split: if_splits intro!: bexI[of _ "segments ! j"])
  have "get_max_sequence_file_name segments get_sequence = Ok (Some (segments ! j, m))"
    using mj(1) j assms(1) by (simp add: get_max_sequence_file_name_def index_def)
  moreover have "if (\<exists>s \<in> set segments. \<exists>k > 1. get_sequence s = Ok k) then get_sequence (segments ! j) = Ok m else segments ! j = hd segments \<and> m = 1"
    using mj(3) le one assms(1) by (auto simp: hd_conv_nth split: if_splits) (metis le leD)+
  ultimately show ?thesis using j le nth_mem by blast
qed

theorem max_sequence_file_witness:
  "get_max_sequence_file_name [''_'' @ fmt06 2 @ ''.wal'', ''x'', ''_'' @ fmt06 12 @ ''.wal''] (get_wal_file_id ascii_patterns) =
     Ok (Some (''_'' @ fmt06 12 @ ''.wal'', 12)) \<and>
   get_max_sequence_file_name [''x''] (get_wal_file_id ascii_patterns) = Ok (Some (''x'', 1))"
proof -
  let ?get = "get_wal_file_id ascii_patterns"
  define f2 f12 where "f2 = ''_'' @ fmt06 2 @ ''.wal''" and "f12 = ''_'' @ fmt06 12 @ ''.wal''"
  have e: "?get f2 = Ok 2" "?get f12 = Ok 12" "?get ''x'' = Err (EInvalidFileName ''x'' ''wal file name does not contain an id'')"
    unfolding f2_def f12_def using wal_name_id[OF ascii.name_patterns_axioms, of 2] wal_name_id[OF ascii.name_patterns_axioms, of 12]
    by (simp_all add: get_wal_file_id_def check_wal_file_name_def ascii_patterns_def occurs_def)
  then show ?thesis unfolding f2_def[symmetric] f12_def[symmetric]
    using max_sequence_file[of "[f2, ''x'', f12]" ?get] max_sequence_file[of "[''x'']" ?get] by (auto simp: e)
qed

end
