(* ===== verification/Tombstones.thy ===== *)
theory Tombstones
  imports FileUtils DirectFile MemCache
begin

text \<open>
  Tombstone files of \<^verbatim>\<open>src/tskv/src/tsm/tombstone.rs\<close>: opening, loading, adding a range and the
  overlap test.  Whether the file exists, what the file manager opens and how a flush to the disk ends
  are parameters.  The main result follows a range from \<^verbatim>\<open>add_range\<close> through the file to \<^verbatim>\<open>load\<close>, which does
  not get it back, since only the field ids are written.
\<close>

definition TOMBSTONE_MAGIC :: u32 where
  "TOMBSTONE_MAGIC = 0x544F4D42"

record Tombstone =
  td_field_id :: FieldId
  td_min_ts :: i64
  td_max_ts :: i64

record TsmTombstone =
  tt_path :: string
  tt_tombstones :: "Tombstone list"
  tt_file_cursor :: FileCursor

definition tombstone_header_to :: "bool \<Rightarrow> FileCursor \<Rightarrow> (TskvError, FileCursor) result" where
  "tombstone_header_to oc writer =
     map_err EIO (rbind (cursor_seek oc writer (SeekStart 0)) (\<lambda>(writer, _).
       cursor_write oc writer (be_bytes 4 TOMBSTONE_MAGIC)))"

definition with_tsm_file_id ::
  "bool \<Rightarrow> string \<Rightarrow> nat \<Rightarrow> bool \<Rightarrow> (TskvError, File) result \<Rightarrow> (FileCursor \<Rightarrow> (string, unit) result) \<Rightarrow>
   (TskvError, TsmTombstone) result" where
  "with_tsm_file_id oc path file_id exists open_create_file sync_data =
     (let tombstone_path = make_tsm_tombstone_file_name path file_id;
          is_new = \<not> exists in
      rbind open_create_file (\<lambda>file.
        let file_cursor = file_into_cursor file in
        rbind (if is_new
               then rbind (tombstone_header_to oc file_cursor) (\<lambda>file_cursor.
                      rbind (map_err EIO (sync_data file_cursor)) (\<lambda>_. Ok file_cursor))
               else Ok file_cursor) (\<lambda>file_cursor.
          Ok \<lparr>tt_path = tombstone_path, tt_tombstones = [], tt_file_cursor = file_cursor\<rparr>)))"

text \<open>The inner loop of \<^verbatim>\<open>load\<close>.\<close>

function tombstone_buf_loop :: "bytes \<Rightarrow> nat \<Rightarrow> Tombstone list \<Rightarrow> (TskvError, Tombstone list) result" where
  "tombstone_buf_loop buf buf_pos tombstones =
     (if buf_pos < length buf then
        rbind (rbind (slice_range buf buf_pos (buf_pos + 8)) decode_be_u64) (\<lambda>field_id.
          let buf_pos = buf_pos + 8 in
        rbind (rbind (slice_range buf buf_pos (buf_pos + 8)) decode_be_i64) (\<lambda>mn.
          let buf_pos = buf_pos + 8 in
        rbind (rbind (slice_range buf buf_pos (buf_pos + 8)) decode_be_i64) (\<lambda>mx.
          let buf_pos = buf_pos + 8 in
          tombstone_buf_loop buf buf_pos
            (tombstones @ [\<lparr>td_field_id = field_id, td_min_ts = mn, td_max_ts = mx\<rparr>]))))
      else Ok tombstones)"
  by pat_completeness auto
termination
  by (relation "measure (\<lambda>(buf, buf_pos, tombstones). length buf - buf_pos)") auto

declare tombstone_buf_loop.simps [simp del]

text \<open>The outer loop; \<^verbatim>\<open>buf\<close> is reused, a short read leaves its end as it was.\<close>

function tombstone_load_loop ::
  "bool \<Rightarrow> FileCursor \<Rightarrow> bytes \<Rightarrow> nat \<Rightarrow> Tombstone list \<Rightarrow> (TskvError, FileCursor \<times> Tombstone list) result" where
  "tombstone_load_loop oc file_cursor buf pos tombstones =
     (if pos < length buf then
        rbind (map_err EReadFile (cursor_seek oc file_cursor (SeekStart pos))) (\<lambda>(file_cursor, _).
        rbind (map_err EReadFile (cursor_read oc file_cursor (length buf))) (\<lambda>(file_cursor, data).
        rbind (write_front buf data) (\<lambda>buf'.
        rbind (tombstone_buf_loop buf' 0 tombstones) (\<lambda>tombstones.
          tombstone_load_loop oc file_cursor buf' (pos + length buf) tombstones))))
      else Ok (file_cursor, tombstones))"
  by pat_completeness auto
termination
  by (relation "measure (\<lambda>(oc, c, buf, pos, tombstones). length buf - pos)")
    (auto simp: write_front_def split: if_splits)

declare tombstone_load_loop.simps [simp del]

definition TOMBSTONE_BUF_SIZE :: nat where
  "TOMBSTONE_BUF_SIZE = 1024 * 64"

text \<open>On a file shorter than the header \<^verbatim>\<open>file_len - 4\<close> overflows; unchecked, the buffer is too large to be
  allocated.\<close>

definition tombstone_load :: "bool \<Rightarrow> TsmTombstone \<Rightarrow> (TskvError, TsmTombstone) result" where
  "tombstone_load oc t =
     (let file_cursor = tt_file_cursor t;
          file_len = f_len (fc_file file_cursor) in
      rbind (map_err EReadFile (cursor_read oc file_cursor 4)) (\<lambda>(file_cursor, header).
      rbind (if file_len < TOMBSTONE_BUF_SIZE
             then if file_len < 4 then Panic else Ok (replicate (file_len - 4) 0)
             else Ok (replicate TOMBSTONE_BUF_SIZE 0)) (\<lambda>buf.
      rbind (tombstone_load_loop oc file_cursor buf 4 []) (\<lambda>(file_cursor, tombstones).
        Ok (t\<lparr>tt_tombstones := tombstones, tt_file_cursor := file_cursor\<rparr>)))))"

definition tombstone_write_to :: "bool \<Rightarrow> FileCursor \<Rightarrow> Tombstone \<Rightarrow> (TskvError, FileCursor) result" where
  "tombstone_write_to oc writer tombstone =
     rbind (map_err EIO (cursor_seek oc writer (SeekEnd 0))) (\<lambda>(writer, _).
       map_err EIO (cursor_write oc writer (to_be_bytes (td_field_id tombstone))))"

fun tombstone_add_loop :: "bool \<Rightarrow> FileCursor \<Rightarrow> FieldId list \<Rightarrow> i64 \<Rightarrow> i64 \<Rightarrow> (TskvError, FileCursor) result" where
  "tombstone_add_loop oc file_cursor [] mn mx = Ok file_cursor"
| "tombstone_add_loop oc file_cursor (field_id # field_ids) mn mx =
     rbind (tombstone_write_to oc file_cursor \<lparr>td_field_id = field_id, td_min_ts = mn, td_max_ts = mx\<rparr>) (\<lambda>file_cursor.
       tombstone_add_loop oc file_cursor field_ids mn mx)"

definition tombstone_add_range :: "bool \<Rightarrow> TsmTombstone \<Rightarrow> FieldId list \<Rightarrow> i64 \<Rightarrow> i64 \<Rightarrow> (TskvError, TsmTombstone) result" where
  "tombstone_add_range oc t field_ids mn mx =
     rbind (tombstone_add_loop oc (tt_file_cursor t) field_ids mn mx) (\<lambda>c. Ok (t\<lparr>tt_file_cursor := c\<rparr>))"

definition tombstone_overlaps :: "TsmTombstone \<Rightarrow> TimeRange \<Rightarrow> bool" where
  "tombstone_overlaps t timerange =
     list_ex (\<lambda>d. sle (tr_max_ts timerange) (td_max_ts d) \<and> sle (td_min_ts d) (tr_min_ts timerange)) (tt_tombstones t)"

definition tombstone_sync :: "(FileCursor \<Rightarrow> (string, unit) result) \<Rightarrow> TsmTombstone \<Rightarrow> (TskvError, unit) result" where
  "tombstone_sync sync_all t = map_err EIO (sync_all (tt_file_cursor t))"

subsection \<open>What becomes of a range\<close>

text \<open>The tombstones that a list of field ids reads as.\<close>

fun id_triples :: "FieldId list \<Rightarrow> Tombstone list" where
  "id_triples (a # b # c # ids) = \<lparr>td_field_id = a, td_min_ts = b, td_max_ts = c\<rparr> # id_triples ids"
| "id_triples ids = []"

lemma sub_be:
  assumes "drop p buf = to_be_bytes a @ rest" "p \<le> length buf"
  shows "rbind (slice_range buf p (p + 8)) decode_be_u64 = (Ok a :: (TskvError, u64) result)"
    "rbind (slice_range buf p (p + 8)) decode_be_i64 = (Ok a :: (TskvError, u64) result)"
    "drop (p + 8) buf = rest" "p + 8 \<le> length buf"
proof -
  have len: "length (drop p buf) = 8 + length rest" using assms(1) by simp
  then show l: "p + 8 \<le> length buf" using assms(2) by simp
  show "drop (p + 8) buf = rest" using arg_cong[OF assms(1), of "drop 8"] by (simp add: add.commute)
  show "rbind (slice_range buf p (p + 8)) decode_be_u64 = (Ok a :: (TskvError, u64) result)"
    "rbind (slice_range buf p (p + 8)) decode_be_i64 = (Ok a :: (TskvError, u64) result)"
    using assms(1) l by (simp_all add: slice_range_def decode_be_u64_def decode_be_i64_def decode_be_def)
qed

lemma sub_be_short: "drop p buf = [] \<Longrightarrow> slice_range buf p (p + 8) = (Panic :: (TskvError, bytes) result)"
  by (simp add: slice_range_def)

lemma tombstone_buf_loop_ids:
  "drop p buf = concat (map to_be_bytes ids) \<Longrightarrow> p \<le> length buf \<Longrightarrow>
    tombstone_buf_loop buf p ts = (if length ids mod 3 = 0 then Ok (ts @ id_triples ids) else Panic)"
proof (induction ids arbitrary: p ts rule: id_triples.induct, goal_cases)
  case (1 a b c ids p ts)
  have "drop p buf = to_be_bytes a @ to_be_bytes b @ to_be_bytes c @ concat (map to_be_bytes ids)" using 1(2) by simp
  note 11 = sub_be[OF this 1(3)]
  note 12 = sub_be[OF 11(3,4)]
  note 13 = sub_be[OF 12(3,4)]
  have "p < length buf" using 11(4) by simp
  then have "tombstone_buf_loop buf p ts = tombstone_buf_loop buf (p + 8 + 8 + 8) (ts @ [\<lparr>td_field_id = a, td_min_ts = b, td_max_ts = c\<rparr>])"
    using 11(1) 12(2) 13(2) by (subst tombstone_buf_loop.simps) simp
  moreover have "length (a # b # c # ids) mod 3 = length ids mod 3" by (simp add: mod_simps)
  ultimately show ?case using 1(1)[OF 13(3,4)] by simp
next
  case (2 p ts)
  then show ?case by (subst tombstone_buf_loop.simps) simp
next
  case (3 a p ts)
  have "drop p buf = to_be_bytes a @ []" using 3(1) by simp
  note 11 = sub_be[OF this 3(2)]
  have "p < length buf" using 11(4) by simp
  then show ?case using 11(1) sub_be_short[OF 11(3)] by (subst tombstone_buf_loop.simps) simp
next
  case (4 a b p ts)
  have "drop p buf = to_be_bytes a @ to_be_bytes b @ []" using 4(1) by simp
  note 11 = sub_be[OF this 4(2)]
  note 12 = sub_be[OF 11(3,4)]
  have "p < length buf" using 11(4) by simp
  then show ?case using 11(1) 12(2) sub_be_short[OF 12(3)] by (subst tombstone_buf_loop.simps) simp
qed

lemma tombstone_add_loop_Ok:
  "at_end w \<Longrightarrow> 8 * length ids \<le> cursor_room w \<Longrightarrow>
    \<exists>w'. tombstone_add_loop oc w ids mn mx = Ok w' \<and> at_end w' \<and> cursor_bytes w' = cursor_bytes w @ concat (map to_be_bytes ids)"
proof (induction ids arbitrary: w)
  case (Cons a ids)
  have seek: "cursor_seek oc w (SeekEnd 0) = Ok (w, fc_pos w)"
    using Cons.prems(1) file_wfD(3,6)[of "fc_file w"] by (auto simp: cursor_seek_def seek_by_def at_end_def)
  obtain w1 where w1: "cursor_write oc w (to_be_bytes a) = Ok w1" "at_end w1" "cursor_bytes w1 = cursor_bytes w @ to_be_bytes a"
    "cursor_room w1 + 8 = cursor_room w"
    using cursor_write_append[OF Cons.prems(1), of "to_be_bytes a" oc] Cons.prems(2) by auto
  then show ?case using Cons.IH[OF w1(2)] Cons.prems(2) seek by (auto simp: tombstone_write_to_def)
qed simp

lemma tombstone_load_ids:
  assumes "at_end (tt_file_cursor t)" "cursor_bytes (tt_file_cursor t) = head @ concat (map to_be_bytes ids)" "length head = 4"
    and "4 + 8 * length ids < TOMBSTONE_BUF_SIZE"
  shows "if length ids mod 3 = 0 then \<exists>t'. tombstone_load oc t = Ok t' \<and> tt_tombstones t' = id_triples ids else tombstone_load oc t = Panic"
proof -
  let ?c = "tt_file_cursor t" and ?n = "8 * length ids"
  have wf: "file_wf (fc_file ?c)" "fc_pos ?c = f_len (fc_file ?c)" using assms(1) by (simp_all add: at_end_def)
  have len: "f_len (fc_file ?c) = 4 + ?n" using arg_cong[OF assms(2), of length] assms(3) by (simp add: cursor_bytes_def)
  have rd: "cursor_read oc ?c 4 = Ok (?c, [])" using cursor_read_Ok[OF wf(1), of oc 4] wf(2) by (simp add: cursor_bytes_def)
  have load: "tombstone_load oc t = rbind (tombstone_load_loop oc ?c (replicate ?n 0) 4 []) (\<lambda>(c, ts).
      Ok (t\<lparr>tt_tombstones := ts, tt_file_cursor := c\<rparr>))"
    using rd len assms(4) by (simp add: tombstone_load_def)
  show ?thesis
  proof (cases "ids = []")
    case True
    then show ?thesis unfolding load by (subst tombstone_load_loop.simps) auto
  next
    case False
    then have n: "4 < ?n" by (cases ids) auto
    let ?c1 = "?c\<lparr>fc_pos := 4\<rparr>" and ?c2 = "?c\<lparr>fc_pos := 4 + ?n\<rparr>"
    have rd2: "cursor_read oc ?c1 ?n = Ok (?c2, concat (map to_be_bytes ids))"
      using cursor_read_Ok[of ?c1 oc ?n] wf(1) len assms(2,3) by (simp add: cursor_bytes_def)
    have last: "tombstone_load_loop oc ?c2 (concat (map to_be_bytes ids)) (4 + ?n) = (\<lambda>ts. Ok (?c2, ts))"
      by (rule ext, subst tombstone_load_loop.simps) simp
    have loop: "tombstone_load_loop oc ?c (replicate ?n 0) 4 [] =
      rbind (tombstone_buf_loop (concat (map to_be_bytes ids)) 0 []) (\<lambda>ts. Ok (?c2, ts))"
      using n rd2 last by (subst tombstone_load_loop.simps) (simp add: cursor_seek_def write_front_def)
    show ?thesis unfolding load loop using tombstone_buf_loop_ids[of 0 "concat (map to_be_bytes ids)" ids "[]"] by auto
  qed
qed

text \<open>C24: A range added to the tombstones of a fresh file is not found again by \<^verbatim>\<open>load\<close>: the file has the field ids
  only, and they are read as triples of a field and a range, or make \<^verbatim>\<open>load\<close> panic when their number is
  not divisible by three.\<close>

theorem tombstone_range_lost:
  assumes "file_wf file" and "f_len file = 0" and "4 + 8 * length ids < min 65536 (f_page_len file * 2 ^ 32)"
  shows "\<exists>t1 t2. with_tsm_file_id oc path file_id False (Ok file) (\<lambda>_. Ok ()) = Ok t1 \<and>
    tombstone_add_range oc t1 ids mn mx = Ok t2 \<and>
    (if length ids mod 3 = 0 then \<exists>t3. tombstone_load oc t2 = Ok t3 \<and> tt_tombstones t3 = id_triples ids
     else tombstone_load oc t2 = Panic)"
proof -
  let ?c = "file_into_cursor file"
  have c: "at_end ?c" "cursor_room ?c = f_cap file - 1" "cursor_bytes ?c = []"
    using assms(1,2) by (simp_all add: at_end_def file_into_cursor_def cursor_room_def cursor_bytes_def file_bytes_def)
  have room: "4 + 8 * length ids \<le> cursor_room ?c" using c(2) assms(3) unfolding min_less_iff_conj by linarith
  have seek: "cursor_seek oc ?c (SeekStart 0) = Ok (?c, 0)" by (simp add: cursor_seek_def file_into_cursor_def)
  obtain w where w: "cursor_write oc ?c (be_bytes 4 TOMBSTONE_MAGIC) = Ok w" "at_end w" "cursor_bytes w = be_bytes 4 TOMBSTONE_MAGIC"
    "cursor_room w + 4 = cursor_room ?c"
    using cursor_write_append[OF c(1), of "be_bytes 4 TOMBSTONE_MAGIC" oc] room c(3) by auto
  let ?t = "\<lparr>tt_path = make_tsm_tombstone_file_name path file_id, tt_tombstones = [], tt_file_cursor = w\<rparr>"
  have "8 * length ids \<le> cursor_room w" using room w(4) by simp
  then obtain w' where w': "tombstone_add_loop oc w ids mn mx = Ok w'" "at_end w'"
    "cursor_bytes w' = be_bytes 4 TOMBSTONE_MAGIC @ concat (map to_be_bytes ids)"
    using tombstone_add_loop_Ok[OF w(2), of ids oc mn mx] w(3) by auto
  have "with_tsm_file_id oc path file_id False (Ok file) (\<lambda>_. Ok ()) = Ok ?t"
    using seek w(1) by (simp add: with_tsm_file_id_def tombstone_header_to_def)
  moreover define t2 where "t2 = ?t\<lparr>tt_file_cursor := w'\<rparr>"
  then have "tombstone_add_range oc ?t ids mn mx = Ok t2" using w'(1) by (simp add: tombstone_add_range_def)
  moreover have "if length ids mod 3 = 0 then \<exists>t3. tombstone_load oc t2 = Ok t3 \<and> tt_tombstones t3 = id_triples ids else tombstone_load oc t2 = Panic"
    by (rule tombstone_load_ids[where head = "be_bytes 4 TOMBSTONE_MAGIC"]) (use w'(2,3) assms(3) in \<open>simp_all add: t2_def TOMBSTONE_BUF_SIZE_def\<close>)
  ultimately show ?thesis by blast
qed

theorem tombstone_range_lost_witness:
  "\<exists>t1 t2 t3. with_tsm_file_id True ''/tmp'' 1 False (Ok (blank_file 4096 0)) (\<lambda>_. Ok ()) = Ok t1 \<and>
    tombstone_add_range True t1 [1, 2, 3] 1 100 = Ok t2 \<and> tombstone_load True t2 = Ok t3 \<and>
    tt_tombstones t3 = [\<lparr>td_field_id = 1, td_min_ts = 2, td_max_ts = 3\<rparr>]"
  using tombstone_range_lost[of "blank_file 4096 0" "[1, 2, 3]" True "''/tmp''" 1 1 100] blank_file_wf[of 4096 0]
  by (auto simp: blank_file_def)

end
