(* ===== verification/PageLock.thy ===== *)
theory PageLock
  imports Prelude
begin

text \<open>
  The reader-writer lock of a page, \<^verbatim>\<open>src/tskv/src/direct_io/cache/page/lock.rs\<close>.  The lock is one atomic
  64-bit word; the operations are functions on it.  Threads interleave between atomic accesses, so
  \<^verbatim>\<open>lock_shared\<close>, which has two of them, is two steps of the machine \<^verbatim>\<open>lock_step\<close>.  The results are mutual
  exclusion, that the lock can always be released, and that the counter of failed attempts is never
  reset.
\<close>

subsection \<open>Operations\<close>

type_synonym StateInt = u64

definition UNLOCKED :: StateInt where
  "UNLOCKED = 0"

definition MIN_SHARED :: StateInt where
  "MIN_SHARED = 1"

definition MAX_EXCLUSIVE :: StateInt where
  "MAX_EXCLUSIVE = 0xffffffffffffffff"

definition MIN_EXCLUSIVE :: StateInt where
  "MIN_EXCLUSIVE = MAX_EXCLUSIVE div 2 + 1"

definition MAX_SHARED :: StateInt where
  "MAX_SHARED = MIN_EXCLUSIVE - 1"

datatype LockState = Unlocked | Shared | Exclusive

definition lock_state_from :: "StateInt \<Rightarrow> LockState" where
  "lock_state_from v = (if v = UNLOCKED then Unlocked else if MIN_SHARED \<le> v \<and> v \<le> MAX_SHARED then Shared else Exclusive)"

definition lock_new_exclusive :: StateInt where
  "lock_new_exclusive = MIN_EXCLUSIVE"

definition lock_state :: "StateInt \<Rightarrow> LockState" where
  "lock_state cell = lock_state_from cell"

definition lock_is_locked :: "StateInt \<Rightarrow> bool" where
  "lock_is_locked cell \<longleftrightarrow> lock_state cell \<noteq> Unlocked"

text \<open>The atomic accesses: the new word and the old one.\<close>

definition lock_cas :: "StateInt \<Rightarrow> StateInt \<Rightarrow> StateInt \<Rightarrow> StateInt \<times> StateInt" where
  "lock_cas old new cell = (if cell = old then new else cell, cell)"

definition lock_swap :: "StateInt \<Rightarrow> StateInt \<Rightarrow> StateInt \<times> StateInt" where
  "lock_swap v cell = (v, cell)"

definition lock_inc :: "StateInt \<Rightarrow> StateInt \<times> StateInt" where
  "lock_inc cell = (cell + 1, cell)"

definition lock_dec :: "StateInt \<Rightarrow> StateInt \<times> StateInt" where
  "lock_dec cell = (cell - 1, cell)"

text \<open>What \<^verbatim>\<open>lock_shared\<close> does with the old word: it has the lock, it has failed, or it has failed and goes on
  to reset the word; a failed assertion is a panic.\<close>

datatype SharedTry = Got | Failed | Resetting StateInt

definition lock_shared_try :: "StateInt \<Rightarrow> (string, SharedTry) result" where
  "lock_shared_try state =
     (if state \<le> MAX_SHARED then if state < MAX_SHARED then Ok Got else Panic
      else if \<not> state < MAX_EXCLUSIVE then Panic
      else if state \<ge> MIN_EXCLUSIVE div 2 + MAX_EXCLUSIVE div 2 then Ok (Resetting state)
      else Ok Failed)"

definition lock_shared_reset :: "StateInt \<Rightarrow> StateInt \<Rightarrow> StateInt" where
  "lock_shared_reset state cell = fst (lock_cas state MIN_EXCLUSIVE cell)"

text \<open>The whole operation, run without interruption.\<close>

definition lock_shared :: "StateInt \<Rightarrow> (string, StateInt \<times> bool) result" where
  "lock_shared cell =
     (let (cell, state) = lock_inc cell in
      rbind (lock_shared_try state) (\<lambda>r.
        case r of Got \<Rightarrow> Ok (cell, True)
                | Failed \<Rightarrow> Ok (cell, False)
                | Resetting st \<Rightarrow> Ok (lock_shared_reset st cell, False)))"

text \<open>\<^verbatim>\<open>dbg\<close> says whether debug assertions are compiled in.\<close>

definition lock_unlock_shared :: "bool \<Rightarrow> StateInt \<Rightarrow> (string, StateInt) result" where
  "lock_unlock_shared dbg cell =
     (let (cell, v) = lock_dec cell in
      if dbg \<and> \<not> (v > UNLOCKED \<and> v \<le> MAX_SHARED) then Panic else Ok cell)"

definition lock_exclusive0 :: "StateInt \<Rightarrow> StateInt \<times> StateInt" where
  "lock_exclusive0 cell = lock_cas UNLOCKED MIN_EXCLUSIVE cell"

definition lock_exclusive :: "StateInt \<Rightarrow> StateInt \<times> bool" where
  "lock_exclusive cell = (let (cell, old) = lock_exclusive0 cell in (cell, old = UNLOCKED))"

definition lock_ensure_exclusive :: "StateInt \<Rightarrow> StateInt \<times> bool" where
  "lock_ensure_exclusive cell =
     (let (cell, old) = lock_exclusive0 cell; state = lock_state_from old in
      (cell, state = Unlocked \<or> state = Exclusive))"

definition lock_exclusive_to_shared :: "bool \<Rightarrow> u32 \<Rightarrow> StateInt \<Rightarrow> (string, StateInt) result" where
  "lock_exclusive_to_shared dbg count cell =
     (let count = ucast count in
      if dbg \<and> \<not> (count > 0 \<and> count \<le> MAX_SHARED) then Panic
      else let (cell, old) = lock_swap count cell in
        if dbg \<and> lock_state_from old \<noteq> Exclusive then Panic else Ok cell)"

subsection \<open>Threads\<close>

text \<open>The word, how many threads hold a shared lock, whether a thread holds the exclusive lock, the words of
  the threads that are about to reset, and whether an assertion has failed.\<close>

record LockSys =
  ls_cell :: StateInt
  ls_shared :: nat
  ls_excl :: bool
  ls_resets :: "StateInt list"
  ls_panicked :: bool

definition lock_start :: LockSys where
  "lock_start = \<lparr>ls_cell = lock_new_exclusive, ls_shared = 0, ls_excl = True, ls_resets = [], ls_panicked = False\<rparr>"

definition take_shared :: "LockSys \<Rightarrow> LockSys" where
  "take_shared s =
     (let (cell, state) = lock_inc (ls_cell s); s = s\<lparr>ls_cell := cell\<rparr> in
      case lock_shared_try state of
        Ok Got \<Rightarrow> s\<lparr>ls_shared := ls_shared s + 1\<rparr>
      | Ok Failed \<Rightarrow> s
      | Ok (Resetting st) \<Rightarrow> s\<lparr>ls_resets := ls_resets s @ [st]\<rparr>
      | _ \<Rightarrow> s\<lparr>ls_panicked := True\<rparr>)"

inductive lock_step :: "LockSys \<Rightarrow> LockSys \<Rightarrow> bool" where
  try_shared: "lock_step s (take_shared s)"
| reset: "ls_resets s = xs @ st # ys \<Longrightarrow> lock_step s (s\<lparr>ls_cell := lock_shared_reset st (ls_cell s), ls_resets := xs @ ys\<rparr>)"
| unlock_shared: "0 < ls_shared s \<Longrightarrow> lock_unlock_shared dbg (ls_cell s) = Ok cell \<Longrightarrow>
    lock_step s (s\<lparr>ls_cell := cell, ls_shared := ls_shared s - 1\<rparr>)"
| unlock_shared_panic: "0 < ls_shared s \<Longrightarrow> lock_unlock_shared dbg (ls_cell s) = Panic \<Longrightarrow> lock_step s (s\<lparr>ls_panicked := True\<rparr>)"
| lock_exclusive: "lock_exclusive (ls_cell s) = (cell, got) \<Longrightarrow>
    lock_step s (s\<lparr>ls_cell := cell, ls_excl := (got \<or> ls_excl s)\<rparr>)"
| downgrade: "ls_excl s \<Longrightarrow> 0 < count \<Longrightarrow> lock_exclusive_to_shared dbg count (ls_cell s) = Ok cell \<Longrightarrow>
    lock_step s (s\<lparr>ls_cell := cell, ls_shared := unat count, ls_excl := False\<rparr>)"
| downgrade_panic: "ls_excl s \<Longrightarrow> 0 < count \<Longrightarrow> lock_exclusive_to_shared dbg count (ls_cell s) = Panic \<Longrightarrow>
    lock_step s (s\<lparr>ls_panicked := True\<rparr>)"

inductive_cases lock_stepE: "lock_step s s'"

definition lock_reachable :: "LockSys \<Rightarrow> bool" where
  "lock_reachable s \<longleftrightarrow> lock_step\<^sup>*\<^sup>* lock_start s"

subsection \<open>Mutual exclusion\<close>

lemmas lock_consts = UNLOCKED_def MIN_SHARED_def MAX_EXCLUSIVE_def MIN_EXCLUSIVE_def MAX_SHARED_def

lemma lock_const_values [simp]:
  "MIN_EXCLUSIVE = 0x8000000000000000" "MAX_SHARED = 0x7fffffffffffffff" "MAX_EXCLUSIVE = 0xffffffffffffffff"
  "UNLOCKED = 0" "MIN_SHARED = 1"
  by (simp_all add: lock_consts)

text \<open>The invariant: the word counts the shared holders, or is in the exclusive range.\<close>

definition lock_inv :: "LockSys \<Rightarrow> bool" where
  "lock_inv s \<longleftrightarrow> (\<forall>st \<in> set (ls_resets s). MIN_EXCLUSIVE < st) \<and>
     (if ls_excl s then ls_shared s = 0 \<and> MIN_EXCLUSIVE \<le> ls_cell s
      else unat (ls_cell s) = ls_shared s \<and> ls_cell s \<le> MAX_SHARED)"

lemma lock_inv_start: "lock_inv lock_start"
  by (simp add: lock_inv_def lock_start_def lock_new_exclusive_def)

lemma shared_word_Suc: "unat (c :: u64) = n \<Longrightarrow> c < 0x7fffffffffffffff \<Longrightarrow> unat (c + 1) = Suc n \<and> c + 1 \<le> 0x7fffffffffffffff"
  by (simp add: word_less_nat_alt word_le_nat_alt unat_word_ariths)

lemma exclusive_word_Suc: "0x8000000000000000 \<le> (c :: u64) \<Longrightarrow> c < 0xffffffffffffffff \<Longrightarrow> 0x8000000000000000 \<le> c + 1"
  by (simp add: word_less_nat_alt word_le_nat_alt unat_word_ariths)

lemma shared_word_pred: "unat (c :: u64) = n \<Longrightarrow> 0 < n \<Longrightarrow> c \<le> 0x7fffffffffffffff \<Longrightarrow> unat (c - 1) = n - 1 \<and> c - 1 \<le> 0x7fffffffffffffff"
  by (auto simp: word_le_nat_alt unat_sub Suc_le_eq unat_minus_one unat_gt_0 simp flip: unat_eq_0)

lemma exclusive_or_shared: "(c :: u64) \<le> 0x7fffffffffffffff \<longleftrightarrow> \<not> 0x8000000000000000 \<le> c"
  by (simp add: word_le_nat_alt) linarith

lemma lock_inv_take_shared:
  assumes "lock_inv s" "\<not> ls_panicked (take_shared s)"
  shows "lock_inv (take_shared s)"
proof (cases "ls_excl s")
  case True
  then have c: "0x8000000000000000 \<le> ls_cell s" "ls_shared s = 0" using assms(1) by (simp_all add: lock_inv_def)
  then have "\<not> ls_cell s \<le> MAX_SHARED" by (simp add: exclusive_or_shared)
  moreover from this have "ls_cell s < MAX_EXCLUSIVE"
    using assms(2) by (auto simp: take_shared_def lock_inc_def lock_shared_try_def split: if_splits)
  moreover from this have "0x8000000000000000 \<le> ls_cell s + 1" using exclusive_word_Suc c(1) by simp
  moreover have "0x8000000000000000 < ls_cell s" if "0xbfffffffffffffff \<le> ls_cell s" using that by (rule order.strict_trans2[rotated]) simp
  ultimately show ?thesis using assms(1) True
    by (auto simp: lock_inv_def take_shared_def lock_inc_def lock_shared_try_def)
next
  case False
  then have c: "unat (ls_cell s) = ls_shared s" "ls_cell s \<le> MAX_SHARED" using assms(1) by (simp_all add: lock_inv_def)
  then have "ls_cell s < MAX_SHARED"
    using assms(2) by (auto simp: take_shared_def lock_inc_def lock_shared_try_def split: if_splits)
  then show ?thesis using assms(1) False c shared_word_Suc[OF c(1)]
    by (simp add: lock_inv_def take_shared_def lock_inc_def lock_shared_try_def)
qed

lemma ucast_count: "0 < (n :: u32) \<Longrightarrow> 0 < (ucast n :: u64) \<and> (ucast n :: u64) \<le> 0x7fffffffffffffff \<and> unat (ucast n :: u64) = unat n"
proof -
  assume "0 < n"
  then have "0 < unat n" "unat n < 2 ^ 32" using unsigned_less[of n, where 'a = nat] by (simp_all add: unat_gt_0)
  moreover have "unat (ucast n :: u64) = unat n" using \<open>unat n < 2 ^ 32\<close> by (simp add: unsigned_ucast_eq take_bit_nat_eq_self)
  ultimately show ?thesis by (simp add: word_less_nat_alt word_le_nat_alt)
qed

lemma lock_inv_step:
  assumes "lock_step s s'" "lock_inv s" "\<not> ls_panicked s'"
  shows "lock_inv s'"
  using assms
proof (cases rule: lock_step.cases)
  case try_shared
  then show ?thesis using lock_inv_take_shared assms(2,3) by simp
next
  case (reset xs st ys)
  have st: "0x8000000000000000 < st" using assms(2) reset(2) by (simp add: lock_inv_def)
  then have "\<not> st \<le> 0x7fffffffffffffff" by (simp add: exclusive_or_shared)
  then show ?thesis using assms(2) reset
    by (auto simp: lock_inv_def lock_shared_reset_def lock_cas_def)
next
  case (unlock_shared dbg cell)
  then show ?thesis using assms(2) shared_word_pred[of "ls_cell s" "ls_shared s"]
    by (auto simp: lock_inv_def lock_unlock_shared_def lock_dec_def split: if_splits)
next
  case (lock_exclusive cell got)
  then show ?thesis using assms(2)
    by (auto simp: lock_inv_def lock_exclusive_def lock_exclusive0_def lock_cas_def split: if_splits)
next
  case (downgrade count dbg cell)
  then show ?thesis using assms(2) ucast_count[OF downgrade(3)]
    by (auto simp: lock_inv_def lock_exclusive_to_shared_def lock_swap_def split: if_splits)
qed (use assms(3) in auto)

lemma panicked_stays: "lock_step s s' \<Longrightarrow> ls_panicked s \<Longrightarrow> ls_panicked s'"
  by (cases rule: lock_step.cases) (auto simp: take_shared_def lock_inc_def Let_def split: result.splits SharedTry.splits)

lemma lock_inv_reachable: "lock_reachable s \<Longrightarrow> \<not> ls_panicked s \<Longrightarrow> lock_inv s"
  unfolding lock_reachable_def
proof (induction rule: rtranclp_induct)
  case (step s s')
  then show ?case using lock_inv_step panicked_stays by blast
qed (rule lock_inv_start)

lemma lock_inv_state:
  assumes "lock_inv s"
  shows "lock_state (ls_cell s) = (if ls_excl s then Exclusive else if ls_shared s = 0 then Unlocked else Shared)"
proof (cases "ls_excl s")
  case True
  then have "0x8000000000000000 \<le> ls_cell s" using assms by (simp add: lock_inv_def)
  moreover from this have "ls_cell s \<noteq> 0" by auto
  ultimately show ?thesis using True by (simp add: lock_state_def lock_state_from_def exclusive_or_shared)
next
  case False
  then have c: "unat (ls_cell s) = ls_shared s" "ls_cell s \<le> 0x7fffffffffffffff" using assms by (simp_all add: lock_inv_def)
  then have "ls_cell s = 0 \<longleftrightarrow> ls_shared s = 0" by (metis unat_eq_0)
  moreover have "1 \<le> ls_cell s" if "ls_shared s \<noteq> 0" using c(1) that by (simp add: word_le_nat_alt)
  ultimately show ?thesis using False c(2) by (auto simp: lock_state_def lock_state_from_def)
qed

text \<open>C25: However threads interleave, the lock is never held exclusively and shared at once, and its word
  tells which of the two it is, as long as no assertion has failed.\<close>

theorem lock_mutual_exclusion:
  assumes "lock_reachable s" and "\<not> ls_panicked s"
  shows "\<not> (ls_excl s \<and> 0 < ls_shared s) \<and>
    lock_state (ls_cell s) = (if ls_excl s then Exclusive else if ls_shared s = 0 then Unlocked else Shared)"
  using lock_inv_reachable[OF assms] lock_inv_state by (auto simp: lock_inv_def split: if_splits)

subsection \<open>Release\<close>

lemma unlock_all:
  "lock_inv s \<Longrightarrow> \<not> ls_excl s \<Longrightarrow> \<exists>s'. lock_step\<^sup>*\<^sup>* s s' \<and> lock_inv s' \<and> ls_shared s' = 0 \<and> \<not> ls_excl s' \<and> ls_panicked s' = ls_panicked s"
proof (induction "ls_shared s" arbitrary: s)
  case (Suc n)
  have c: "unat (ls_cell s) = Suc n" "ls_cell s \<le> MAX_SHARED" using Suc.prems Suc.hyps(2) by (simp_all add: lock_inv_def)
  let ?s = "s\<lparr>ls_cell := ls_cell s - 1, ls_shared := ls_shared s - 1\<rparr>"
  have "lock_unlock_shared False (ls_cell s) = Ok (ls_cell s - 1)" by (simp add: lock_unlock_shared_def lock_dec_def)
  then have st: "lock_step s ?s" using lock_step.unlock_shared[of s False] Suc.hyps(2) by simp
  have "lock_inv ?s" using shared_word_pred[OF c(1)] c(2) Suc.prems Suc.hyps(2) by (simp add: lock_inv_def)
  moreover have "n = ls_shared ?s" "\<not> ls_excl ?s" "ls_panicked ?s = ls_panicked s" using Suc.hyps(2) Suc.prems(2) by simp_all
  ultimately obtain s' where
    "lock_step\<^sup>*\<^sup>* ?s s'" "lock_inv s'" "ls_shared s' = 0" "\<not> ls_excl s'" "ls_panicked s' = ls_panicked s"
    using Suc.hyps(1)[of ?s] by metis
  then show ?case using st by (meson converse_rtranclp_into_rtranclp)
qed auto

text \<open>C26: From every state that the threads can get into without a failed assertion they can get on to one
  in which the lock is free and can be taken.\<close>

theorem lock_can_be_released:
  assumes "lock_reachable s" and "\<not> ls_panicked s"
  shows "\<exists>s'. lock_step\<^sup>*\<^sup>* s s' \<and> lock_state (ls_cell s') = Unlocked \<and> snd (lock_exclusive (ls_cell s')) \<and> \<not> ls_panicked s'"
proof -
  have inv: "lock_inv s" using lock_inv_reachable[OF assms] .
  have "\<exists>s1. lock_step\<^sup>*\<^sup>* s s1 \<and> lock_inv s1 \<and> \<not> ls_excl s1 \<and> \<not> ls_panicked s1"
  proof (cases "ls_excl s")
    case True
    let ?s = "s\<lparr>ls_cell := 1, ls_shared := unat (1 :: u32), ls_excl := False\<rparr>"
    have "lock_exclusive_to_shared False 1 (ls_cell s) = Ok 1" by (simp add: lock_exclusive_to_shared_def lock_swap_def)
    then have "lock_step s ?s" using lock_step.downgrade[OF True, of 1 False 1] by simp
    then show ?thesis using lock_inv_step[of s ?s] inv assms(2) by (intro exI[of _ ?s]) auto
  next
    case False
    then show ?thesis using inv assms(2) by blast
  qed
  then obtain s1 where s1: "lock_step\<^sup>*\<^sup>* s s1" "lock_inv s1" "\<not> ls_excl s1" "\<not> ls_panicked s1" by blast
  obtain s2 where s2: "lock_step\<^sup>*\<^sup>* s1 s2" "lock_inv s2" "ls_shared s2 = 0" "\<not> ls_excl s2" "ls_panicked s2 = ls_panicked s1"
    using unlock_all[OF s1(2,3)] by blast
  have "ls_cell s2 = 0" using s2(2-4) by (simp add: lock_inv_def unat_eq_0)
  then show ?thesis using s1 s2 lock_inv_state[OF s2(2)] by (intro exI[of _ s2]) (auto simp: lock_exclusive_def lock_exclusive0_def lock_cas_def)
qed

theorem lock_can_be_released_witness:
  "\<exists>s'. lock_step\<^sup>*\<^sup>* lock_start s' \<and> lock_state (ls_cell s') = Unlocked \<and> snd (lock_exclusive (ls_cell s')) \<and> \<not> ls_panicked s'"
  using lock_can_be_released[of lock_start] by (simp add: lock_reachable_def lock_start_def)

subsection \<open>Failed attempts\<close>

text \<open>Readers that try an exclusively held lock, in any interleaving with their resets.\<close>

inductive lock_attempts :: "nat \<Rightarrow> LockSys \<Rightarrow> bool" where
  none: "lock_attempts 0 lock_start"
| attempt: "lock_attempts n s \<Longrightarrow> lock_attempts (Suc n) (take_shared s)"
| undo: "lock_attempts n s \<Longrightarrow> ls_resets s = xs @ st # ys \<Longrightarrow>
    lock_attempts n (s\<lparr>ls_cell := lock_shared_reset st (ls_cell s), ls_resets := xs @ ys\<rparr>)"

lemma attempts_count:
  "lock_attempts n s \<Longrightarrow> n < 2 ^ 63 \<Longrightarrow> unat (ls_cell s) = 2 ^ 63 + n \<and> (\<forall>st \<in> set (ls_resets s). unat st < 2 ^ 63 + n) \<and>
    \<not> ls_panicked s"
proof (induction rule: lock_attempts.induct)
  case none
  then show ?case by (simp add: lock_start_def lock_new_exclusive_def)
next
  case (attempt n s)
  then have c: "unat (ls_cell s) = 2 ^ 63 + n" "n < 2 ^ 63 - 1" by simp_all
  then have "unat (ls_cell s + 1) = 2 ^ 63 + Suc n" by (simp add: unat_word_ariths)
  moreover have "\<not> ls_cell s \<le> MAX_SHARED" "ls_cell s < MAX_EXCLUSIVE"
    using c by (simp_all add: word_le_nat_alt word_less_nat_alt)
  ultimately show ?case using attempt c(1)
    by (auto simp: take_shared_def lock_inc_def lock_shared_try_def less_Suc_eq)
next
  case (undo n s xs st ys)
  then have "st \<noteq> ls_cell s" by auto
  then show ?case using undo by (auto simp: lock_shared_reset_def lock_cas_def)
qed

text \<open>C27: The reset of the word of an exclusively held lock never happens: after any number of attempts of
  readers, in any order with their resets, the word counts all of them, and the attempt that finds the
  largest word panics.\<close>

theorem lock_never_reset:
  assumes "lock_attempts n s" and "n < 2 ^ 63"
  shows "unat (ls_cell s) = unat MIN_EXCLUSIVE + n \<and> (ls_panicked (take_shared s) \<longleftrightarrow> n = 2 ^ 63 - 1)"
proof -
  have c: "unat (ls_cell s) = 2 ^ 63 + n" "\<not> ls_panicked s" using attempts_count[OF assms] by simp_all
  have "\<not> ls_cell s \<le> MAX_SHARED" using c by (simp add: word_le_nat_alt)
  moreover have "ls_cell s < MAX_EXCLUSIVE \<longleftrightarrow> n \<noteq> 2 ^ 63 - 1" using c(1) assms(2) by (simp add: word_less_nat_alt) linarith
  ultimately have "ls_panicked (take_shared s) \<longleftrightarrow> n = 2 ^ 63 - 1"
    using c(2) by (auto simp: take_shared_def lock_inc_def lock_shared_try_def)
  then show ?thesis using c(1) by simp
qed

theorem lock_never_reset_witness: "unat (ls_cell (take_shared lock_start)) = 2 ^ 63 + 1"
  using lock_never_reset[OF lock_attempts.attempt[OF lock_attempts.none]] by simp

theorem lock_mutual_exclusion_witness:
  "lock_reachable (take_shared lock_start) \<and> lock_state (ls_cell (take_shared lock_start)) = Exclusive"
proof -
  have r: "lock_reachable (take_shared lock_start)" "\<not> ls_panicked (take_shared lock_start)"
    using lock_step.try_shared[of lock_start]
    by (auto simp: lock_reachable_def take_shared_def lock_start_def lock_inc_def lock_shared_try_def lock_new_exclusive_def)
  then show ?thesis using lock_mutual_exclusion[OF r]
    by (simp add: take_shared_def lock_start_def lock_inc_def lock_shared_try_def lock_new_exclusive_def)
qed

end
