(* ===== verification/LruCache.thy ===== *)
theory LruCache
  imports Prelude
begin

text \<open>
  The cache of \<^verbatim>\<open>src/tskv/src/lru_cache.rs\<close>: a doubly linked list of keys with raw handles, and a map from
  keys to values and handles.  Nodes live at addresses of a heap; the head of the list has the
  address 0 and does not move.  Addresses are never reused, and a dereference of a freed node,
  undefined behaviour of the code, is an error of the model.  The list refines sequences of keys
  for every operation but the removal of the last node, and the cache refines an abstract cache in
  order of use as long as no key is inserted twice.
\<close>

subsection \<open>The list\<close>

record 'a LRUNode =
  n_next :: "nat option"
  n_prev :: "nat option"
  n_data :: "'a option"

record 'a LRUList =
  l_heap :: "nat \<Rightarrow> 'a LRUNode option"
  l_fresh :: nat
  l_count :: nat

definition deref :: "'a LRUList \<Rightarrow> nat \<Rightarrow> (string, 'a LRUNode) result" where
  "deref l a = ok_or ''dangling pointer'' (l_heap l a)"

definition assign :: "'a LRUList \<Rightarrow> nat \<Rightarrow> ('a LRUNode \<Rightarrow> 'a LRUNode) \<Rightarrow> (string, 'a LRUList) result" where
  "assign l a f = rbind (deref l a) (\<lambda>n. Ok (l\<lparr>l_heap := (l_heap l)(a \<mapsto> f n)\<rparr>))"

definition unwrap_ptr :: "nat option \<Rightarrow> (string, nat) result" where
  "unwrap_ptr p = (case p of Some a \<Rightarrow> Ok a | None \<Rightarrow> Panic)"

definition drop_node :: "'a LRUList \<Rightarrow> nat \<Rightarrow> 'a LRUList" where
  "drop_node l a = l\<lparr>l_heap := (l_heap l)(a := None)\<rparr>"

definition list_new :: "'a LRUList" where
  "list_new = \<lparr>l_heap = [0 \<mapsto> \<lparr>n_next = None, n_prev = None, n_data = None\<rparr>], l_fresh = 1, l_count = 0\<rparr>"

text \<open>Allocation of a box.\<close>

definition new_node :: "'a LRUList \<Rightarrow> 'a LRUNode \<Rightarrow> 'a LRUList \<times> nat" where
  "new_node l n = (l\<lparr>l_heap := (l_heap l)(l_fresh l \<mapsto> n), l_fresh := l_fresh l + 1\<rparr>, l_fresh l)"

definition list_insert :: "'a LRUList \<Rightarrow> 'a \<Rightarrow> (string, 'a LRUList \<times> nat) result" where
  "list_insert l elem =
     (let l = l\<lparr>l_count := l_count l + 1\<rparr> in
      rbind (deref l 0) (\<lambda>head.
        case n_next head of
          Some first \<Rightarrow>
            let (l, newp) = new_node l \<lparr>n_next = None, n_prev = Some 0, n_data = Some elem\<rparr> in
            rbind (assign l first (\<lambda>n. n\<lparr>n_prev := Some newp\<rparr>)) (\<lambda>l.
            rbind (deref l 0) (\<lambda>head.
            rbind (assign l 0 (\<lambda>n. n\<lparr>n_next := None\<rparr>)) (\<lambda>l.
            rbind (assign l newp (\<lambda>n. n\<lparr>n_next := n_next head\<rparr>)) (\<lambda>l.
            rbind (assign l 0 (\<lambda>n. n\<lparr>n_next := Some newp\<rparr>)) (\<lambda>l. Ok (l, newp))))))
        | None \<Rightarrow>
            let (l, newp) = new_node l \<lparr>n_next = None, n_prev = Some 0, n_data = Some elem\<rparr> in
            rbind (assign l 0 (\<lambda>n. n\<lparr>n_prev := Some newp\<rparr>)) (\<lambda>l.
            rbind (assign l 0 (\<lambda>n. n\<lparr>n_next := Some newp\<rparr>)) (\<lambda>l. Ok (l, newp)))))"

definition list_remove_last :: "'a LRUList \<Rightarrow> (string, 'a LRUList \<times> 'a option) result" where
  "list_remove_last l =
     (if l_count l = 0 then Ok (l, None)
      else
        rbind (deref l 0) (\<lambda>head. rbind (unwrap_ptr (n_prev head)) (\<lambda>tail.
        rbind (deref l tail) (\<lambda>n. rbind (unwrap_ptr (n_prev n)) (\<lambda>prev.
        rbind (deref l prev) (\<lambda>pn. rbind (assign l prev (\<lambda>n. n\<lparr>n_next := None\<rparr>)) (\<lambda>l.
        rbind (unwrap_ptr (n_next pn)) (\<lambda>last.
        rbind (deref l last) (\<lambda>ln.
          if n_prev ln = None then Panic
          else rbind (assign l 0 (\<lambda>n. n\<lparr>n_prev := n_prev ln\<rparr>)) (\<lambda>l.
            Ok (drop_node (l\<lparr>l_count := l_count l - 1\<rparr>) last, n_data ln)))))))))))"

definition list_remove :: "'a LRUList \<Rightarrow> nat \<Rightarrow> (string, 'a LRUList \<times> 'a) result" where
  "list_remove l node_handle =
     rbind (deref l node_handle) (\<lambda>n.
     rbind (assign l node_handle (\<lambda>n. n\<lparr>n_data := None\<rparr>)) (\<lambda>l.
       case n_data n of
         None \<Rightarrow> Panic
       | Some d \<Rightarrow>
           rbind (unwrap_ptr (n_prev n)) (\<lambda>pp.
           rbind (deref l pp) (\<lambda>pn.
           rbind (assign l pp (\<lambda>n. n\<lparr>n_next := None\<rparr>)) (\<lambda>l.
           rbind (unwrap_ptr (n_next pn)) (\<lambda>current.
           rbind (deref l current) (\<lambda>cn.
           rbind (unwrap_ptr (n_prev cn)) (\<lambda>prev.
           rbind (case n_next cn of
                    Some nx \<Rightarrow> rbind (assign l nx (\<lambda>n. n\<lparr>n_prev := n_prev cn\<rparr>)) (\<lambda>l. assign l current (\<lambda>n. n\<lparr>n_prev := None\<rparr>))
                  | None \<Rightarrow> Ok l) (\<lambda>l.
           rbind (assign l prev (\<lambda>n. n\<lparr>n_next := n_next cn\<rparr>)) (\<lambda>l.
             Ok (drop_node (l\<lparr>l_count := l_count l - 1\<rparr>) current, d)))))))))))"

definition list_reinsert_front :: "'a LRUList \<Rightarrow> nat \<Rightarrow> (string, 'a LRUList) result" where
  "list_reinsert_front l node_handle =
     rbind (deref l node_handle) (\<lambda>n. rbind (unwrap_ptr (n_prev n)) (\<lambda>prevp.
     rbind (case n_next n of
              Some nx \<Rightarrow> assign l nx (\<lambda>n. n\<lparr>n_prev := Some prevp\<rparr>)
            | None \<Rightarrow> assign l 0 (\<lambda>n. n\<lparr>n_prev := Some prevp\<rparr>)) (\<lambda>l.
     rbind (deref l prevp) (\<lambda>pn. rbind (deref l node_handle) (\<lambda>n.
     rbind (assign l prevp (\<lambda>m. m\<lparr>n_next := n_next n\<rparr>)) (\<lambda>l.
     rbind (assign l node_handle (\<lambda>m. m\<lparr>n_next := n_next pn\<rparr>)) (\<lambda>l.
     rbind (deref l node_handle) (\<lambda>n. rbind (deref l 0) (\<lambda>head.
     rbind (assign l node_handle (\<lambda>m. m\<lparr>n_next := n_next head\<rparr>)) (\<lambda>l.
     rbind (assign l 0 (\<lambda>m. m\<lparr>n_next := n_next n\<rparr>)) (\<lambda>l.
     rbind (deref l node_handle) (\<lambda>n.
     rbind (case n_next n of
              Some newnext \<Rightarrow>
                rbind (deref l newnext) (\<lambda>nn.
                rbind (assign l node_handle (\<lambda>m. m\<lparr>n_prev := n_prev nn\<rparr>)) (\<lambda>l.
                  assign l newnext (\<lambda>m. m\<lparr>n_prev := Some node_handle\<rparr>)))
            | None \<Rightarrow> assign l 0 (\<lambda>m. m\<lparr>n_prev := Some node_handle\<rparr>)) (\<lambda>l.
     rbind (deref l 0) (\<lambda>head.
       if n_next head = None \<or> n_prev head = None then Panic else Ok l))))))))))))))"

subsection \<open>The cache\<close>

type_synonym CacheKey = bytes

record 'v Cache =
  c_list :: "CacheKey LRUList"
  c_map :: "CacheKey \<Rightarrow> ('v \<times> nat) option"
  c_cap :: nat
  c_id :: u64

definition cache_new :: "nat \<Rightarrow> (string, 'v Cache) result" where
  "cache_new capacity =
     (if capacity > 0 then Ok \<lparr>c_list = list_new, c_map = Map.empty, c_cap = capacity, c_id = 0\<rparr> else Panic)"

definition cache_new_id :: "bool \<Rightarrow> 'v Cache \<Rightarrow> (string, 'v Cache \<times> u64) result" where
  "cache_new_id oc c = rbind (add_u64 oc (c_id c) 1) (\<lambda>i. Ok (c\<lparr>c_id := i\<rparr>, i))"

definition cache_count :: "'v Cache \<Rightarrow> nat" where
  "cache_count c = l_count (c_list c)"

definition cache_insert :: "'v Cache \<Rightarrow> CacheKey \<Rightarrow> 'v \<Rightarrow> (string, 'v Cache) result" where
  "cache_insert c key elem =
     rbind (if l_count (c_list c) \<ge> c_cap c then
              rbind (list_remove_last (c_list c)) (\<lambda>(l, r).
                case r of
                  Some removed_key \<Rightarrow>
                    if c_map c removed_key = None then Panic
                    else Ok (c\<lparr>c_list := l, c_map := (c_map c)(removed_key := None)\<rparr>)
                | None \<Rightarrow> Panic)
            else Ok c) (\<lambda>c.
     rbind (list_insert (c_list c) key) (\<lambda>(l, lru_handle).
       Ok (c\<lparr>c_list := l, c_map := (c_map c)(key \<mapsto> (elem, lru_handle))\<rparr>)))"

definition cache_get :: "'v Cache \<Rightarrow> CacheKey \<Rightarrow> (string, 'v Cache \<times> 'v option) result" where
  "cache_get c key =
     (case c_map c key of
        None \<Rightarrow> Ok (c, None)
      | Some (elem, lru_handle) \<Rightarrow>
          rbind (list_reinsert_front (c_list c) lru_handle) (\<lambda>l. Ok (c\<lparr>c_list := l\<rparr>, Some elem)))"

definition cache_remove :: "'v Cache \<Rightarrow> CacheKey \<Rightarrow> (string, 'v Cache \<times> 'v option) result" where
  "cache_remove c key =
     (case c_map c key of
        None \<Rightarrow> Ok (c, None)
      | Some (elem, lru_handle) \<Rightarrow>
          let c = c\<lparr>c_map := (c_map c)(key := None)\<rparr> in
          rbind (list_remove (c_list c) lru_handle) (\<lambda>(l, _). Ok (c\<lparr>c_list := l\<rparr>, Some elem)))"

subsection \<open>The list as a sequence\<close>

text \<open>The first address of a sequence of nodes, or what comes after it; the last one, or what is before it.\<close>

fun firstp :: "(nat \<times> 'a) list \<Rightarrow> nat option \<Rightarrow> nat option" where
  "firstp [] q = q"
| "firstp ((a, x) # xs) q = Some a"

definition endp :: "nat \<Rightarrow> (nat \<times> 'a) list \<Rightarrow> nat" where
  "endp p xs = (if xs = [] then p else fst (last xs))"

text \<open>The nodes form a chain between \<^verbatim>\<open>p\<close> and \<^verbatim>\<open>q\<close>, linked both ways, with the data of the sequence.\<close>

fun chain :: "(nat \<Rightarrow> 'a LRUNode option) \<Rightarrow> nat \<Rightarrow> (nat \<times> 'a) list \<Rightarrow> nat option \<Rightarrow> bool" where
  "chain h p [] q \<longleftrightarrow> True"
| "chain h p ((a, x) # xs) q \<longleftrightarrow>
     h a = Some \<lparr>n_next = firstp xs q, n_prev = Some p, n_data = Some x\<rparr> \<and> chain h a xs q"

lemma endp_simps [simp]: "endp p [] = p" "endp p ((a, x) # xs) = endp a xs" "endp p (xs @ ys) = endp (endp p xs) ys"
  by (auto simp: endp_def)

lemma firstp_append [simp]: "firstp (xs @ ys) q = firstp xs (firstp ys q)"
  by (cases xs) auto

lemma chain_append [simp]: "chain h p (xs @ ys) q \<longleftrightarrow> chain h p xs (firstp ys q) \<and> chain h (endp p xs) ys q"
  by (induction xs arbitrary: p) auto

lemma chain_upd [simp]: "a \<notin> fst ` set xs \<Longrightarrow> chain (h(a := v)) p xs q = chain h p xs q"
  by (induction xs arbitrary: p) auto

definition list_abs :: "'a LRUList \<Rightarrow> (nat \<times> 'a) list \<Rightarrow> bool" where
  "list_abs l xs \<longleftrightarrow> chain (l_heap l) 0 xs None \<and> distinct (map fst xs) \<and> 0 \<notin> fst ` set xs \<and>
     (\<forall>a \<in> fst ` set xs. a < l_fresh l) \<and> 0 < l_fresh l \<and> l_count l = length xs \<and>
     (\<exists>hp. l_heap l 0 = Some \<lparr>n_next = firstp xs None, n_prev = hp, n_data = None\<rparr> \<and>
       (xs \<noteq> [] \<longrightarrow> hp = Some (endp 0 xs)))"

lemmas list_op_defs = deref_def assign_def unwrap_ptr_def drop_node_def new_node_def

lemma list_new_abs: "list_abs list_new []"
  by (simp add: list_abs_def list_new_def)

lemma list_insert_abs:
  assumes "list_abs l xs"
  shows "\<exists>l' a. list_insert l x = Ok (l', a) \<and> list_abs l' ((a, x) # xs)"
proof (cases xs)
  case Nil
  then show ?thesis using assms by (auto simp: list_abs_def list_insert_def list_op_defs)
next
  case (Cons p ys)
  obtain b y where p: "p = (b, y)" by (cases p)
  have "l_fresh l \<noteq> b" "l_fresh l \<notin> fst ` set ys" "l_fresh l \<noteq> 0" "b \<notin> fst ` set ys" "b \<noteq> 0" "0 \<notin> fst ` set ys"
    using assms Cons p by (auto simp: list_abs_def)
  then show ?thesis using assms Cons p
    by (auto simp: list_abs_def list_insert_def list_op_defs)
qed

lemma list_remove_last_abs:
  assumes "list_abs l (xs @ [(a, x)])"
  shows "\<exists>l'. list_remove_last l = Ok (l', Some x) \<and> list_abs l' xs"
proof (cases xs rule: rev_cases)
  case Nil
  then show ?thesis using assms by (auto simp: list_abs_def list_remove_last_def list_op_defs)
next
  case (snoc ys p)
  obtain b y where p: "p = (b, y)" by (cases p)
  have ne: "a \<noteq> b" "a \<notin> fst ` set ys" "b \<notin> fst ` set ys" "a \<noteq> 0" "b \<noteq> 0" "0 \<notin> fst ` set ys"
    using assms snoc p by (auto simp: list_abs_def)
  then show ?thesis using assms snoc p
    by (auto simp: list_abs_def list_remove_last_def list_op_defs)
qed

lemma list_remove_last_empty: "list_abs l [] \<Longrightarrow> list_remove_last l = Ok (l, None)"
  by (simp add: list_abs_def list_remove_last_def)

text \<open>Removal of a node that is not the last one.\<close>

lemma list_remove_abs:
  assumes "list_abs l (xs @ (a, x) # (b, y) # ys)"
  shows "\<exists>l'. list_remove l a = Ok (l', x) \<and> list_abs l' (xs @ (b, y) # ys)"
proof (cases xs rule: rev_cases)
  case Nil
  then have "a \<noteq> b" "a \<notin> fst ` set ys" "b \<notin> fst ` set ys" "a \<noteq> 0" "b \<noteq> 0" "0 \<notin> fst ` set ys"
    using assms by (auto simp: list_abs_def)
  then show ?thesis using assms Nil by (auto simp: list_abs_def list_remove_def list_op_defs)
next
  case (snoc zs p)
  obtain c z where p: "p = (c, z)" by (cases p)
  have "a \<noteq> b" "a \<notin> fst ` set ys" "b \<notin> fst ` set ys" "a \<noteq> 0" "b \<noteq> 0" "0 \<notin> fst ` set ys" "c \<noteq> a" "c \<noteq> b" "c \<noteq> 0"
    "c \<notin> fst ` set ys" "c \<notin> fst ` set zs" "a \<notin> fst ` set zs" "b \<notin> fst ` set zs" "0 \<notin> fst ` set zs"
    using assms snoc p by (auto simp: list_abs_def)
  then show ?thesis using assms snoc p by (auto simp: list_abs_def list_remove_def list_op_defs)
qed

lemma list_reinsert_front_abs:
  assumes "list_abs l (us @ (a, x) # vs)"
  shows "\<exists>l'. list_reinsert_front l a = Ok l' \<and> list_abs l' ((a, x) # us @ vs)"
proof -
  have ne: "a \<noteq> 0" "a \<notin> fst ` set us" "a \<notin> fst ` set vs" "0 \<notin> fst ` set us" "0 \<notin> fst ` set vs" "distinct (map fst us)" "distinct (map fst vs)"
    "fst ` set us \<inter> fst ` set vs = {}"
    using assms by (auto simp: list_abs_def)
  consider (first) "us = []" | (second) p y where "us = [(p, y)]" | (later) f z us' p y where "us = (f, z) # us' @ [(p, y)]"
    by (metis rev_cases surj_pair list.exhaust)
  then show ?thesis
  proof cases
    case first
    then show ?thesis using assms ne
      by (cases vs) (auto simp: list_abs_def list_reinsert_front_def list_op_defs)
  next
    case second
    then show ?thesis using assms ne
      by (cases vs) (auto simp: list_abs_def list_reinsert_front_def list_op_defs)
  next
    case later
    then show ?thesis using assms ne
      by (cases vs) (auto simp: list_abs_def list_reinsert_front_def list_op_defs)
  qed
qed

subsection \<open>The cache in order of use\<close>

text \<open>The abstract cache: keys and values, the most recently used first.\<close>

definition spec_get :: "CacheKey \<Rightarrow> (CacheKey \<times> 'v) list \<Rightarrow> (CacheKey \<times> 'v) list \<times> 'v option" where
  "spec_get k es = (case map_of es k of None \<Rightarrow> (es, None) | Some v \<Rightarrow> ((k, v) # filter (\<lambda>e. fst e \<noteq> k) es, Some v))"

definition spec_insert :: "nat \<Rightarrow> CacheKey \<Rightarrow> 'v \<Rightarrow> (CacheKey \<times> 'v) list \<Rightarrow> (CacheKey \<times> 'v) list" where
  "spec_insert cap k v es = (k, v) # (if cap \<le> length es then butlast es else es)"

text \<open>The cache holds the entries \<^verbatim>\<open>es\<close>; \<^verbatim>\<open>as\<close> are the addresses of their nodes.\<close>

definition cache_rel :: "'v Cache \<Rightarrow> (CacheKey \<times> 'v) list \<Rightarrow> bool" where
  "cache_rel c es \<longleftrightarrow> (\<exists>as. length as = length es \<and> list_abs (c_list c) (zip as (map fst es)) \<and> distinct (map fst es) \<and>
     (\<forall>i < length es. c_map c (fst (es ! i)) = Some (snd (es ! i), as ! i)) \<and>
     (\<forall>k. k \<notin> fst ` set es \<longrightarrow> c_map c k = None) \<and> length es \<le> c_cap c \<and> 0 < c_cap c)"

lemma cache_new_rel: "0 < cap \<Longrightarrow> \<exists>c. cache_new cap = Ok c \<and> cache_rel c [] \<and> c_cap c = cap"
  by (simp add: cache_new_def cache_rel_def list_new_abs)

lemma cache_rel_absent: "cache_rel c es \<Longrightarrow> k \<notin> fst ` set es \<Longrightarrow> c_map c k = None"
  by (auto simp: cache_rel_def)

lemma cache_get_rel:
  assumes "cache_rel c es"
  shows "\<exists>c'. cache_get c k = Ok (c', snd (spec_get k es)) \<and> cache_rel c' (fst (spec_get k es)) \<and> c_cap c' = c_cap c"
proof (cases "k \<in> fst ` set es")
  case False
  then have "map_of es k = None" by (simp add: map_of_eq_None_iff)
  then show ?thesis using assms cache_rel_absent[OF assms False] by (simp add: cache_get_def spec_get_def)
next
  case True
  obtain as where as: "length as = length es" "list_abs (c_list c) (zip as (map fst es))" "distinct (map fst es)"
    "\<forall>i < length es. c_map c (fst (es ! i)) = Some (snd (es ! i), as ! i)" "\<forall>k. k \<notin> fst ` set es \<longrightarrow> c_map c k = None"
    "length es \<le> c_cap c" "0 < c_cap c" using assms by (auto simp: cache_rel_def)
  obtain i where i: "i < length es" "fst (es ! i) = k" using True by (auto simp: in_set_conv_nth)
  define v a where "v = snd (es ! i)" and "a = as ! i"
  define us vs where "us = take i es" and "vs = drop (Suc i) es"
  have ei: "es ! i = (k, v)" using i(2) v_def by (metis prod.collapse)
  have es: "es = us @ (k, v) # vs" using id_take_nth_drop[OF i(1)] ei by (simp add: us_def vs_def)
  have asd: "as = take i as @ a # drop (Suc i) as" using id_take_nth_drop[of i as] i(1) as(1) by (simp add: a_def)
  have li: "length (take i as) = length us" "length (drop (Suc i) as) = length vs" using as(1) i(1) by (simp_all add: us_def vs_def)
  have k: "k \<notin> fst ` set us" "k \<notin> fst ` set vs" using as(3) es by auto
  have "zip as (map fst es) = zip (take i as) (map fst us) @ (a, k) # zip (drop (Suc i) as) (map fst vs)"
    by (subst asd, subst es) (use li in simp)
  then obtain l' where l': "list_reinsert_front (c_list c) a = Ok l'"
    "list_abs l' ((a, k) # zip (take i as) (map fst us) @ zip (drop (Suc i) as) (map fst vs))"
    using list_reinsert_front_abs[of "c_list c"] as(2) by metis
  have "filter (\<lambda>e. fst e \<noteq> k) us = us" "filter (\<lambda>e. fst e \<noteq> k) vs = vs" using k by (auto simp: filter_id_conv image_iff)
  moreover have map_of_k: "map_of es k = Some v" using as(3) by (rule map_of_is_SomeI) (simp add: es)
  ultimately have sp: "spec_get k es = ((k, v) # us @ vs, Some v)"
    unfolding spec_get_def map_of_k by (simp add: es)
  have "cache_get c k = Ok (c\<lparr>c_list := l'\<rparr>, Some v)"
    using as(4)[rule_format, OF i(1)] l'(1) i(2) by (simp add: cache_get_def v_def a_def)
  moreover have "cache_rel (c\<lparr>c_list := l'\<rparr>) ((k, v) # us @ vs)"
    unfolding cache_rel_def
  proof (intro exI[of _ "a # take i as @ drop (Suc i) as"] conjI allI impI)
    show "list_abs (c_list (c\<lparr>c_list := l'\<rparr>)) (zip (a # take i as @ drop (Suc i) as) (map fst ((k, v) # us @ vs)))"
      using l'(2) li by simp
    fix j assume j: "j < length ((k, v) # us @ vs)"
    show "c_map (c\<lparr>c_list := l'\<rparr>) (fst (((k, v) # us @ vs) ! j)) = Some (snd (((k, v) # us @ vs) ! j), (a # take i as @ drop (Suc i) as) ! j)"
    proof (cases j)
      case 0
      then show ?thesis using as(4)[rule_format, OF i(1)] i(2) by (simp add: v_def a_def)
    next
      case (Suc m)
      define n where "n = (if m < i then m else Suc m)"
      have "n < length es" "(us @ vs) ! m = es ! n" "(take i as @ drop (Suc i) as) ! m = as ! n"
        using j Suc i(1) as(1) by (auto simp: n_def us_def vs_def nth_append)
      then show ?thesis using as(4) Suc by simp
    qed
  next
    fix k' assume "k' \<notin> fst ` set ((k, v) # us @ vs)"
    then show "c_map (c\<lparr>c_list := l'\<rparr>) k' = None" using as(5) es by auto
  qed (use as es li in auto)
  ultimately show ?thesis using sp by simp
qed

lemma list_insert_fresh:
  assumes "list_abs l (zip as ks)" "length as = length ks"
  shows "\<exists>l' a. list_insert l k = Ok (l', a) \<and> list_abs l' (zip (a # as) (k # ks))"
  using list_insert_abs[OF assms(1), of k] by simp

lemma cache_rel_push:
  assumes "cache_rel c es" "k \<notin> fst ` set es" "length es < c_cap c"
  shows "\<exists>l' a. list_insert (c_list c) k = Ok (l', a) \<and> cache_rel (c\<lparr>c_list := l', c_map := (c_map c)(k \<mapsto> (v, a))\<rparr>) ((k, v) # es)"
proof -
  obtain as where as: "length as = length es" "list_abs (c_list c) (zip as (map fst es))" "distinct (map fst es)"
    "\<forall>i < length es. c_map c (fst (es ! i)) = Some (snd (es ! i), as ! i)" "\<forall>k. k \<notin> fst ` set es \<longrightarrow> c_map c k = None"
    using assms(1) by (auto simp: cache_rel_def)
  obtain l' a where l': "list_insert (c_list c) k = Ok (l', a)" "list_abs l' (zip (a # as) (k # map fst es))"
    using list_insert_fresh[OF as(2), of k] as(1) by auto
  have "fst (es ! i) \<noteq> k" if "i < length es" for i using that assms(2) nth_mem[OF that] by (metis image_eqI)
  then have "cache_rel (c\<lparr>c_list := l', c_map := (c_map c)(k \<mapsto> (v, a))\<rparr>) ((k, v) # es)"
    unfolding cache_rel_def using as l'(2) assms(2,3)
    by (intro exI[of _ "a # as"]) (auto simp: nth_Cons' less_Suc_eq_0_disj)
  then show ?thesis using l'(1) by blast
qed

lemma cache_rel_evict:
  assumes "cache_rel c es" "c_cap c \<le> length es"
  shows "\<exists>l'. list_remove_last (c_list c) = Ok (l', Some (fst (last es))) \<and> c_map c (fst (last es)) \<noteq> None \<and>
    cache_rel (c\<lparr>c_list := l', c_map := (c_map c)(fst (last es) := None)\<rparr>) (butlast es)"
proof -
  obtain as where as: "length as = length es" "list_abs (c_list c) (zip as (map fst es))" "distinct (map fst es)"
    "\<forall>i < length es. c_map c (fst (es ! i)) = Some (snd (es ! i), as ! i)" "\<forall>k. k \<notin> fst ` set es \<longrightarrow> c_map c k = None"
    "length es \<le> c_cap c" "0 < c_cap c" using assms(1) by (auto simp: cache_rel_def)
  have ne: "es \<noteq> []" "as \<noteq> []" using as(1,7) assms(2) by auto
  then obtain es' k v as' a where es: "es = es' @ [(k, v)]" and asd: "as = as' @ [a]" by (metis rev_exhaust surj_pair)
  have len: "length as' = length es'" using as(1) es asd by simp
  have "zip as (map fst es) = zip as' (map fst es') @ [(a, k)]" using es asd len by simp
  then obtain l' where l': "list_remove_last (c_list c) = Ok (l', Some k)" "list_abs l' (zip as' (map fst es'))"
    using list_remove_last_abs[of "c_list c"] as(2) by metis
  have mk: "c_map c k = Some (v, a)" using as(4)[rule_format, of "length es'"] es asd len by (simp add: nth_append)
  have at: "c_map c (fst (es' ! i)) = Some (snd (es' ! i), as' ! i)" "fst (es' ! i) \<noteq> k" if "i < length es'" for i
    using as(4)[rule_format, of i] as(3) that es asd len nth_mem[OF that] by (auto simp: nth_append)
  have "cache_rel (c\<lparr>c_list := l', c_map := (c_map c)(k := None)\<rparr>) es'"
    unfolding cache_rel_def using l'(2) len at as(3,5,6,7) es by (intro exI[of _ as']) auto
  then show ?thesis using l'(1) mk es by simp
qed

lemma cache_insert_rel:
  assumes "cache_rel c es" "k \<notin> fst ` set es"
  shows "\<exists>c'. cache_insert c k v = Ok c' \<and> cache_rel c' (spec_insert (c_cap c) k v es) \<and> c_cap c' = c_cap c"
proof (cases "c_cap c \<le> length es")
  case True
  have cnt: "l_count (c_list c) = length es" using assms(1) by (auto simp: cache_rel_def list_abs_def)
  obtain l1 where l1: "list_remove_last (c_list c) = Ok (l1, Some (fst (last es)))" "c_map c (fst (last es)) \<noteq> None"
    "cache_rel (c\<lparr>c_list := l1, c_map := (c_map c)(fst (last es) := None)\<rparr>) (butlast es)"
    using cache_rel_evict[OF assms(1) True] by blast
  let ?c = "c\<lparr>c_list := l1, c_map := (c_map c)(fst (last es) := None)\<rparr>"
  have "k \<notin> fst ` set (butlast es)" using assms(2) by (auto dest: in_set_butlastD)
  moreover have "length (butlast es) < c_cap ?c" using l1(3) assms(1) by (auto simp: cache_rel_def)
  ultimately obtain l' a where "list_insert l1 k = Ok (l', a)"
    "cache_rel (?c\<lparr>c_list := l', c_map := (c_map ?c)(k \<mapsto> (v, a))\<rparr>) ((k, v) # butlast es)"
    using cache_rel_push[OF l1(3), of k v] by auto
  then show ?thesis using l1(1,2) True cnt by (auto simp: cache_insert_def spec_insert_def)
next
  case False
  have cnt: "l_count (c_list c) = length es" using assms(1) by (auto simp: cache_rel_def list_abs_def)
  then show ?thesis using cache_rel_push[OF assms, of v] False by (auto simp: cache_insert_def spec_insert_def)
qed

text \<open>Runs of lookups and insertions, in the cache and in the abstract one.\<close>

datatype 'v CacheOp = Get CacheKey | Put CacheKey 'v

fun cache_run :: "'v Cache \<Rightarrow> 'v CacheOp list \<Rightarrow> (string, 'v Cache \<times> 'v option list) result" where
  "cache_run c [] = Ok (c, [])"
| "cache_run c (Get k # ops) = rbind (cache_get c k) (\<lambda>(c, r). rmap (\<lambda>(c, rs). (c, r # rs)) (cache_run c ops))"
| "cache_run c (Put k v # ops) = rbind (cache_insert c k v) (\<lambda>c. cache_run c ops)"

fun spec_run :: "nat \<Rightarrow> (CacheKey \<times> 'v) list \<Rightarrow> 'v CacheOp list \<Rightarrow> (CacheKey \<times> 'v) list \<times> 'v option list" where
  "spec_run cap es [] = (es, [])"
| "spec_run cap es (Get k # ops) =
     (let (es, r) = spec_get k es; (es, rs) = spec_run cap es ops in (es, r # rs))"
| "spec_run cap es (Put k v # ops) = spec_run cap (spec_insert cap k v es) ops"

fun fresh_puts :: "nat \<Rightarrow> (CacheKey \<times> 'v) list \<Rightarrow> 'v CacheOp list \<Rightarrow> bool" where
  "fresh_puts cap es [] \<longleftrightarrow> True"
| "fresh_puts cap es (Get k # ops) \<longleftrightarrow> fresh_puts cap (fst (spec_get k es)) ops"
| "fresh_puts cap es (Put k v # ops) \<longleftrightarrow> k \<notin> fst ` set es \<and> fresh_puts cap (spec_insert cap k v es) ops"

lemma cache_run_rel:
  "cache_rel c es \<Longrightarrow> fresh_puts (c_cap c) es ops \<Longrightarrow>
    \<exists>c'. cache_run c ops = Ok (c', snd (spec_run (c_cap c) es ops)) \<and> cache_rel c' (fst (spec_run (c_cap c) es ops)) \<and>
      c_cap c' = c_cap c"
proof (induction ops arbitrary: c es)
  case (Cons op ops)
  show ?case
  proof (cases op)
    case (Get k)
    obtain c1 where "cache_get c k = Ok (c1, snd (spec_get k es))" "cache_rel c1 (fst (spec_get k es))" "c_cap c1 = c_cap c"
      using cache_get_rel[OF Cons.prems(1), of k] by blast
    then show ?thesis using Cons.IH[of c1 "fst (spec_get k es)"] Cons.prems(2) Get by (auto simp: Let_def split: prod.splits)
  next
    case (Put k v)
    obtain c1 where "cache_insert c k v = Ok c1" "cache_rel c1 (spec_insert (c_cap c) k v es)" "c_cap c1 = c_cap c"
      using cache_insert_rel[OF Cons.prems(1), of k v] Cons.prems(2) Put by auto
    then show ?thesis using Cons.IH[of c1 "spec_insert (c_cap c) k v es"] Cons.prems(2) Put by auto
  qed
qed auto

text \<open>C28: A cache answers every sequence of lookups and insertions of absent keys like the abstract cache that
  keeps its entries in order of use and drops the least recently used one; it never panics or follows
  a dangling pointer, and never holds more entries than its capacity.\<close>

theorem cache_refines_lru:
  fixes ops :: "'a CacheOp list"
  assumes "0 < cap" and "fresh_puts cap [] ops"
  shows "\<exists>c c'. cache_new cap = Ok c \<and> cache_run c ops = Ok (c', snd (spec_run cap [] ops)) \<and>
    cache_count c' = length (fst (spec_run cap [] ops)) \<and> cache_count c' \<le> cap"
proof -
  obtain c :: "'a Cache" where c: "cache_new cap = Ok c" "cache_rel c []" "c_cap c = cap" using cache_new_rel[OF assms(1)] by blast
  obtain c' where c': "cache_run c ops = Ok (c', snd (spec_run cap [] ops))" "cache_rel c' (fst (spec_run cap [] ops))" "c_cap c' = cap"
    using cache_run_rel[OF c(2)] c(3) assms(2) by metis
  then show ?thesis using c(1) by (intro exI[of _ c] exI[of _ c']) (auto simp: cache_rel_def list_abs_def cache_count_def)
qed

theorem cache_refines_lru_witness:
  "\<exists>c c'. cache_new 2 = Ok c \<and>
    cache_run c [Put [1] (10 :: nat), Put [2] 20, Get [1], Put [3] 30, Get [2], Get [1]] = Ok (c', [Some 10, None, Some 10])"
  using cache_refines_lru[of 2 "[Put [1] (10 :: nat), Put [2] 20, Get [1], Put [3] 30, Get [2], Get [1]]"]
  by (auto simp: spec_get_def spec_insert_def)

text \<open>Inserting a key that is present leaves two nodes for it; when both have been dropped as least
  recently used, the second time makes the insertion panic.\<close>

lemma cache_duplicate_insert_panics:
  "rbind (cache_new 2) (\<lambda>c. cache_run c [Put [1] (10 :: nat), Put [1] 11, Put [2] 20, Put [3] 30]) = Panic"
  by (simp add: cache_new_def list_new_def cache_insert_def list_insert_def list_remove_last_def list_op_defs)

text \<open>C29: Removing the last node of a list with more nodes leaves the head with a pointer to the freed node,
  which the next removal of the last node follows.\<close>

theorem remove_last_node_dangles:
  assumes "list_abs l (xs @ [(b, y), (a, x)])"
  shows "\<exists>l'. list_remove l a = Ok (l', x) \<and> list_remove_last l' = Err ''dangling pointer''"
proof -
  have "a \<noteq> b" "a \<noteq> 0" "b \<noteq> 0" using assms by (auto simp: list_abs_def)
  then show ?thesis using assms by (auto simp: list_abs_def list_remove_def list_remove_last_def list_op_defs)
qed

theorem remove_last_node_dangles_witness:
  "rbind (list_insert list_new (1 :: nat)) (\<lambda>(l, a). rbind (list_insert l 2) (\<lambda>(l, _).
     rbind (list_remove l a) (\<lambda>(l, _). list_remove_last l))) = Err ''dangling pointer''"
proof -
  obtain l1 a where l1: "list_insert list_new (1 :: nat) = Ok (l1, a)" "list_abs l1 [(a, 1)]"
    using list_insert_abs[OF list_new_abs, of "1 :: nat"] by blast
  obtain l2 b where l2: "list_insert l1 2 = Ok (l2, b)" "list_abs l2 ([] @ [(b, 2), (a, 1)])" using list_insert_abs[OF l1(2), of 2] by auto
  from remove_last_node_dangles[OF l2(2)] l1(1) l2(1) show ?thesis by auto
qed

end
