(* ===== verification/Options.thy ===== *)
theory Options
  imports Errors
begin

text \<open>
  The configuration records of \<^verbatim>\<open>src/config/src/lib.rs\<close> and \<^verbatim>\<open>src/tskv/src/kv_option.rs\<close> and the counters of
  \<^verbatim>\<open>src/tskv/src/context.rs\<close>.  The global configuration is read from a file by the \<^verbatim>\<open>toml\<close> package; it is an
  argument wherever the code uses it.
\<close>

subsection \<open>Configuration\<close>

record GlobalConfig =
  cfg_max_memcache_size :: u64
  cfg_max_summary_size :: u64
  cfg_max_immemcache_num :: nat
  cfg_front_cpu :: nat
  cfg_back_cpu :: nat
  cfg_create_if_missing :: bool
  cfg_db_path :: string
  cfg_db_name :: string
  cfg_enabled :: bool
  cfg_wal_config_dir :: string
  cfg_sync :: bool
  cfg_max_level :: u32
  cfg_level_ratio :: f64
  cfg_base_file_size :: u64
  cfg_compact_trigger :: u32
  cfg_max_compact_size :: u64
  cfg_tsm_dir :: string
  cfg_delta_dir :: string
  cfg_tf_id :: u32
  cfg_seq_no :: u64
  cfg_schema_store_config_dir :: string
  cfg_tsfamily_num :: u32

text \<open>The configuration file of the repository.\<close>

definition config_toml :: GlobalConfig where
  "config_toml =
     \<lparr>cfg_max_memcache_size = 134217728, cfg_max_summary_size = 134217728, cfg_max_immemcache_num = 4, cfg_front_cpu = 2,
      cfg_back_cpu = 2, cfg_create_if_missing = False, cfg_db_path = ''dev/db'', cfg_db_name = ''db'', cfg_enabled = True,
      cfg_wal_config_dir = ''dev/wal'', cfg_sync = True, cfg_max_level = 4, cfg_level_ratio = 0x4030000000000000,
      cfg_base_file_size = 16777216, cfg_compact_trigger = 4, cfg_max_compact_size = 2147483648, cfg_tsm_dir = ''db/tsm/'',
      cfg_delta_dir = ''db/delta/'', cfg_tf_id = 0, cfg_seq_no = 0, cfg_schema_store_config_dir = ''dev/schema'', cfg_tsfamily_num = 2\<rparr>"

record DBOptions =
  db_front_cpu :: nat
  db_back_cpu :: nat
  db_max_summary_size :: u64
  db_create_if_missing :: bool
  db_path :: string
  db_name :: string

definition db_options_default :: "GlobalConfig \<Rightarrow> DBOptions" where
  "db_options_default cfg =
     \<lparr>db_front_cpu = cfg_front_cpu cfg, db_back_cpu = cfg_back_cpu cfg, db_max_summary_size = cfg_max_memcache_size cfg,
      db_create_if_missing = cfg_create_if_missing cfg, db_path = cfg_db_path cfg, db_name = cfg_db_name cfg\<rparr>"

record WalConfig =
  wc_enabled :: bool
  wc_dir :: string
  wc_sync :: bool

definition wal_config_default :: "GlobalConfig \<Rightarrow> WalConfig" where
  "wal_config_default cfg = \<lparr>wc_enabled = cfg_enabled cfg, wc_dir = cfg_wal_config_dir cfg, wc_sync = cfg_sync cfg\<rparr>"

record TseriesFamOpt =
  to_max_level :: u32
  to_level_ratio :: f64
  to_base_file_size :: u64
  to_compact_trigger :: u32
  to_max_compact_size :: u64
  to_tsm_dir :: string
  to_delta_dir :: string

definition level_file_size :: "bool \<Rightarrow> TseriesFamOpt \<Rightarrow> u32 \<Rightarrow> ('e, u64) result" where
  "level_file_size oc opt lvl =
     rbind (mul_u64 oc (to_base_file_size opt) (ucast lvl)) (\<lambda>v. mul_u64 oc v (ucast (to_compact_trigger opt)))"

definition tseries_fam_opt_default :: "GlobalConfig \<Rightarrow> TseriesFamOpt" where
  "tseries_fam_opt_default cfg =
     \<lparr>to_max_level = cfg_max_level cfg, to_level_ratio = cfg_level_ratio cfg, to_base_file_size = cfg_base_file_size cfg,
      to_compact_trigger = cfg_compact_trigger cfg, to_max_compact_size = cfg_max_compact_size cfg,
      to_tsm_dir = cfg_tsm_dir cfg, to_delta_dir = cfg_delta_dir cfg\<rparr>"

record TseriesFamDesc =
  td_name :: string
  td_opt :: TseriesFamOpt

record MemCacheOpt =
  mo_tf_id :: u32
  mo_max_size :: u64
  mo_seq_no :: u64

definition mem_cache_opt_default :: "GlobalConfig \<Rightarrow> MemCacheOpt" where
  "mem_cache_opt_default cfg = \<lparr>mo_tf_id = cfg_tf_id cfg, mo_max_size = cfg_max_memcache_size cfg, mo_seq_no = cfg_seq_no cfg\<rparr>"

record SchemaStoreConfig =
  sc_dir :: string

definition schema_store_config_default :: "GlobalConfig \<Rightarrow> SchemaStoreConfig" where
  "schema_store_config_default cfg = \<lparr>sc_dir = cfg_schema_store_config_dir cfg\<rparr>"

subsection \<open>Counters\<close>

record GlobalContext =
  gc_file_id :: u64
  gc_mem_seq :: u64
  gc_last_seq :: u64
  gc_max_tsf_id :: u32

definition global_context_new :: GlobalContext where
  "global_context_new = \<lparr>gc_file_id = 0, gc_mem_seq = 0, gc_last_seq = 0, gc_max_tsf_id = 0\<rparr>"

text \<open>Atomic additions wrap.\<close>

definition file_id_next :: "GlobalContext \<Rightarrow> GlobalContext" where
  "file_id_next ctx = ctx\<lparr>gc_file_id := gc_file_id ctx + 1\<rparr>"

definition mem_seq_next :: "GlobalContext \<Rightarrow> GlobalContext \<times> u64" where
  "mem_seq_next ctx = (ctx\<lparr>gc_mem_seq := gc_mem_seq ctx + 1\<rparr>, gc_mem_seq ctx)"

definition fetch_add_log_seq :: "u64 \<Rightarrow> GlobalContext \<Rightarrow> GlobalContext \<times> u64" where
  "fetch_add_log_seq n ctx = (ctx\<lparr>gc_file_id := gc_file_id ctx + n\<rparr>, gc_file_id ctx)"

definition set_last_seq :: "u64 \<Rightarrow> GlobalContext \<Rightarrow> GlobalContext" where
  "set_last_seq v ctx = ctx\<lparr>gc_last_seq := v\<rparr>"

definition set_file_id :: "u64 \<Rightarrow> GlobalContext \<Rightarrow> GlobalContext" where
  "set_file_id v ctx = ctx\<lparr>gc_file_id := v\<rparr>"

definition set_max_tsf_idy :: "u32 \<Rightarrow> GlobalContext \<Rightarrow> GlobalContext" where
  "set_max_tsf_idy v ctx = ctx\<lparr>gc_max_tsf_id := v\<rparr>"

definition next_tsf_id :: "GlobalContext \<Rightarrow> GlobalContext" where
  "next_tsf_id ctx = ctx\<lparr>gc_max_tsf_id := gc_max_tsf_id ctx + 1\<rparr>"

text \<open>The compare-and-exchange loop.  The list has the values that other threads store into the counter, one
  before each attempt while it lasts.\<close>

function mark_log_loop :: "bool \<Rightarrow> u64 \<Rightarrow> u64 list \<Rightarrow> u64 \<Rightarrow> GlobalContext \<Rightarrow> (string, GlobalContext) result" where
  "mark_log_loop oc v env old ctx =
     (if old \<le> v then
        rbind (add_u64 oc v 1) (\<lambda>new.
          let ctx = (case env of x # _ \<Rightarrow> set_file_id x ctx | [] \<Rightarrow> ctx) in
          if gc_file_id ctx = old then Ok (set_file_id new ctx)
          else mark_log_loop oc v (tl env) (gc_file_id ctx) ctx)
      else Ok ctx)"
  by pat_completeness auto
termination
  by (relation "measures [\<lambda>(oc, v, env, old, ctx). length env, \<lambda>(oc, v, env, old, ctx). if gc_file_id ctx = old then 0 else 1]")
    (auto simp: set_file_id_def split: list.splits)

declare mark_log_loop.simps [simp del]

definition mark_log_number_used :: "bool \<Rightarrow> u64 \<Rightarrow> u64 list \<Rightarrow> GlobalContext \<Rightarrow> (string, GlobalContext) result" where
  "mark_log_number_used oc v env ctx = mark_log_loop oc v env (gc_file_id ctx) ctx"

text \<open>Whatever other threads do, the number is used up when the loop returns, unless it was the last.\<close>

lemma mark_log_loop_above:
  assumes "v \<noteq> - 1" "v < old \<Longrightarrow> v < gc_file_id ctx"
  shows "\<exists>ctx'. mark_log_loop oc v env old ctx = Ok ctx' \<and> v < gc_file_id ctx'"
  using assms
proof (induction oc v env old ctx rule: mark_log_loop.induct)
  case (1 oc v env old ctx)
  let ?ctx = "case env of x # _ \<Rightarrow> set_file_id x ctx | [] \<Rightarrow> ctx"
  have "unat v \<noteq> unat (- 1 :: u64)" using \<open>v \<noteq> - 1\<close> unsigned_word_eqI[of v "- 1 :: u64"] by blast
  then have fits: "unat v + unat (1 :: u64) < 2 ^ 64" using unsigned_less[of v, where ?'a = nat] by (simp add: unsigned_minus_1_eq_mask mask_eq_exp_minus_1)
  then have add: "add_u64 oc v 1 = (Ok (v + 1) :: (string, u64) result)" by (rule add_u64_fits)
  have v: "v < v + 1" using fits unat_add_lem[of v 1] by (simp add: word_less_nat_alt)
  show ?case
  proof (cases "old \<le> v")
    case False
    then show ?thesis using 1(3) by (subst mark_log_loop.simps) simp
  next
    case le: True
    show ?thesis
    proof (cases "gc_file_id ?ctx = old")
      case True
      then show ?thesis using le add v by (subst mark_log_loop.simps) (simp add: set_file_id_def)
    next
      case False
      then show ?thesis using 1(1)[OF le add refl False 1(2)] le add
        by (subst mark_log_loop.simps) (simp add: Let_def)
    qed
  qed
qed

lemma mark_log_number_used_above:
  "v \<noteq> - 1 \<Longrightarrow> \<exists>ctx'. mark_log_number_used oc v env ctx = Ok ctx' \<and> v < gc_file_id ctx'"
  by (simp add: mark_log_number_used_def mark_log_loop_above)

end
