(* ===== verification/Wal.thy ===== *)
theory Wal
  imports Options DirectFile MemCache FileUtils
begin

text \<open>
  The write-ahead log of \<^verbatim>\<open>src/tskv/src/wal.rs\<close>: the writer and the reader of a segment, and the manager that
  opens the last segment and rolls over to a new one.  The checksum is a parameter; what the file manager
  finds under a path and the outcome of a sync are arguments.  Entries written to a segment are read back
  in order with consecutive sequence numbers.  The header is written when a segment is created and when it is
  flushed; flushing cuts the segment off behind its header.
\<close>

subsection \<open>Entries\<close>

definition SEGMENT_HEADER_SIZE :: nat where "SEGMENT_HEADER_SIZE = 32"

definition SEGMENT_MAGIC :: bytes where "SEGMENT_MAGIC = [0x57, 0x47, 0x4c, 0x00]"

definition SEGMENT_SIZE :: nat where "SEGMENT_SIZE = 1073741824"

definition BLOCK_HEADER_SIZE :: nat where "BLOCK_HEADER_SIZE = 17"

datatype WalEntryType = WWrite | WDelete | WDeleteRange | WUnknown

fun wal_type_u8 :: "WalEntryType \<Rightarrow> u8" where
  "wal_type_u8 WWrite = 1"
| "wal_type_u8 WDelete = 2"
| "wal_type_u8 WDeleteRange = 3"
| "wal_type_u8 WUnknown = 127"

definition wal_type_from_u8 :: "u8 \<Rightarrow> WalEntryType" where
  "wal_type_from_u8 typ = (if typ = 1 then WWrite else if typ = 2 then WDelete else if typ = 3 then WDeleteRange else WUnknown)"

record WalEntryBlock =
  we_typ :: WalEntryType
  we_seq :: u64
  we_crc :: u32
  we_len :: u32
  we_buf :: bytes

definition wal_entry_new :: "(bytes \<Rightarrow> u32) \<Rightarrow> WalEntryType \<Rightarrow> bytes \<Rightarrow> WalEntryBlock" where
  "wal_entry_new crc typ buf = \<lparr>we_typ = typ, we_seq = 0, we_crc = crc buf, we_len = of_nat (length buf), we_buf = buf\<rparr>"

definition wal_entry_from_bytes :: "bytes \<Rightarrow> (TskvError, WalEntryBlock) result" where
  "wal_entry_from_bytes bytes =
     rbind (index bytes 0) (\<lambda>typ.
     rbind (slice_range bytes 1 9) (\<lambda>b. rbind (decode_be_u64 b) (\<lambda>seq.
     rbind (slice_range bytes 9 13) (\<lambda>b. rbind (decode_be_u32 b) (\<lambda>crc.
     rbind (slice_range bytes 13 17) (\<lambda>b. rbind (decode_be_u32 b) (\<lambda>len.
     rbind (slice_from bytes 17) (\<lambda>buf.
       Ok \<lparr>we_typ = wal_type_from_u8 typ, we_seq = seq, we_crc = crc, we_len = len, we_buf = buf\<rparr>))))))))"

definition wal_entry_size :: "bool \<Rightarrow> WalEntryBlock \<Rightarrow> (TskvError, u32) result" where
  "wal_entry_size oc e = add_u32 oc (we_len e) (of_nat SEGMENT_HEADER_SIZE)"

subsection \<open>The writer\<close>

record WalWriter =
  ww_id :: nat
  ww_file :: File
  ww_size :: nat
  ww_path :: string
  ww_config :: WalConfig
  ww_header_buf :: bytes
  ww_min_sequence :: u64
  ww_max_sequence :: u64

text \<open>Overwriting a part of a fixed-size array.\<close>

definition copy_into :: "nat \<Rightarrow> bytes \<Rightarrow> bytes \<Rightarrow> bytes" where
  "copy_into i part buf = take i buf @ part @ drop (i + length part) buf"

definition read_wal_header :: "bool \<Rightarrow> FileCursor \<Rightarrow> (TskvError, FileCursor \<times> bytes) result" where
  "read_wal_header oc cursor =
     rbind (map_err EIO (cursor_seek oc cursor (SeekStart 0))) (\<lambda>(cursor, _).
     rbind (map_err EIO (cursor_read oc cursor SEGMENT_HEADER_SIZE)) (\<lambda>(cursor, data).
       Ok (cursor, data @ drop (length data) (replicate SEGMENT_HEADER_SIZE 0))))"

text \<open>\<^verbatim>\<open>existing\<close> is what opening the file gives, if it exists, and \<^verbatim>\<open>created\<close> what creating it gives.\<close>

definition wal_open ::
  "(File \<Rightarrow> (string, unit) result) \<Rightarrow> (TskvError, File) result option \<Rightarrow> (TskvError, File) result \<Rightarrow> nat \<Rightarrow> string \<Rightarrow> WalConfig \<Rightarrow>
   (TskvError, WalWriter) result" where
  "wal_open sync_all existing created wal_id path config =
     rbind (case existing of Some opened \<Rightarrow> rbind opened (\<lambda>f. Ok (f, f_len f = 0)) | None \<Rightarrow> rbind created (\<lambda>f. Ok (f, True)))
       (\<lambda>(file, new_file).
       if new_file then
         let header_buf = copy_into 0 SEGMENT_MAGIC (replicate SEGMENT_HEADER_SIZE 0) in
         rbind (map_err EIO (rbind (file_write_at file 0 header_buf) (\<lambda>(file, _). rbind (sync_all file) (\<lambda>_. Ok file)))) (\<lambda>file.
           Ok \<lparr>ww_id = wal_id, ww_file = file, ww_size = f_len file, ww_path = path, ww_config = config, ww_header_buf = header_buf,
               ww_min_sequence = 0, ww_max_sequence = 0\<rparr>)
       else
         rbind (map_err EIO (file_read_at file 0 SEGMENT_HEADER_SIZE)) (\<lambda>data.
           let header_buf = data @ drop (length data) (replicate SEGMENT_HEADER_SIZE 0) in
           Ok \<lparr>ww_id = wal_id, ww_file = file, ww_size = f_len file, ww_path = path, ww_config = config, ww_header_buf = header_buf,
               ww_min_sequence = from_be (take 8 (drop 4 header_buf)), ww_max_sequence = from_be (take 8 (drop 12 header_buf))\<rparr>))"

text \<open>The chain of writes, each at the end of the one before.\<close>

fun wal_put :: "File \<times> nat \<Rightarrow> bytes \<Rightarrow> (string, File \<times> nat) result" where
  "wal_put (file, pos) part = rbind (file_write_at file pos part) (\<lambda>(file, size). Ok (file, pos + size))"

definition wal_write ::
  "bool \<Rightarrow> (bytes \<Rightarrow> u32) \<Rightarrow> (File \<Rightarrow> (string, unit) result) \<Rightarrow> WalWriter \<Rightarrow> WalEntryType \<Rightarrow> bytes \<Rightarrow>
   (TskvError, WalWriter \<times> u64 \<times> nat) result" where
  "wal_write oc crc sync_all w typ data =
     (let seq = ww_max_sequence w in
      rbind (map_err EIO
        (rbind (wal_put (ww_file w, ww_size w) [wal_type_u8 typ]) (\<lambda>s.
         rbind (wal_put s (be_bytes 8 seq)) (\<lambda>s.
         rbind (wal_put s (be_bytes 4 (crc data))) (\<lambda>s.
         rbind (wal_put s (be_bytes 4 (of_nat (length data) :: u32))) (\<lambda>s.
         rbind (wal_put s data) (\<lambda>(file, pos).
         rbind (if wc_sync (ww_config w) then sync_all file else Ok ()) (\<lambda>_. Ok (file, pos))))))))) (\<lambda>(file, pos).
      rbind (add_u64 oc seq 1) (\<lambda>seq.
        Ok (w\<lparr>ww_file := file, ww_size := pos, ww_max_sequence := seq\<rparr>, seq, pos - ww_size w))))"

definition wal_flush :: "(File \<Rightarrow> (string, unit) result) \<Rightarrow> WalWriter \<Rightarrow> (TskvError, WalWriter) result" where
  "wal_flush sync_all w =
     (let header_buf = copy_into 12 (be_bytes 8 (ww_max_sequence w)) (copy_into 4 (be_bytes 8 (ww_min_sequence w)) (ww_header_buf w)) in
      rbind (map_err EIO (file_write_at (ww_file w) 0 header_buf)) (\<lambda>(file, _).
      rbind (map_err EIO (sync_all file)) (\<lambda>_.
        Ok (w\<lparr>ww_header_buf := header_buf, ww_file := file\<rparr>))))"

subsection \<open>The manager\<close>

record WalManager =
  wm_config :: WalConfig
  wm_current_dir :: string
  wm_current_file :: WalWriter

text \<open>\<^verbatim>\<open>lookup\<close> is what the file manager finds under a path, \<^verbatim>\<open>segments\<close> the listing of the directory.  The file is
  opened, or created, before the writer opens it a second time.\<close>

definition wal_manager_new ::
  "Patterns \<Rightarrow> (File \<Rightarrow> (string, unit) result) \<Rightarrow> (string \<Rightarrow> (TskvError, File) result option) \<Rightarrow> (TskvError, File) result \<Rightarrow>
   string list \<Rightarrow> WalConfig \<Rightarrow> (TskvError, WalManager) result" where
  "wal_manager_new re sync_all lookup created segments config =
     rbind (get_max_sequence_file_name segments (get_wal_file_id re)) (\<lambda>found.
       let (last, seq) = (case found of Some (file, seq) \<Rightarrow> (wc_dir config @ ''/'' @ file, seq) | None \<Rightarrow> (make_wal_file (wc_dir config) 1, 1)) in
       rbind (unwrap (case lookup last of Some opened \<Rightarrow> opened | None \<Rightarrow> created)) (\<lambda>file.
       rbind (unwrap (wal_open sync_all (Some (Ok file)) created seq last config)) (\<lambda>current_file.
         Ok \<lparr>wm_config = config, wm_current_dir = wc_dir config, wm_current_file = current_file\<rparr>)))"

definition roll_wal_file ::
  "(File \<Rightarrow> (string, unit) result) \<Rightarrow> (string \<Rightarrow> (TskvError, File) result option) \<Rightarrow> (TskvError, File) result \<Rightarrow>
   WalManager \<Rightarrow> (TskvError, WalManager) result" where
  "roll_wal_file sync_all lookup created m =
     (if ww_size (wm_current_file m) > SEGMENT_SIZE then
        let wal_id = ww_id (wm_current_file m) in
        rbind (wal_flush sync_all (wm_current_file m)) (\<lambda>flushed.
          let new_file_name = make_wal_file (wc_dir (wm_config m)) wal_id;
              existing = (if new_file_name = ww_path flushed then Some (Ok (ww_file flushed)) else lookup new_file_name) in
          rbind (wal_open sync_all existing created wal_id new_file_name (wm_config m)) (\<lambda>new_file.
            Ok (m\<lparr>wm_current_file := new_file\<rparr>)))
      else Ok m)"

definition wal_manager_write ::
  "bool \<Rightarrow> (bytes \<Rightarrow> u32) \<Rightarrow> (File \<Rightarrow> (string, unit) result) \<Rightarrow> (string \<Rightarrow> (TskvError, File) result option) \<Rightarrow> (TskvError, File) result \<Rightarrow>
   WalManager \<Rightarrow> WalEntryType \<Rightarrow> bytes \<Rightarrow> (TskvError, WalManager \<times> u64 \<times> nat) result" where
  "wal_manager_write oc crc sync_all lookup created m typ data =
     rbind (roll_wal_file sync_all lookup created m) (\<lambda>m.
     rbind (wal_write oc crc sync_all (wm_current_file m) typ data) (\<lambda>(w, seq, n).
       Ok (m\<lparr>wm_current_file := w\<rparr>, seq, n)))"

subsection \<open>The reader\<close>

record WalReader =
  wl_cursor :: FileCursor
  wl_header_buf :: bytes
  wl_block_header_buf :: bytes
  wl_max_sequence :: u64
  wl_body_buf :: bytes

definition wal_reader_new :: "bool \<Rightarrow> FileCursor \<Rightarrow> (TskvError, WalReader) result" where
  "wal_reader_new oc cursor =
     rbind (read_wal_header oc cursor) (\<lambda>(cursor, header_buf).
     rbind (decode_be_u64 (take 8 (drop 12 header_buf))) (\<lambda>max_sequence.
       Ok \<lparr>wl_cursor = cursor, wl_header_buf = header_buf, wl_block_header_buf = replicate BLOCK_HEADER_SIZE 0,
           wl_max_sequence = max_sequence, wl_body_buf = []\<rparr>))"

text \<open>A read fills the front of its buffer and leaves the rest.\<close>

definition fill_front :: "bytes \<Rightarrow> bytes \<Rightarrow> bytes" where
  "fill_front data buf = data @ drop (length data) buf"

definition next_wal_entry :: "bool \<Rightarrow> WalReader \<Rightarrow> (TskvError, WalReader \<times> WalEntryBlock option) result" where
  "next_wal_entry oc r =
     rbind (unwrap (cursor_read oc (wl_cursor r) BLOCK_HEADER_SIZE)) (\<lambda>(cursor, data).
       let block_header_buf = fill_front data (wl_block_header_buf r);
           r = r\<lparr>wl_cursor := cursor, wl_block_header_buf := block_header_buf\<rparr> in
       if length data < 8 then Ok (r, None)
       else
         rbind (index block_header_buf 0) (\<lambda>typ.
         rbind (decode_be_u64 (take 8 (drop 1 block_header_buf))) (\<lambda>seq.
         rbind (decode_be_u32 (take 4 (drop 9 block_header_buf))) (\<lambda>crc.
         rbind (decode_be_u32 (take 4 (drop 13 block_header_buf))) (\<lambda>data_len.
           if data_len = 0 then Ok (r, None)
           else
             let body_buf = (if unat data_len > length (wl_body_buf r) then resize (unat data_len) 0 (wl_body_buf r) else wl_body_buf r) in
             rbind (unwrap (cursor_read oc cursor (unat data_len))) (\<lambda>(cursor, data).
               let body_buf = fill_front data body_buf in
               Ok (r\<lparr>wl_cursor := cursor, wl_body_buf := body_buf\<rparr>,
                   Some \<lparr>we_typ = wal_type_from_u8 typ, we_seq = seq, we_crc = crc, we_len = of_nat (length data),
                         we_buf = take (unat data_len) body_buf\<rparr>)))))))"

text \<open>The loop over the entries of a segment.\<close>

partial_function (option) wal_entries :: "bool \<Rightarrow> WalReader \<Rightarrow> WalEntryBlock list \<Rightarrow> (TskvError, WalEntryBlock list) result option" where
  "wal_entries oc r acc =
     (case next_wal_entry oc r of
        Ok (r, Some e) \<Rightarrow> wal_entries oc r (acc @ [e])
      | Ok (r, None) \<Rightarrow> Some (Ok acc)
      | Err e \<Rightarrow> Some (Err e)
      | Panic \<Rightarrow> Some Panic)"

subsection \<open>What the writer leaves\<close>

definition wal_frame :: "(bytes \<Rightarrow> u32) \<Rightarrow> u64 \<Rightarrow> WalEntryType \<times> bytes \<Rightarrow> bytes" where
  "wal_frame crc seq = (\<lambda>(typ, data). [wal_type_u8 typ] @ be_bytes 8 seq @ be_bytes 4 (crc data) @ be_bytes 4 (of_nat (length data) :: u32) @ data)"

definition wal_wf :: "WalWriter \<Rightarrow> bool" where
  "wal_wf w \<longleftrightarrow> file_wf (ww_file w) \<and> ww_size w = f_len (ww_file w)"

lemma length_wal_frame [simp]: "length (wal_frame crc seq e) = 17 + length (snd e)"
  by (cases e) (simp add: wal_frame_def)

lemma wal_type_roundtrip [simp]: "wal_type_from_u8 (wal_type_u8 t) = t"
  by (cases t) (simp_all add: wal_type_from_u8_def)

interpretation wal: seq_writer "\<lambda>(f, pos). file_wf f \<and> pos = f_len f" wal_put "file_bytes \<circ> fst" "\<lambda>(f, pos). f_cap f - 1 - f_len f"
proof
  fix s :: "File \<times> nat" and buf :: bytes
  assume "case s of (f, pos) \<Rightarrow> file_wf f \<and> pos = f_len f" and "length buf \<le> (case s of (f, pos) \<Rightarrow> f_cap f - 1 - f_len f)"
  then obtain f where f: "s = (f, f_len f)" "file_wf f" "f_len f + length buf < f_cap f"
    using file_wfD(3) by (cases s) fastforce
  from file_append[OF f(2,3)] show "\<exists>s'. wal_put s buf = Ok s' \<and> (case s' of (f, pos) \<Rightarrow> file_wf f \<and> pos = f_len f) \<and>
      (file_bytes \<circ> fst) s' = (file_bytes \<circ> fst) s @ buf \<and>
      (case s' of (f, pos) \<Rightarrow> f_cap f - 1 - f_len f) + length buf = (case s of (f, pos) \<Rightarrow> f_cap f - 1 - f_len f)"
    using f by auto
qed

lemma wal_write_append:
  assumes "wal_wf w" "ww_size w + 17 + length data < f_cap (ww_file w)" "\<forall>f. sync_all f = Ok ()" "unat (ww_max_sequence w) + 1 < 2 ^ 64"
  shows "\<exists>f'. wal_write oc crc sync_all w typ data =
      Ok (w\<lparr>ww_file := f', ww_size := f_len f', ww_max_sequence := ww_max_sequence w + 1\<rparr>, ww_max_sequence w + 1, 17 + length data) \<and>
    file_wf f' \<and> f_page_len f' = f_page_len (ww_file w) \<and>
    file_bytes f' = file_bytes (ww_file w) @ wal_frame crc (ww_max_sequence w) (typ, data)"
proof -
  let ?s = "(ww_file w, f_len (ww_file w))" and ?seq = "ww_max_sequence w"
  let ?parts = "[[wal_type_u8 typ], be_bytes 8 ?seq, be_bytes 4 (crc data), be_bytes 4 (of_nat (length data) :: u32), data]"
  have wf: "file_wf (ww_file w)" "ww_size w = f_len (ww_file w)" using assms(1) by (simp_all add: wal_wf_def)
  have room: "length (concat ?parts) \<le> f_cap (ww_file w) - 1 - f_len (ww_file w)" using assms(2) wf(2) by simp
  obtain s where s: "write_all wal_put ?s ?parts = Ok s" "case s of (f, pos) \<Rightarrow> file_wf f \<and> pos = f_len f"
    "file_bytes (fst s) = file_bytes (ww_file w) @ concat ?parts"
    "(case s of (f, pos) \<Rightarrow> f_cap f - 1 - f_len f) + length (concat ?parts) = f_cap (ww_file w) - 1 - f_len (ww_file w)"
    using wal.write_all_ok[of ?s ?parts] wf room by (auto simp del: write_all.simps wal_put.simps)
  obtain f' where f': "s = (f', f_len f')" "file_wf f'" using s(2) by (cases s) auto
  have bytes: "file_bytes f' = file_bytes (ww_file w) @ wal_frame crc ?seq (typ, data)" using s(3) by (simp add: f' wal_frame_def)
  have flen: "f_len f' = f_len (ww_file w) + 17 + length data" using length_file_bytes[of f'] unfolding bytes by simp
  then have len: "f_len f' - ww_size w = 17 + length data" using wf(2) by simp
  have pl: "f_page_len f' = f_page_len (ww_file w)"
    using s(4) room flen file_wfD(3)[OF f'(2)] by (simp add: f'(1))
  have add: "add_u64 oc ?seq 1 = (Ok (?seq + 1) :: (TskvError, u64) result)" using assms(4) by (intro add_u64_fits) simp
  have chain: "rbind (wal_put ?s [wal_type_u8 typ]) (\<lambda>s. rbind (wal_put s (be_bytes 8 ?seq)) (\<lambda>s. rbind (wal_put s (be_bytes 4 (crc data)))
      (\<lambda>s. rbind (wal_put s (be_bytes 4 (of_nat (length data) :: u32))) (\<lambda>s. rbind (wal_put s data) g)))) = g (f', f_len f')"
    for g :: "File \<times> nat \<Rightarrow> (string, File \<times> nat) result"
    using arg_cong[OF s(1), of "\<lambda>m. rbind m g"] by (simp add: rbind_assoc f'(1) del: wal_put.simps)
  have "wal_write oc crc sync_all w typ data =
      Ok (w\<lparr>ww_file := f', ww_size := f_len f', ww_max_sequence := ?seq + 1\<rparr>, ?seq + 1, 17 + length data)"
    using chain assms(3) add len by (simp add: wal_write_def wf(2) Let_def del: wal_put.simps)
  then show ?thesis using f'(2) bytes pl by blast
qed

subsection \<open>Reading a segment\<close>

primrec wal_log :: "(bytes \<Rightarrow> u32) \<Rightarrow> u64 \<Rightarrow> (WalEntryType \<times> bytes) list \<Rightarrow> bytes" where
  "wal_log crc seq [] = []"
| "wal_log crc seq (e # es) = wal_frame crc seq e @ wal_log crc (seq + 1) es"

primrec wal_blocks :: "(bytes \<Rightarrow> u32) \<Rightarrow> u64 \<Rightarrow> (WalEntryType \<times> bytes) list \<Rightarrow> WalEntryBlock list" where
  "wal_blocks crc seq [] = []"
| "wal_blocks crc seq (e # es) =
     \<lparr>we_typ = fst e, we_seq = seq, we_crc = crc (snd e), we_len = of_nat (length (snd e)), we_buf = snd e\<rparr> # wal_blocks crc (seq + 1) es"

text \<open>A reader at a position of the bytes of its file.\<close>

definition reads_from :: "bytes \<Rightarrow> WalReader \<Rightarrow> bool" where
  "reads_from rest r \<longleftrightarrow> file_wf (fc_file (wl_cursor r)) \<and> length (wl_block_header_buf r) = BLOCK_HEADER_SIZE \<and>
     fc_pos (wl_cursor r) \<le> f_len (fc_file (wl_cursor r)) \<and> drop (fc_pos (wl_cursor r)) (cursor_bytes (wl_cursor r)) = rest"

lemma next_wal_entry_end: "reads_from [] r \<Longrightarrow> \<exists>r'. next_wal_entry oc r = Ok (r', None)"
  by (simp add: reads_from_def next_wal_entry_def cursor_read_Ok Let_def)

lemma reads_from_step:
  assumes "reads_from (part @ rest) r"
  shows "cursor_read oc (wl_cursor r) (length part) = Ok (wl_cursor r\<lparr>fc_pos := fc_pos (wl_cursor r) + length part\<rparr>, part)"
    and "fc_pos (wl_cursor r) + length part \<le> f_len (fc_file (wl_cursor r))"
    and "drop (fc_pos (wl_cursor r) + length part) (cursor_bytes (wl_cursor r)) = rest"
proof -
  let ?c = "wl_cursor r"
  have d: "drop (fc_pos ?c) (cursor_bytes ?c) = part @ rest" "file_wf (fc_file ?c)" "fc_pos ?c \<le> f_len (fc_file ?c)"
    using assms by (simp_all add: reads_from_def)
  have len: "f_len (fc_file ?c) - fc_pos ?c = length part + length rest"
    using arg_cong[OF d(1), of length] by (simp add: cursor_bytes_def)
  then show "fc_pos ?c + length part \<le> f_len (fc_file ?c)" using d(3) by linarith
  show "cursor_read oc ?c (length part) = Ok (?c\<lparr>fc_pos := fc_pos ?c + length part\<rparr>, part)"
    using cursor_read_Ok[OF d(2,3), of oc "length part"] len d(1) by simp
  show "drop (fc_pos ?c + length part) (cursor_bytes ?c) = rest"
    using arg_cong[OF d(1), of "drop (length part)"] by (simp add: add.commute)
qed

lemma next_wal_entry_frame:
  assumes "reads_from (wal_frame crc seq (t, d) @ rest) r" "d \<noteq> []" "length d < 2 ^ 32"
  shows "\<exists>r'. next_wal_entry oc r = Ok (r', Some \<lparr>we_typ = t, we_seq = seq, we_crc = crc d, we_len = of_nat (length d), we_buf = d\<rparr>) \<and>
    reads_from rest r'"
proof -
  let ?h = "[wal_type_u8 t] @ be_bytes 8 seq @ be_bytes 4 (crc d) @ be_bytes 4 (of_nat (length d) :: u32)"
  let ?c = "wl_cursor r"
  let ?c1 = "?c\<lparr>fc_pos := fc_pos ?c + 17\<rparr>"
  have n: "unat (of_nat (length d) :: u32) = length d" using assms(3) by (simp add: unat_of_nat)
  have n0: "(of_nat (length d) :: u32) \<noteq> 0" using n assms(2) by (metis length_0_conv unat_0)
  have rf: "reads_from (?h @ (d @ rest)) r" using assms(1) by (simp add: wal_frame_def)
  have h: "length ?h = 17" by simp
  note s1 = reads_from_step[OF rf, unfolded h]
  have bl: "length (wl_block_header_buf r) = 17" "file_wf (fc_file ?c)" using rf by (simp_all add: reads_from_def BLOCK_HEADER_SIZE_def)
  define r1 where "r1 = r\<lparr>wl_cursor := ?c1, wl_block_header_buf := ?h\<rparr>"
  have rf1: "reads_from (d @ rest) r1"
    using s1(2,3) bl by (simp add: reads_from_def r1_def BLOCK_HEADER_SIZE_def cursor_bytes_def)
  note s2 = reads_from_step[OF rf1]
  have c1: "wl_cursor r1 = ?c1" by (simp add: r1_def)
  let ?body = "if length d > length (wl_body_buf r) then resize (length d) 0 (wl_body_buf r) else wl_body_buf r"
  have body: "take (length d) (fill_front d b) = d" for b by (simp add: fill_front_def)
  let ?c2 = "?c1\<lparr>fc_pos := fc_pos ?c1 + length d\<rparr>"
  have rd: "cursor_read oc ?c1 (length d) = Ok (?c2, d)" using s2(1)[of oc] unfolding c1 .
  have ff: "fill_front ?h (wl_block_header_buf r) = ?h" by (simp add: fill_front_def bl(1))
  have "next_wal_entry oc r = Ok (r1\<lparr>wl_cursor := ?c2, wl_body_buf := fill_front d ?body\<rparr>,
      Some \<lparr>we_typ = t, we_seq = seq, we_crc = crc d, we_len = of_nat (length d), we_buf = d\<rparr>)"
    using s1(1)[of oc] rd n n0 body ff
    by (simp add: next_wal_entry_def BLOCK_HEADER_SIZE_def Let_def index_def decode_be_u64_def decode_be_u32_def decode_be_def r1_def)
  moreover have "reads_from rest (r1\<lparr>wl_cursor := ?c2, wl_body_buf := fill_front d ?body\<rparr>)"
    using s2(2,3) rf1 by (simp add: reads_from_def r1_def cursor_bytes_def)
  ultimately show ?thesis by blast
qed

text \<open>An entry without data ends the iteration.\<close>

lemma next_wal_entry_empty:
  assumes "reads_from (wal_frame crc seq (t, []) @ rest) r"
  shows "\<exists>r'. next_wal_entry oc r = Ok (r', None)"
proof -
  let ?h = "[wal_type_u8 t] @ be_bytes 8 seq @ be_bytes 4 (crc []) @ be_bytes 4 (0 :: u32)"
  have rf: "reads_from (?h @ rest) r" using assms by (simp add: wal_frame_def)
  have h: "length ?h = 17" by simp
  have "length (wl_block_header_buf r) = 17" using rf by (simp add: reads_from_def BLOCK_HEADER_SIZE_def)
  then have ff: "fill_front ?h (wl_block_header_buf r) = ?h" by (simp add: fill_front_def)
  show ?thesis using reads_from_step(1)[OF rf, unfolded h, of oc] ff
    by (simp add: next_wal_entry_def BLOCK_HEADER_SIZE_def Let_def index_def decode_be_u64_def decode_be_u32_def decode_be_def)
qed

lemma wal_entries_log:
  assumes "reads_from (wal_log crc seq es) r" "\<forall>(t, d) \<in> set es. length d < 2 ^ 32"
  shows "wal_entries oc r acc = Some (Ok (acc @ wal_blocks crc seq (takeWhile (\<lambda>(t, d). d \<noteq> []) es)))"
  using assms
proof (induction es arbitrary: seq r acc)
  case Nil
  then obtain r' where "next_wal_entry oc r = Ok (r', None)" using next_wal_entry_end[of r oc] by auto
  then show ?case by (subst wal_entries.simps) simp
next
  case (Cons e es)
  obtain t d where e: "e = (t, d)" by (cases e)
  show ?case
  proof (cases "d = []")
    case True
    then obtain r' where "next_wal_entry oc r = Ok (r', None)"
      using next_wal_entry_empty[of crc seq t "wal_log crc (seq + 1) es" r oc] Cons.prems(1) by (auto simp: e)
    then show ?thesis using True by (subst wal_entries.simps) (simp add: e)
  next
    case False
    obtain r' where r': "next_wal_entry oc r = Ok (r', Some \<lparr>we_typ = t, we_seq = seq, we_crc = crc d, we_len = of_nat (length d), we_buf = d\<rparr>)"
      "reads_from (wal_log crc (seq + 1) es) r'"
      using next_wal_entry_frame[of crc seq t d "wal_log crc (seq + 1) es" r oc] Cons.prems False by (auto simp: e)
    then show ?thesis using Cons.IH[OF r'(2)] Cons.prems(2) False by (subst wal_entries.simps) (simp add: e)
  qed
qed

subsection \<open>Segments\<close>

lemma copy_into_length: "i + length part \<le> length buf \<Longrightarrow> length (copy_into i part buf) = length buf"
  by (simp add: copy_into_def)

definition wal_header :: bytes where "wal_header = SEGMENT_MAGIC @ replicate 28 0"

lemma new_header: "copy_into 0 SEGMENT_MAGIC (replicate SEGMENT_HEADER_SIZE 0) = wal_header"
  by (simp add: copy_into_def SEGMENT_MAGIC_def SEGMENT_HEADER_SIZE_def wal_header_def)

lemma length_wal_header [simp]: "length wal_header = 32"
  by (simp add: wal_header_def SEGMENT_MAGIC_def)

lemma wal_reader_new_Ok:
  assumes "file_wf f" "length h = 32" "file_bytes f = h @ rest"
  shows "\<exists>r. wal_reader_new oc (file_into_cursor f) = Ok r \<and> wl_max_sequence r = from_be (take 8 (drop 12 h)) \<and> reads_from rest r"
proof -
  have len: "f_len f = 32 + length rest" using length_file_bytes[of f] assms(2) unfolding assms(3) by simp
  have "cursor_read oc (file_into_cursor f) 32 = Ok ((file_into_cursor f)\<lparr>fc_pos := 32\<rparr>, h)"
    using cursor_read_Ok[of "file_into_cursor f" oc 32] assms len by (simp add: file_into_cursor_def cursor_bytes_def)
  then show ?thesis
    using assms len
    by (simp add: wal_reader_new_def read_wal_header_def cursor_seek_def file_into_cursor_def SEGMENT_HEADER_SIZE_def
        decode_be_u64_def decode_be_def reads_from_def cursor_bytes_def)
qed

fun wal_writes :: "bool \<Rightarrow> (bytes \<Rightarrow> u32) \<Rightarrow> (File \<Rightarrow> (string, unit) result) \<Rightarrow> WalWriter \<Rightarrow> (WalEntryType \<times> bytes) list \<Rightarrow> (TskvError, WalWriter) result" where
  "wal_writes oc crc sync_all w [] = Ok w"
| "wal_writes oc crc sync_all w ((t, d) # es) = rbind (wal_write oc crc sync_all w t d) (\<lambda>(w, _). wal_writes oc crc sync_all w es)"

definition wal_log_size :: "(WalEntryType \<times> bytes) list \<Rightarrow> nat" where
  "wal_log_size es = sum_list (map (\<lambda>e. 17 + length (snd e)) es)"

lemma wal_writes_log:
  assumes "wal_wf w" "ww_size w + wal_log_size es < f_cap (ww_file w)" "\<forall>f. sync_all f = Ok ()" "unat (ww_max_sequence w) + length es < 2 ^ 64"
  shows "\<exists>w'. wal_writes oc crc sync_all w es = Ok w' \<and> wal_wf w' \<and> f_page_len (ww_file w') = f_page_len (ww_file w) \<and>
    file_bytes (ww_file w') = file_bytes (ww_file w) @ wal_log crc (ww_max_sequence w) es \<and>
    ww_max_sequence w' = ww_max_sequence w + of_nat (length es)"
  using assms
proof (induction es arbitrary: w)
  case (Cons e es)
  obtain t d where e: "e = (t, d)" by (cases e)
  let ?seq = "ww_max_sequence w"
  have sz: "ww_size w + 17 + length d < f_cap (ww_file w)" "unat ?seq + 1 < 2 ^ 64" using Cons.prems(2,4) by (simp_all add: e wal_log_size_def)
  obtain f' where f': "wal_write oc crc sync_all w t d = Ok (w\<lparr>ww_file := f', ww_size := f_len f', ww_max_sequence := ?seq + 1\<rparr>, ?seq + 1, 17 + length d)"
    "file_wf f'" "f_page_len f' = f_page_len (ww_file w)" "file_bytes f' = file_bytes (ww_file w) @ wal_frame crc ?seq (t, d)"
    using wal_write_append[OF Cons.prems(1) sz(1) Cons.prems(3) sz(2)] by blast
  let ?w = "w\<lparr>ww_file := f', ww_size := f_len f', ww_max_sequence := ?seq + 1\<rparr>"
  have flen: "f_len f' = ww_size w + 17 + length d"
    using length_file_bytes[of f'] Cons.prems(1) unfolding f'(4) by (simp add: wal_wf_def)
  have "unat (?seq + 1) = unat ?seq + 1" using sz(2) unat_add_lem[of ?seq 1] by simp
  then have sq: "unat (ww_max_sequence ?w) + length es < 2 ^ 64" using Cons.prems(4) by simp
  have room: "ww_size ?w + wal_log_size es < f_cap (ww_file ?w)" using Cons.prems(2) flen f'(3) by (simp add: e wal_log_size_def)
  have wfw: "wal_wf ?w" using f'(2) by (simp add: wal_wf_def)
  obtain w' where w': "wal_writes oc crc sync_all ?w es = Ok w'" "wal_wf w'" "f_page_len (ww_file w') = f_page_len f'"
    "file_bytes (ww_file w') = file_bytes f' @ wal_log crc (?seq + 1) es" "ww_max_sequence w' = ?seq + 1 + of_nat (length es)"
    using Cons.IH[OF wfw room Cons.prems(3) sq] by auto
  then show ?case using f' by (simp add: e add.assoc)
qed simp

lemma wal_open_new:
  assumes "file_wf f" "f_len f = 0" "\<forall>f. sync_all f = Ok ()" "32 < f_cap f" "existing = None \<and> created = Ok f \<or> existing = Some (Ok f)"
  shows "\<exists>w. wal_open sync_all existing created wal_id path config = Ok w \<and> wal_wf w \<and> f_page_len (ww_file w) = f_page_len f \<and>
    file_bytes (ww_file w) = wal_header \<and> ww_size w = 32 \<and> ww_max_sequence w = 0 \<and> ww_header_buf w = wal_header"
proof -
  have "file_bytes f = []" by (simp add: file_bytes_def assms(2))
  then obtain f' where "file_write_at f 0 wal_header = Ok (f', 32)" "file_wf f'" "f_page_len f' = f_page_len f" "f_len f' = 32"
    "file_bytes f' = wal_header"
    using file_append[OF assms(1), of wal_header] assms(2,4) by auto
  then show ?thesis using assms(2,3,5) by (auto simp: wal_open_def new_header wal_wf_def)
qed

text \<open>C32: Entries logged in a new segment are read back in order, with consecutive sequence numbers from zero, up to the
  first entry without data: reading ends there, and that entry and all entries behind it are not delivered.  Without
  an empty entry all are read back.  The header of the segment does not record them, its greatest sequence number
  stays zero.  The data of an entry is shorter than 4 GiB, the file has room and syncing succeeds.\<close>

theorem wal_roundtrip:
  assumes "file_wf f" and "f_len f = 0" and "\<forall>f. sync_all f = Ok ()" and "\<forall>(t, d) \<in> set es. length d < 2 ^ 32"
    and "32 + wal_log_size es < f_page_len f * 2 ^ 32" and "length es < 2 ^ 64"
  shows "\<exists>w w' r. wal_open sync_all None (Ok f) wal_id path config = Ok w \<and> wal_writes oc crc sync_all w es = Ok w' \<and>
    ww_max_sequence w' = of_nat (length es) \<and> wal_reader_new oc (file_into_cursor (ww_file w')) = Ok r \<and>
    wal_entries oc r [] = Some (Ok (wal_blocks crc 0 (takeWhile (\<lambda>(t, d). d \<noteq> []) es))) \<and> wl_max_sequence r = 0"
proof -
  obtain w where w: "wal_open sync_all None (Ok f) wal_id path config = Ok w" "wal_wf w" "f_page_len (ww_file w) = f_page_len f"
    "file_bytes (ww_file w) = wal_header" "ww_size w = 32" "ww_max_sequence w = 0"
    using wal_open_new[OF assms(1-3), of None "Ok f" wal_id path config] assms(5) by auto
  obtain w' where w': "wal_writes oc crc sync_all w es = Ok w'" "wal_wf w'" "file_bytes (ww_file w') = wal_header @ wal_log crc 0 es"
    "ww_max_sequence w' = of_nat (length es)"
    using wal_writes_log[OF w(2) _ assms(3), of es oc crc] w(3-6) assms(5,6) by auto
  obtain r where r: "wal_reader_new oc (file_into_cursor (ww_file w')) = Ok r" "wl_max_sequence r = from_be (take 8 (drop 12 wal_header))"
    "reads_from (wal_log crc 0 es) r"
    using wal_reader_new_Ok[OF _ length_wal_header w'(3)] w'(2) by (auto simp: wal_wf_def)
  have "wl_max_sequence r = 0" unfolding r(2) by code_simp
  then show ?thesis using w(1) w'(1,4) r(1) wal_entries_log[OF r(3) assms(4)] by auto
qed

theorem wal_roundtrip_witness:
  "\<exists>w w' r. wal_open (\<lambda>_. Ok ()) None (Ok (blank_file 4096 0)) 1 ''wal/_000001.wal'' \<lparr>wc_enabled = True, wc_dir = ''wal'', wc_sync = True\<rparr> = Ok w \<and>
    wal_writes True (\<lambda>b. of_nat (length b)) (\<lambda>_. Ok ()) w [(WWrite, [1, 2]), (WDelete, [3]), (WWrite, []), (WWrite, [4])] = Ok w' \<and>
    wal_reader_new True (file_into_cursor (ww_file w')) = Ok r \<and>
    wal_entries True r [] = Some (Ok [\<lparr>we_typ = WWrite, we_seq = 0, we_crc = 2, we_len = 2, we_buf = [1, 2]\<rparr>,
                                      \<lparr>we_typ = WDelete, we_seq = 1, we_crc = 1, we_len = 1, we_buf = [3]\<rparr>])"
  using wal_roundtrip[of "blank_file 4096 0" "\<lambda>_. Ok ()" "[(WWrite, [1, 2]), (WDelete, [3]), (WWrite, []), (WWrite, [4])]" 1 "''wal/_000001.wal''"
      "\<lparr>wc_enabled = True, wc_dir = ''wal'', wc_sync = True\<rparr>" True "\<lambda>b. of_nat (length b)"] blank_file_wf[of 4096 0]
  by (auto simp: wal_log_size_def) (auto simp: blank_file_def)

lemma wal_flush_cuts:
  assumes "wal_wf w" "length (ww_header_buf w) = 32" "32 \<le> ww_size w" "\<not> f_page_len (ww_file w) dvd 32" "\<forall>f. sync_all f = Ok ()"
  shows "\<exists>w'. wal_flush sync_all w = Ok w' \<and> ww_path w' = ww_path w \<and> file_wf (ww_file w') \<and> f_len (ww_file w') = 32 \<and>
    take 8 (drop 12 (file_bytes (ww_file w'))) = be_bytes 8 (ww_max_sequence w)"
proof -
  let ?h = "copy_into 12 (be_bytes 8 (ww_max_sequence w)) (copy_into 4 (be_bytes 8 (ww_min_sequence w)) (ww_header_buf w))"
  have wf: "file_wf (ww_file w)" "32 \<le> f_len (ww_file w)" using assms(1,3) by (simp_all add: wal_wf_def)
  have h: "length ?h = 32" "?h \<noteq> []" using assms(2) by (simp_all add: copy_into_length) (simp add: copy_into_def)
  have seq: "take 8 (drop 12 ?h) = be_bytes 8 (ww_max_sequence w)" using assms(2) by (simp add: copy_into_def)
  have "0 + length ?h < f_cap (ww_file w)" using h wf file_wfD(3)[OF wf(1)] by linarith
  from file_write_at_written[OF wf(1) this] obtain f' where f': "file_write_at (ww_file w) 0 ?h = Ok (f', 32)" "written (ww_file w) 0 ?h f'"
    unfolding h(1) by blast
  have bytes: "file_bytes f' = ?h" using written_bytes[OF wf(1) f'(2) _ h(2)] h(1) assms(4) by simp
  then have "f_len f' = 32" using h(1) length_file_bytes[of f'] by simp
  moreover have "file_wf f'" using f'(2) by (simp add: written_def)
  ultimately show ?thesis using f'(1) assms(5) seq bytes by (simp add: wal_flush_def Let_def)
qed

text \<open>C33: A segment that has reached its size is not rolled over to a new one: the manager writes its header, which
  cuts the file off behind it, and opens the same file again, in which no entry is left.\<close>

theorem wal_roll_loses_entries:
  assumes "wal_wf w" and "length (ww_header_buf w) = 32" and "SEGMENT_SIZE < ww_size w" and "\<not> f_page_len (ww_file w) dvd 32"
    and "\<forall>f. sync_all f = Ok ()" and "ww_path w = make_wal_file (wc_dir config) (ww_id w)"
  shows "\<exists>w' r. roll_wal_file sync_all lookup created \<lparr>wm_config = config, wm_current_dir = dir, wm_current_file = w\<rparr> =
      Ok \<lparr>wm_config = config, wm_current_dir = dir, wm_current_file = w'\<rparr> \<and>
    ww_path w' = ww_path w \<and> ww_size w' = 32 \<and> ww_max_sequence w' = ww_max_sequence w \<and>
    wal_reader_new oc (file_into_cursor (ww_file w')) = Ok r \<and> wal_entries oc r [] = Some (Ok [])"
proof -
  obtain fl where fl: "wal_flush sync_all w = Ok fl" "ww_path fl = ww_path w" "file_wf (ww_file fl)" "f_len (ww_file fl) = 32"
    "take 8 (drop 12 (file_bytes (ww_file fl))) = be_bytes 8 (ww_max_sequence w)"
    using wal_flush_cuts[OF assms(1,2) _ assms(4,5)] assms(3) by (auto simp: SEGMENT_SIZE_def)
  let ?h = "file_bytes (ww_file fl)"
  have rd: "file_read_at (ww_file fl) 0 32 = Ok ?h" using file_read_at_Ok[OF fl(3), of 0 32] fl(4) by simp
  define w' where "w' = \<lparr>ww_id = ww_id w, ww_file = ww_file fl, ww_size = 32, ww_path = ww_path w, ww_config = config, ww_header_buf = ?h,
     ww_min_sequence = from_be (take 8 (drop 4 ?h)), ww_max_sequence = ww_max_sequence w\<rparr>"
  have "wal_open sync_all (Some (Ok (ww_file fl))) created (ww_id w) (ww_path w) config = Ok w'"
    using rd fl(4,5) by (simp add: wal_open_def SEGMENT_HEADER_SIZE_def w'_def Let_def)
  then have roll: "roll_wal_file sync_all lookup created \<lparr>wm_config = config, wm_current_dir = dir, wm_current_file = w\<rparr> =
      Ok \<lparr>wm_config = config, wm_current_dir = dir, wm_current_file = w'\<rparr>"
    using assms(3) fl(1,2) by (simp add: roll_wal_file_def Let_def assms(6)[symmetric])
  obtain r where r: "wal_reader_new oc (file_into_cursor (ww_file fl)) = Ok r" "reads_from [] r"
    using wal_reader_new_Ok[OF fl(3), of ?h "[]" oc] fl(4) by auto
  have "wal_entries oc r [] = Some (Ok [])" using wal_entries_log[of undefined undefined "[]" r oc "[]"] r(2) by simp
  then show ?thesis using roll r(1) by (auto simp: w'_def)
qed

theorem wal_roll_loses_entries_witness:
  "\<exists>w' r. roll_wal_file (\<lambda>_. Ok ()) (\<lambda>_. None) Panic
      \<lparr>wm_config = \<lparr>wc_enabled = True, wc_dir = ''wal'', wc_sync = True\<rparr>, wm_current_dir = ''wal'',
       wm_current_file = \<lparr>ww_id = 1, ww_file = blank_file 4096 1073741825, ww_size = 1073741825, ww_path = make_wal_file ''wal'' 1,
         ww_config = \<lparr>wc_enabled = True, wc_dir = ''wal'', wc_sync = True\<rparr>, ww_header_buf = wal_header, ww_min_sequence = 0, ww_max_sequence = 7\<rparr>\<rparr> =
      Ok \<lparr>wm_config = \<lparr>wc_enabled = True, wc_dir = ''wal'', wc_sync = True\<rparr>, wm_current_dir = ''wal'', wm_current_file = w'\<rparr> \<and>
    ww_size w' = 32 \<and> wal_reader_new True (file_into_cursor (ww_file w')) = Ok r \<and> wal_entries True r [] = Some (Ok [])"
proof -
  let ?c = "\<lparr>wc_enabled = True, wc_dir = ''wal'', wc_sync = True\<rparr>"
  let ?w = "\<lparr>ww_id = 1, ww_file = blank_file 4096 1073741825, ww_size = 1073741825, ww_path = make_wal_file ''wal'' 1,
     ww_config = ?c, ww_header_buf = wal_header, ww_min_sequence = 0, ww_max_sequence = 7\<rparr>"
  have "wal_wf ?w" using blank_file_wf[of 4096 1073741825] by (simp add: wal_wf_def) (simp add: blank_file_def)
  moreover have "\<not> f_page_len (ww_file ?w) dvd 32" by (simp add: blank_file_def)
  ultimately show ?thesis
    using wal_roll_loses_entries[of ?w "\<lambda>_. Ok ()" ?c "\<lambda>_. None" Panic "''wal''" True] by (auto simp: SEGMENT_SIZE_def)
qed

end
