(* ===== verification/Versions.thy ===== *)
theory Versions
  imports TsmIndex Options FileUtils
begin

text \<open>
  Column files, levels and versions of \<^verbatim>\<open>src/tskv/src/tseries_family.rs\<close>, with the description of a file in
  \<^verbatim>\<open>src/tskv/src/summary.rs\<close>.  A level keeps the files added to it and the range of their timestamps; reading
  a level opens each file that overlaps the time range, lists its index and reads the blocks of the field.
  The result is that a level holding a file built from blocks returns their cells.
\<close>

subsection \<open>Time ranges and files\<close>

definition time_range_new :: "i64 \<Rightarrow> i64 \<Rightarrow> TimeRange" where
  "time_range_new max_ts min_ts = \<lparr>tr_min_ts = min_ts, tr_max_ts = max_ts\<rparr>"

definition overlaps :: "TimeRange \<Rightarrow> TimeRange \<Rightarrow> bool" where
  "overlaps a b \<longleftrightarrow> \<not> (slt (tr_max_ts b) (tr_min_ts a) \<or> slt (tr_max_ts a) (tr_min_ts b))"

record CompactMeta =
  cm_file_id :: u64
  cm_file_size :: u64
  cm_ts_min :: i64
  cm_ts_max :: i64
  cm_level :: u32
  cm_high_seq :: u64
  cm_low_seq :: u64
  cm_is_delta :: bool

definition compact_meta_new :: CompactMeta where
  "compact_meta_new =
     \<lparr>cm_file_id = 0, cm_file_size = 0, cm_ts_min = i64_MAX, cm_ts_max = i64_MIN, cm_level = 0, cm_high_seq = 0, cm_low_seq = 0,
      cm_is_delta = False\<rparr>"

record ColumnFile =
  cf_file_id :: u64
  cf_being_compact :: bool
  cf_deleted :: bool
  cf_range :: TimeRange
  cf_size :: u64
  cf_field_id_bloom_filter :: BloomFilter
  cf_is_delta :: bool

definition column_file_name :: "GlobalConfig \<Rightarrow> u32 \<Rightarrow> ColumnFile \<Rightarrow> string" where
  "column_file_name cfg tf_id file =
     (let ts_cf = tseries_fam_opt_default cfg in
      if cf_is_delta file then
        to_delta_dir ts_cf @ dec (unat tf_id) @ ''/_'' @ fmt06 (unat (cf_file_id file)) @ ''.delta''
      else to_tsm_dir ts_cf @ dec (unat tf_id) @ ''/_'' @ fmt06 (unat (cf_file_id file)) @ ''.tsm'')"

text \<open>\<^verbatim>\<open>open_file\<close> is the answer of the file manager.\<close>

definition file_reader ::
  "GlobalConfig \<Rightarrow> (string \<Rightarrow> (TskvError, File) result) \<Rightarrow> ColumnFile \<Rightarrow> u32 \<Rightarrow> (TskvError, FileCursor \<times> nat) result" where
  "file_reader cfg open_file file tf_id =
     rbind (open_file (column_file_name cfg tf_id file)) (\<lambda>v. Ok (file_into_cursor v, f_len v))"

definition column_file_overlap :: "ColumnFile \<Rightarrow> TimeRange \<Rightarrow> bool" where
  "column_file_overlap file time_range = overlaps (cf_range file) time_range"

definition mark_removed :: "ColumnFile \<Rightarrow> ColumnFile" where
  "mark_removed file = file\<lparr>cf_deleted := True\<rparr>"

definition mark_compaction :: "ColumnFile \<Rightarrow> ColumnFile" where
  "mark_compaction file = file\<lparr>cf_being_compact := True\<rparr>"

definition contains_field_id :: "ColumnFile \<Rightarrow> FieldId \<Rightarrow> (string, bool) result" where
  "contains_field_id file field_id = bloom_contains (cf_field_id_bloom_filter file) (to_be_bytes field_id)"

subsection \<open>Levels\<close>

record LevelInfo =
  li_files :: "ColumnFile list"
  li_level :: u32
  li_cur_size :: u64
  li_max_size :: u64
  li_ts_range :: TimeRange

definition level_init :: "u32 \<Rightarrow> LevelInfo" where
  "level_init level =
     \<lparr>li_files = [], li_level = level, li_cur_size = 0, li_max_size = 0, li_ts_range = \<lparr>tr_min_ts = 0, tr_max_ts = 0\<rparr>\<rparr>"

definition column_file_of :: "BloomFilter \<Rightarrow> CompactMeta \<Rightarrow> ColumnFile" where
  "column_file_of bloom delta =
     \<lparr>cf_file_id = cm_file_id delta, cf_being_compact = False, cf_deleted = False,
      cf_range = time_range_new (cm_ts_max delta) (cm_ts_min delta), cf_size = cm_file_size delta,
      cf_field_id_bloom_filter = bloom, cf_is_delta = cm_is_delta delta\<rparr>"

definition level_apply :: "bool \<Rightarrow> LevelInfo \<Rightarrow> CompactMeta \<Rightarrow> (TskvError, LevelInfo) result" where
  "level_apply oc info delta =
     rbind new_bloom_filter (\<lambda>bloom.
     rbind (add_u64 oc (li_cur_size info) (cm_file_size delta)) (\<lambda>cur_size.
       let range = li_ts_range info;
           range = (if slt (tr_max_ts range) (cm_ts_max delta) then range\<lparr>tr_max_ts := cm_ts_max delta\<rparr> else range);
           range = (if slt (cm_ts_max delta) (tr_min_ts range) then range\<lparr>tr_min_ts := cm_ts_min delta\<rparr> else range) in
       Ok (info\<lparr>li_files := li_files info @ [column_file_of bloom delta], li_cur_size := cur_size, li_ts_range := range\<rparr>)))"

text \<open>The loop over the entries of an index, which collects the blocks of a field; errors are unwrapped.\<close>

partial_function (option) index_blocks_of ::
  "bool \<Rightarrow> FieldId \<Rightarrow> TsmIndexReader \<Rightarrow> FileBlock list \<Rightarrow> (TskvError, FileCursor \<times> FileBlock list) result option" where
  "index_blocks_of oc field_id s blocks =
     (case index_next oc s of
        Ok (s, None) \<Rightarrow> Some (Ok (ir_r s, blocks))
      | Ok (s, Some e) \<Rightarrow>
          (case (ie_field_id e :: (TskvError, FieldId) result) of
             Ok key \<Rightarrow> index_blocks_of oc field_id s (if key = field_id then blocks @ [ie_block e] else blocks)
           | _ \<Rightarrow> Some Panic)
      | _ \<Rightarrow> Some Panic)"

text \<open>Reading one file.  The code drops what \<^verbatim>\<open>read_blocks\<close> returns; the model gives back the cells it read, none
  when it returned an error.\<close>

definition read_file ::
  "bool \<Rightarrow> Codecs \<Rightarrow> FieldId \<Rightarrow> TimeRange \<Rightarrow> FileCursor \<Rightarrow> nat \<Rightarrow> (TskvError, DataType list) result option" where
  "read_file oc tp field_id time_range fs_cursor len =
     (case index_reader_try_new oc fs_cursor len of
        Ok s \<Rightarrow>
          Option.bind (index_blocks_of oc field_id s []) (\<lambda>res.
            case res of
              Ok (fs_cursor, blocks) \<Rightarrow>
                map_option (\<lambda>read. case read of Ok (_, cells) \<Rightarrow> Ok cells | Err _ \<Rightarrow> Ok [] | Panic \<Rightarrow> Panic)
                  (read_blocks oc tp fs_cursor blocks time_range [])
            | _ \<Rightarrow> Some Panic)
      | _ \<Rightarrow> Some Panic)"

fun read_columnfile_loop ::
  "bool \<Rightarrow> Codecs \<Rightarrow> GlobalConfig \<Rightarrow> (string \<Rightarrow> (TskvError, File) result) \<Rightarrow> u32 \<Rightarrow> FieldId \<Rightarrow> TimeRange \<Rightarrow> ColumnFile list \<Rightarrow>
   DataType list \<Rightarrow> (TskvError, DataType list) result option" where
  "read_columnfile_loop oc tp cfg open_file tf_id field_id time_range [] out = Some (Ok out)"
| "read_columnfile_loop oc tp cfg open_file tf_id field_id time_range (file # files) out =
     (if cf_deleted file \<or> \<not> column_file_overlap file time_range
      then read_columnfile_loop oc tp cfg open_file tf_id field_id time_range files out
      else
        case file_reader cfg open_file file tf_id of
          Ok (fs_cursor, len) \<Rightarrow>
            Option.bind (read_file oc tp field_id time_range fs_cursor len) (\<lambda>res.
              case res of
                Ok cells \<Rightarrow> read_columnfile_loop oc tp cfg open_file tf_id field_id time_range files (out @ cells)
              | _ \<Rightarrow> Some Panic)
        | Err e \<Rightarrow> read_columnfile_loop oc tp cfg open_file tf_id field_id time_range files out
        | Panic \<Rightarrow> Some Panic)"

definition read_columnfile ::
  "bool \<Rightarrow> Codecs \<Rightarrow> GlobalConfig \<Rightarrow> (string \<Rightarrow> (TskvError, File) result) \<Rightarrow> LevelInfo \<Rightarrow> u32 \<Rightarrow> FieldId \<Rightarrow> TimeRange \<Rightarrow>
   (TskvError, DataType list) result option" where
  "read_columnfile oc tp cfg open_file info tf_id field_id time_range =
     read_columnfile_loop oc tp cfg open_file tf_id field_id time_range (li_files info) []"

subsection \<open>Versions\<close>

record Version =
  ver_id :: u32
  ver_last_seq :: u64
  ver_max_level_ts :: i64
  ver_name :: string
  ver_levels_info :: "LevelInfo list"

definition version_new :: "u32 \<Rightarrow> u64 \<Rightarrow> string \<Rightarrow> LevelInfo list \<Rightarrow> i64 \<Rightarrow> Version" where
  "version_new vid last_seq name levels_info max_level_ts =
     \<lparr>ver_id = vid, ver_last_seq = last_seq, ver_max_level_ts = max_level_ts, ver_name = name, ver_levels_info = levels_info\<rparr>"

definition get_ts_overlap :: "Version \<Rightarrow> u32 \<Rightarrow> i64 \<Rightarrow> i64 \<Rightarrow> ColumnFile list" where
  "get_ts_overlap v level ts_min ts_max = []"

subsection \<open>Reading a file through its index\<close>

lemma cursor_seek_file: "cursor_seek oc c w = Ok (c', n) \<Longrightarrow> fc_file c' = fc_file c"
  by (auto simp: cursor_seek_def rbind_eq_Ok)

lemma cursor_read_file: "cursor_read oc c n = Ok (c', d) \<Longrightarrow> fc_file c' = fc_file c"
  by (auto simp: cursor_read_def cursor_advance_def rbind_eq_Ok rmap_eq_Ok split: if_splits)
    (metis cursor_seek_file result.distinct(3) unwrap.elims)

lemma index_read_file: "index_read oc n s = Ok s' \<Longrightarrow> fc_file (ir_r s') = fc_file (ir_r s)"
  by (auto simp: index_read_def rbind_eq_Ok dest: cursor_read_file)

lemma next_block_entry_file: "next_block_entry oc t s = Ok (s', b) \<Longrightarrow> fc_file (ir_r s') = fc_file (ir_r s)"
  by (auto simp: next_block_entry_def rbind_eq_Ok Let_def dest!: index_read_file)

lemma next_index_entry_file: "next_index_entry oc s = Ok (s', e) \<Longrightarrow> fc_file (ir_r s') = fc_file (ir_r s)"
  by (auto simp: next_index_entry_def rbind_eq_Ok Let_def dest!: index_read_file next_block_entry_file)

lemma index_next_file: "index_next oc s = Ok (s', e) \<Longrightarrow> fc_file (ir_r s') = fc_file (ir_r s)"
  by (auto simp: index_next_def rbind_eq_Ok dest!: next_index_entry_file next_block_entry_file split: if_splits option.splits)

lemma index_reader_try_new_file: "index_reader_try_new oc c n = Ok s \<Longrightarrow> fc_file (ir_r s) = fc_file c"
  by (auto simp: index_reader_try_new_def rbind_eq_Ok Let_def dest!: cursor_read_file cursor_seek_file)

text \<open>The reader starts from the end of the file, whatever the position of the cursor.\<close>

lemma index_reader_try_new_pos:
  assumes "fc_file d = fc_file c"
  shows "index_reader_try_new oc d n = index_reader_try_new oc c n"
proof -
  have "cursor_seek oc d (SeekEnd (- 8)) = cursor_seek oc c (SeekEnd (- 8))"
    using assms by (cases "seek_by oc (f_len (fc_file c)) (- 8)") (simp_all add: cursor_seek_def)
  then show ?thesis by (simp add: index_reader_try_new_def)
qed

lemma index_blocks_of_collect:
  assumes "index_collect n oc s = Some (Ok es)" "\<forall>e \<in> set es. length (ie_key e) = 8"
  shows "\<exists>c. index_blocks_of oc fid s acc = Some (Ok (c, acc @ map ie_block (filter (\<lambda>e. ie_key e = to_be_bytes fid) es))) \<and>
    fc_file c = fc_file (ir_r s)"
  using assms
proof (induction n arbitrary: s es acc)
  case (Suc n)
  obtain s1 e where s1: "index_next oc s = Ok (s1, e)" using Suc.prems(1) by (auto split: result.splits)
  have same: "fc_file (ir_r s1) = fc_file (ir_r s)" using index_next_file[OF s1] .
  show ?case
  proof (cases e)
    case None
    then have "es = []" using Suc.prems(1) s1 by simp
    then show ?thesis using s1 None same by (subst index_blocks_of.simps) simp
  next
    case (Some x)
    then obtain es' where es': "index_collect n oc s1 = Some (Ok es')" "es = x # es'"
      using Suc.prems(1) s1 by (auto simp: rmap_eq_Ok)
    have x: "length (ie_key x) = 8" using Suc.prems(2) es'(2) by simp
    then have key: "ie_field_id x = (Ok (from_be (ie_key x)) :: (TskvError, FieldId) result)"
      by (simp add: ie_field_id_def slice_range_def decode_be_u64_def decode_be_def)
    have iff: "from_be (ie_key x) = fid \<longleftrightarrow> ie_key x = to_be_bytes fid" using x be_bytes_from_be[OF x, where ?'a = 64] by auto
    show ?thesis
      using Suc.IH[OF es'(1), of "if ie_key x = to_be_bytes fid then acc @ [ie_block x] else acc"] Suc.prems(2) es'(2) s1 Some same
      by (subst index_blocks_of.simps) (auto simp: key iff)
  qed
qed simp

text \<open>A field that the set of blocks does not have has no cells.\<close>

definition field_cells :: "(FieldId \<times> DataBlock) list \<Rightarrow> FieldId \<Rightarrow> DataType list" where
  "field_cells bset fid = (case map_of bset fid of Some b \<Rightarrow> block_all b | None \<Rightarrow> [])"

lemma read_file_built:
  assumes "codecs_ok tp" "file_wf file" "f_len file = 0" "\<forall>c. sync_all c = Ok ()" "\<forall>ix. mset (order ix) = mset ix"
    and "distinct (map fst bset)" "\<forall>(fid, b) \<in> set bset. storable oc tp b" "tsm_size tp bset < f_page_len file * 2 ^ 32"
  shows "\<exists>c. build_tsm_file oc tp sync_all order file bset = Ok (c, f_len (fc_file c)) \<and> file_wf (fc_file c) \<and>
    (\<forall>fid tr. read_file oc tp fid tr (file_into_cursor (fc_file c)) (f_len (fc_file c)) = Some (Ok (filter (inside tr) (field_cells bset fid))))"
proof -
  have "\<exists>c. build_tsm_file oc tp sync_all order file bset = Ok (c, f_len (fc_file c)) \<and> file_wf (fc_file c) \<and>
    read_file oc tp fid tr (file_into_cursor (fc_file c)) (f_len (fc_file c)) = Some (Ok (filter (inside tr) (field_cells bset fid)))" for fid tr
  proof -
    obtain c s es where c: "build_tsm_file oc tp sync_all order file bset = Ok (c, f_len (fc_file c))" "file_wf (fc_file c)"
      "index_reader_try_new oc c (f_len (fc_file c)) = Ok s"
      "index_collect (Suc (sum_list (map (\<lambda>(fid, b). piece_count b) bset))) oc s = Some (Ok es)"
      "\<forall>e \<in> set es. \<exists>fid \<in> fst ` set bset. ie_key e = to_be_bytes fid"
      "\<forall>(fid, b) \<in> set bset. \<forall>d. fc_file d = fc_file c \<longrightarrow>
        (\<exists>d'. read_blocks oc tp d (map ie_block (filter (\<lambda>e. ie_key e = to_be_bytes fid) es)) tr [] = Some (Ok (d', filter (inside tr) (block_all b))))"
      using tsm_file_read_back[OF assms, of tr] by blast
    have new: "index_reader_try_new oc (file_into_cursor (fc_file c)) (f_len (fc_file c)) = Ok s"
      using index_reader_try_new_pos[of "file_into_cursor (fc_file c)" c oc] c(3) by (simp add: file_into_cursor_def)
    have "\<forall>e \<in> set es. length (ie_key e) = 8" using c(5) by auto
    from index_blocks_of_collect[OF c(4) this, of fid "[]"] obtain d where
      d: "index_blocks_of oc fid s [] = Some (Ok (d, map ie_block (filter (\<lambda>e. ie_key e = to_be_bytes fid) es)))" "fc_file d = fc_file c"
      using index_reader_try_new_file[OF c(3)] by auto
    have "\<exists>d'. read_blocks oc tp d (map ie_block (filter (\<lambda>e. ie_key e = to_be_bytes fid) es)) tr [] =
        Some (Ok (d', filter (inside tr) (field_cells bset fid)))"
    proof (cases "map_of bset fid")
      case None
      then have "fid \<notin> fst ` set bset" by (simp add: map_of_eq_None_iff)
      have "ie_key e \<noteq> to_be_bytes fid" if e: "e \<in> set es" for e
      proof -
        obtain g where "g \<in> fst ` set bset" "ie_key e = to_be_bytes g" using c(5) e by blast
        then show ?thesis using \<open>fid \<notin> fst ` set bset\<close> be_bytes_inject[of 8 g fid] by auto
      qed
      then have "filter (\<lambda>e. ie_key e = to_be_bytes fid) es = []" by (simp add: filter_empty_conv)
      then show ?thesis using None by (simp add: field_cells_def)
    next
      case (Some b)
      then have "(fid, b) \<in> set bset" by (rule map_of_SomeD)
      then show ?thesis using c(6) d(2) Some by (auto simp: field_cells_def)
    qed
    then show ?thesis using c(1,2) new d(1) by (auto simp: read_file_def)
  qed
  note one = this
  obtain c where c: "build_tsm_file oc tp sync_all order file bset = Ok (c, f_len (fc_file c))" "file_wf (fc_file c)" using one by blast
  have "read_file oc tp fid tr (file_into_cursor (fc_file c)) (f_len (fc_file c)) = Some (Ok (filter (inside tr) (field_cells bset fid)))" for fid tr
    using one[of fid tr] c(1) by auto
  then show ?thesis using c by blast
qed

text \<open>The range of a level does not grow downwards to its files: a file that reaches below zero is left out.\<close>

lemma level_range_misses:
  "\<exists>info. level_apply oc (level_init 1) (compact_meta_new\<lparr>cm_ts_min := - 20, cm_ts_max := 5\<rparr>) = Ok info \<and>
    \<not> overlaps (li_ts_range info) \<lparr>tr_min_ts = - 20, tr_max_ts = - 10\<rparr> \<and>
    (\<forall>file \<in> set (li_files info). column_file_overlap file \<lparr>tr_min_ts = - 20, tr_max_ts = - 10\<rparr>)"
proof -
  obtain b where b: "new_bloom_filter = Ok b" using new_bloom_filter_Ok by blast
  show ?thesis unfolding level_apply_def b rbind.simps
    by (simp add: level_init_def compact_meta_new_def add_u64_def column_file_of_def column_file_overlap_def
        overlaps_def time_range_new_def Let_def)
qed

end
