(* ===== verification/Families.thy ===== *)
theory Families
  imports Versions
begin

text \<open>
  The time series family of \<^verbatim>\<open>src/tskv/src/tseries_family.rs\<close>.  The caches and versions are shared through
  reference counters, and the family and its super version must agree on them; they are addresses into an
  explicit store, which also has the global queue of flush requests.  The results are an invariant of the
  family that its operations keep, and that no cell is lost or duplicated on its way from a write through the
  mutable cache, the immutable caches and the queue.
\<close>

subsection \<open>The store\<close>

record FlushReq =
  fr_mems :: "(u32 \<times> nat) list"
  fr_wait_req :: u64

record Store =
  st_mems :: "MemCache list"
  st_versions :: "Version list"
  st_flush_req :: "FlushReq list"

definition new_mem :: "MemCache \<Rightarrow> Store \<Rightarrow> nat \<times> Store" where
  "new_mem mem st = (length (st_mems st), st\<lparr>st_mems := st_mems st @ [mem]\<rparr>)"

definition set_mem :: "nat \<Rightarrow> MemCache \<Rightarrow> Store \<Rightarrow> Store" where
  "set_mem a mem st = st\<lparr>st_mems := (st_mems st)[a := mem]\<rparr>"

record SuperVersion =
  sv_id :: u32
  sv_delta_mut_cache :: nat
  sv_mut_cache :: nat
  sv_immut_cache :: "nat list"
  sv_cur_version :: nat
  sv_opt :: TseriesFamOpt
  sv_version_id :: u64

record TseriesFamily =
  tf_tf_id :: u32
  tf_delta_mut_cache :: nat
  tf_mut_cache :: nat
  tf_immut_cache :: "nat list"
  tf_super_version :: SuperVersion
  tf_super_version_id :: u64
  tf_version :: nat
  tf_opts :: TseriesFamOpt
  tf_seq_no :: u64
  tf_immut_ts_min :: i64
  tf_mut_ts_max :: i64

subsection \<open>Operations\<close>

definition super_version_new :: "u32 \<Rightarrow> nat \<Rightarrow> nat \<Rightarrow> nat list \<Rightarrow> nat \<Rightarrow> TseriesFamOpt \<Rightarrow> u64 \<Rightarrow> SuperVersion" where
  "super_version_new sid delta_mut_cache mut_cache immut_cache cur_version opt version_id =
     \<lparr>sv_id = sid, sv_delta_mut_cache = delta_mut_cache, sv_mut_cache = mut_cache, sv_immut_cache = immut_cache,
      sv_cur_version = cur_version, sv_opt = opt, sv_version_id = version_id\<rparr>"

definition tseries_family_new ::
  "GlobalConfig \<Rightarrow> u32 \<Rightarrow> string \<Rightarrow> MemCache \<Rightarrow> nat \<Rightarrow> TseriesFamOpt \<Rightarrow> Store \<Rightarrow> TseriesFamily \<times> Store" where
  "tseries_family_new cfg tf_id name cache version opt st =
     (let (mm, st) = new_mem cache st;
          seq = ver_last_seq (st_versions st ! version);
          max_level_ts = ver_max_level_ts (st_versions st ! version);
          (delta_mm, st) = new_mem (mem_cache_new tf_id (cfg_max_memcache_size cfg) seq True) st in
      (\<lparr>tf_tf_id = tf_id, tf_delta_mut_cache = delta_mm, tf_mut_cache = mm, tf_immut_cache = [],
        tf_super_version = super_version_new tf_id delta_mm mm [] version opt 0, tf_super_version_id = 0, tf_version = version,
        tf_opts = opt, tf_seq_no = seq, tf_immut_ts_min = max_level_ts, tf_mut_ts_max = i64_MIN\<rparr>, st))"

text \<open>The caller's cache is passed in the place of the delta cache and the delta cache in the place of the mutable
  one.\<close>

definition tf_switch_memcache :: "nat \<Rightarrow> TseriesFamily \<Rightarrow> Store \<Rightarrow> TseriesFamily \<times> Store" where
  "tf_switch_memcache cache tf st =
     (let frozen = sv_mut_cache (tf_super_version tf);
          st = set_mem frozen (mem_switch_to_immutable (st_mems st ! frozen)) st;
          immut_cache = tf_immut_cache tf @ [tf_mut_cache tf];
          sid = tf_super_version_id tf + 1;
          vers = super_version_new (tf_tf_id tf) cache (tf_delta_mut_cache tf) immut_cache (tf_version tf) (tf_opts tf) sid in
      (tf\<lparr>tf_immut_cache := immut_cache, tf_super_version_id := sid, tf_super_version := vers, tf_mut_cache := cache\<rparr>, st))"

text \<open>A new super version from the current state of the family.\<close>

definition tf_publish :: "TseriesFamily \<Rightarrow> TseriesFamily" where
  "tf_publish tf =
     (let sid = tf_super_version_id tf + 1 in
      tf\<lparr>tf_super_version_id := sid,
         tf_super_version := super_version_new (tf_tf_id tf) (tf_delta_mut_cache tf) (tf_mut_cache tf) (tf_immut_cache tf)
           (tf_version tf) (tf_opts tf) sid\<rparr>)"

definition tf_switch_to_immutable :: "GlobalConfig \<Rightarrow> TseriesFamily \<Rightarrow> Store \<Rightarrow> TseriesFamily \<times> Store" where
  "tf_switch_to_immutable cfg tf st =
     (let frozen = sv_mut_cache (tf_super_version tf);
          st = set_mem frozen (mem_switch_to_immutable (st_mems st ! frozen)) st;
          tf = tf\<lparr>tf_immut_cache := tf_immut_cache tf @ [tf_mut_cache tf]\<rparr>;
          (mm, st) = new_mem (mem_cache_new (tf_tf_id tf) (cfg_max_memcache_size cfg) (tf_seq_no tf) False) st in
      (tf_publish (tf\<lparr>tf_mut_cache := mm\<rparr>), st))"

text \<open>Queueing a request; \<^verbatim>\<open>send\<close> fails when the receiver is gone.\<close>

definition send_flush_req :: "bool \<Rightarrow> FlushReq \<Rightarrow> Store \<Rightarrow> (TskvError, Store) result" where
  "send_flush_req open_rx req st =
     (if open_rx then Ok (st\<lparr>st_flush_req := st_flush_req st @ [req]\<rparr>) else Panic)"

definition wrap_delta_flush_req :: "GlobalConfig \<Rightarrow> bool \<Rightarrow> TseriesFamily \<Rightarrow> Store \<Rightarrow> (TskvError, TseriesFamily \<times> Store) result" where
  "wrap_delta_flush_req cfg open_rx tf st =
     (let req_mem = [(tf_tf_id tf, tf_delta_mut_cache tf)];
          (mm, st) = new_mem (mem_cache_new (tf_tf_id tf) (cfg_max_memcache_size cfg) (tf_seq_no tf) True) st;
          tf = tf_publish (tf\<lparr>tf_delta_mut_cache := mm\<rparr>) in
      rbind (send_flush_req open_rx \<lparr>fr_mems = req_mem, fr_wait_req = 0\<rparr> st) (\<lambda>st. Ok (tf, st)))"

definition wrap_flush_req :: "bool \<Rightarrow> TseriesFamily \<Rightarrow> Store \<Rightarrow> (TskvError, TseriesFamily \<times> Store) result" where
  "wrap_flush_req open_rx tf st =
     (let req_mem = map (\<lambda>i. (tf_tf_id tf, i)) (tf_immut_cache tf);
          tf = tf_publish (tf\<lparr>tf_immut_cache := []\<rparr>) in
      rbind (send_flush_req open_rx \<lparr>fr_mems = req_mem, fr_wait_req = 0\<rparr> st) (\<lambda>st. Ok (tf, st)))"

text \<open>The result of \<^verbatim>\<open>insert_raw\<close> is dropped.\<close>

definition put_into :: "bool \<Rightarrow> u64 \<Rightarrow> nat \<Rightarrow> u64 \<Rightarrow> FieldId \<Rightarrow> i64 \<Rightarrow> ValueType \<Rightarrow> bytes \<Rightarrow> Store \<Rightarrow> (TskvError, Store) result" where
  "put_into oc cell_size a seq fid ts dtype val st =
     (case insert_raw oc cell_size (st_mems st ! a) seq fid ts dtype val of
        Ok mem \<Rightarrow> Ok (set_mem a mem st)
      | Err _ \<Rightarrow> Ok st
      | Panic \<Rightarrow> Panic)"

definition put_route ::
  "bool \<Rightarrow> u64 \<Rightarrow> FieldId \<Rightarrow> bytes \<Rightarrow> ValueType \<Rightarrow> u64 \<Rightarrow> i64 \<Rightarrow> TseriesFamily \<Rightarrow> Store \<Rightarrow> (TskvError, TseriesFamily \<times> Store) result" where
  "put_route oc cell_size fid val dtype seq ts tf st =
     (let tf = (if tf_immut_ts_min tf = i64_MIN then tf\<lparr>tf_immut_ts_min := ts\<rparr> else tf) in
      if sle (tf_immut_ts_min tf) ts then
        let tf = (if slt (tf_mut_ts_max tf) ts then tf\<lparr>tf_mut_ts_max := ts\<rparr> else tf) in
        rbind (put_into oc cell_size (sv_mut_cache (tf_super_version tf)) seq fid ts dtype val st) (\<lambda>st. Ok (tf, st))
      else
        rbind (put_into oc cell_size (sv_delta_mut_cache (tf_super_version tf)) seq fid ts dtype val st) (\<lambda>st. Ok (tf, st)))"

definition put_freeze :: "GlobalConfig \<Rightarrow> bool \<Rightarrow> TseriesFamily \<Rightarrow> Store \<Rightarrow> (TskvError, TseriesFamily \<times> Store) result" where
  "put_freeze cfg open_rx tf st =
     (if mem_is_full (st_mems st ! sv_mut_cache (tf_super_version tf)) then
        let (tf, st) = tf_switch_to_immutable cfg tf st in
        if length (tf_immut_cache tf) \<ge> cfg_max_immemcache_num cfg then
          let tf = tf\<lparr>tf_immut_ts_min := tf_mut_ts_max tf\<rparr>;
              st = st\<lparr>st_versions := (st_versions st)[tf_version tf := (st_versions st ! tf_version tf)\<lparr>ver_max_level_ts := tf_mut_ts_max tf\<rparr>]\<rparr> in
          wrap_flush_req open_rx tf st
        else Ok (tf, st)
      else Ok (tf, st))"

definition put_mutcache ::
  "bool \<Rightarrow> u64 \<Rightarrow> GlobalConfig \<Rightarrow> bool \<Rightarrow> FieldId \<Rightarrow> bytes \<Rightarrow> ValueType \<Rightarrow> u64 \<Rightarrow> i64 \<Rightarrow> TseriesFamily \<Rightarrow> Store \<Rightarrow>
   (TskvError, TseriesFamily \<times> Store) result" where
  "put_mutcache oc cell_size cfg open_rx fid val dtype seq ts tf st =
     rbind (put_route oc cell_size fid val dtype seq ts tf st) (\<lambda>(tf, st).
     rbind (if sle (tf_immut_ts_min tf) ts \<and> mc_data_cache (st_mems st ! tf_delta_mut_cache tf) \<noteq> Map.empty
            then wrap_delta_flush_req cfg open_rx tf st else Ok (tf, st)) (\<lambda>(tf, st).
     rbind (put_freeze cfg open_rx tf st) (\<lambda>(tf, st).
       if mem_is_full (st_mems st ! sv_delta_mut_cache (tf_super_version tf)) then wrap_delta_flush_req cfg open_rx tf st
       else Ok (tf, st))))"

text \<open>Deleting a range from one cache, and from all caches of a family.\<close>

definition delete_from :: "TimeRange \<Rightarrow> MemCache \<Rightarrow> MemCache" where
  "delete_from time_range mem =
     mem\<lparr>mc_data_cache := (\<lambda>fid. map_option (\<lambda>e. if mem_entry_overlap e time_range then delete_data_cell e time_range else e)
       (mc_data_cache mem fid))\<rparr>"

fun delete_each :: "TimeRange \<Rightarrow> nat list \<Rightarrow> Store \<Rightarrow> Store" where
  "delete_each time_range [] st = st"
| "delete_each time_range (a # as) st = delete_each time_range as (set_mem a (delete_from time_range (st_mems st ! a)) st)"

definition delete_cache :: "TimeRange \<Rightarrow> TseriesFamily \<Rightarrow> Store \<Rightarrow> Store" where
  "delete_cache time_range tf st =
     delete_each time_range (tf_mut_cache tf # tf_delta_mut_cache tf # tf_immut_cache tf) st"

subsection \<open>The invariant\<close>

definition fam_addrs :: "TseriesFamily \<Rightarrow> nat list" where
  "fam_addrs tf = tf_delta_mut_cache tf # tf_mut_cache tf # tf_immut_cache tf"

definition queued :: "Store \<Rightarrow> nat list" where
  "queued st = map snd (concat (map fr_mems (st_flush_req st)))"

text \<open>The super version shows the caches of the family.\<close>

definition published :: "TseriesFamily \<Rightarrow> bool" where
  "published tf \<longleftrightarrow> tf_super_version tf = super_version_new (tf_tf_id tf) (tf_delta_mut_cache tf) (tf_mut_cache tf) (tf_immut_cache tf)
     (tf_version tf) (tf_opts tf) (tf_super_version_id tf)"

text \<open>No cache is held twice, by the family, the queue or the owners of the addresses \<^verbatim>\<open>others\<close>.\<close>

definition family_wf :: "nat list \<Rightarrow> Store \<Rightarrow> TseriesFamily \<Rightarrow> bool" where
  "family_wf others st tf \<longleftrightarrow> published tf \<and> distinct (fam_addrs tf @ queued st @ others) \<and>
     (\<forall>a \<in> set (fam_addrs tf @ queued st @ others). a < length (st_mems st) \<and> mem_wf (st_mems st ! a)) \<and>
     tf_version tf < length (st_versions st)"

text \<open>The cells of a field in the caches of the family and of the queue.\<close>

definition live :: "Store \<Rightarrow> TseriesFamily \<Rightarrow> FieldId \<Rightarrow> DataType multiset" where
  "live st tf fid = (\<Sum>a\<leftarrow>fam_addrs tf @ queued st. mset (mem_cells (st_mems st ! a) fid))"

text \<open>A step that keeps the invariant, the cells, and the caches of others.\<close>

definition keeps :: "nat list \<Rightarrow> TseriesFamily \<Rightarrow> Store \<Rightarrow> TseriesFamily \<Rightarrow> Store \<Rightarrow> bool" where
  "keeps others tf st tf' st' \<longleftrightarrow> (family_wf others st tf \<longrightarrow>
     family_wf others st' tf' \<and> (\<forall>fid. live st' tf' fid = live st tf fid) \<and> (\<forall>a \<in> set others. st_mems st' ! a = st_mems st ! a) \<and>
     tf_tf_id tf' = tf_tf_id tf \<and> tf_version tf' = tf_version tf)"

lemma keeps_refl: "keeps others tf st tf st"
  by (simp add: keeps_def)

lemma keeps_trans: "keeps others tf st tf1 st1 \<Longrightarrow> keeps others tf1 st1 tf2 st2 \<Longrightarrow> keeps others tf st tf2 st2"
  by (auto simp: keeps_def)

lemma published_publish [simp]: "published (tf_publish tf)"
  by (simp add: published_def tf_publish_def Let_def super_version_new_def)

lemma fam_addrs_publish [simp]: "fam_addrs (tf_publish tf) = fam_addrs tf" "tf_tf_id (tf_publish tf) = tf_tf_id tf"
  "tf_version (tf_publish tf) = tf_version tf" "tf_immut_cache (tf_publish tf) = tf_immut_cache tf"
  "tf_delta_mut_cache (tf_publish tf) = tf_delta_mut_cache tf" "tf_mut_cache (tf_publish tf) = tf_mut_cache tf"
  by (simp_all add: fam_addrs_def tf_publish_def Let_def)

lemma publishedD:
  assumes "published tf"
  shows "sv_mut_cache (tf_super_version tf) = tf_mut_cache tf" "sv_delta_mut_cache (tf_super_version tf) = tf_delta_mut_cache tf"
  using assms by (simp_all add: published_def super_version_new_def)

lemma mem_cells_mset_immutable: "mset (mem_cells (mem_switch_to_immutable m) fid) = mset (mem_cells m fid)"
  by (simp add: mem_cells_def mem_switch_to_immutable_def split: option.splits)

lemma mem_wf_switch: "mem_wf m \<Longrightarrow> mem_wf (mem_switch_to_immutable m)"
  by (auto simp: mem_wf_def mem_switch_to_immutable_def entry_wf_def)

text \<open>The addresses are permuted between the family and the queue and extended by new, empty caches; the caches that
  were there keep their cells.\<close>

lemma keeps_move:
  assumes "published tf'" "tf_tf_id tf' = tf_tf_id tf" "tf_version tf' = tf_version tf" "length (st_versions st') = length (st_versions st)"
    and addrs: "mset (fam_addrs tf' @ queued st') = mset (fam_addrs tf @ queued st @ [length (st_mems st)..<length (st_mems st')])"
    and len: "length (st_mems st) \<le> length (st_mems st')"
    and old: "\<And>a. family_wf others st tf \<Longrightarrow> a < length (st_mems st) \<Longrightarrow> mem_wf (st_mems st ! a) \<Longrightarrow>
      mem_wf (st_mems st' ! a) \<and> (\<forall>fid. mset (mem_cells (st_mems st' ! a) fid) = mset (mem_cells (st_mems st ! a) fid))"
    and oth: "\<And>a. family_wf others st tf \<Longrightarrow> a \<in> set others \<Longrightarrow> st_mems st' ! a = st_mems st ! a"
    and new: "\<And>a. length (st_mems st) \<le> a \<Longrightarrow> a < length (st_mems st') \<Longrightarrow> mem_wf (st_mems st' ! a) \<and> (\<forall>fid. mem_cells (st_mems st' ! a) fid = [])"
  shows "keeps others tf st tf' st'"
  unfolding keeps_def
proof (intro impI conjI allI ballI)
  assume wf: "family_wf others st tf"
  let ?A = "fam_addrs tf @ queued st" and ?B = "fam_addrs tf' @ queued st'" and ?N = "[length (st_mems st)..<length (st_mems st')]"
  have lt: "a < length (st_mems st) \<and> mem_wf (st_mems st ! a)" if "a \<in> set (?A @ others)" for a
    using wf that by (auto simp: family_wf_def)
  have set: "set ?B = set ?A \<union> {length (st_mems st)..<length (st_mems st')}"
    using mset_eq_setD[OF addrs] by auto
  have dA: "distinct (?A @ others)" using wf by (simp add: family_wf_def)
  have "distinct (?A @ ?N)" using dA lt by fastforce
  then have dB: "distinct ?B" using mset_eq_imp_distinct_iff[OF addrs] by simp
  have inter: "set ?B \<inter> set others = {}" using dA lt unfolding set by fastforce
  have ok: "a < length (st_mems st') \<and> mem_wf (st_mems st' ! a)" if "a \<in> set (?B @ others)" for a
  proof (cases "a < length (st_mems st)")
    case True
    then have "a \<in> set (?A @ others)" using that set by auto
    then have "mem_wf (st_mems st ! a)" using lt by blast
    then show ?thesis using old[OF wf True] True len by simp
  next
    case False
    then have no: "a \<notin> set (?A @ others)" using lt by blast
    then have "a \<in> set ?B" using that by auto
    then have "a \<in> {length (st_mems st)..<length (st_mems st')}" using no unfolding set by auto
    then show ?thesis using new by auto
  qed
  have "distinct (?B @ others)" using dB inter dA by auto
  then show "family_wf others st' tf'" using ok wf assms(1,3,4) by (auto simp: family_wf_def)
  fix fid
  let ?f = "\<lambda>a. mset (mem_cells (st_mems st ! a) fid)" and ?g = "\<lambda>a. mset (mem_cells (st_mems st' ! a) fid)"
  have "live st' tf' fid = sum_mset (image_mset ?g (mset ?B))" unfolding live_def by (simp flip: sum_mset_sum_list)
  also have "\<dots> = (\<Sum>a\<leftarrow>?A @ ?N. ?g a)" unfolding addrs[unfolded append_assoc[symmetric]] by (simp only: sum_mset_sum_list[symmetric] mset_map)
  also have "\<dots> = (\<Sum>a\<leftarrow>?A. ?g a) + (\<Sum>a\<leftarrow>?N. ?g a)" by simp
  also have "map ?g ?N = map (\<lambda>_. {#}) ?N" using new by (intro map_cong) auto
  also have "(\<Sum>a\<leftarrow>?A. ?g a) = (\<Sum>a\<leftarrow>?A. ?f a)"
    using old[OF wf] lt by (intro arg_cong[where f = sum_list] map_cong) auto
  finally show "live st' tf' fid = live st tf fid" by (simp add: live_def sum_list_triv)
next
  fix a assume "family_wf others st tf" "a \<in> set others"
  then show "st_mems st' ! a = st_mems st ! a" by (rule oth)
qed (use assms in simp_all)

lemma wrap_delta_keeps:
  assumes "wrap_delta_flush_req cfg open_rx tf st = Ok (tf', st')"
  shows "keeps others tf st tf' st'"
proof -
  let ?m = "mem_cache_new (tf_tf_id tf) (cfg_max_memcache_size cfg) (tf_seq_no tf) True" and ?n = "length (st_mems st)"
  have tf': "tf' = tf_publish (tf\<lparr>tf_delta_mut_cache := ?n\<rparr>)"
    and st': "st' = st\<lparr>st_mems := st_mems st @ [?m], st_flush_req := st_flush_req st @ [\<lparr>fr_mems = [(tf_tf_id tf, tf_delta_mut_cache tf)], fr_wait_req = 0\<rparr>]\<rparr>"
    using assms by (auto simp: wrap_delta_flush_req_def new_mem_def send_flush_req_def split: if_splits)
  show ?thesis
    by (rule keeps_move) (auto simp: tf' st' fam_addrs_def queued_def nth_append family_wf_def)
qed

lemma wrap_flush_keeps:
  assumes "wrap_flush_req open_rx tf st = Ok (tf', st')"
  shows "keeps others tf st tf' st'"
proof -
  have tf': "tf' = tf_publish (tf\<lparr>tf_immut_cache := []\<rparr>)"
    and st': "st' = st\<lparr>st_flush_req := st_flush_req st @ [\<lparr>fr_mems = map (\<lambda>i. (tf_tf_id tf, i)) (tf_immut_cache tf), fr_wait_req = 0\<rparr>]\<rparr>"
    using assms by (auto simp: wrap_flush_req_def send_flush_req_def split: if_splits)
  have "map snd (map (\<lambda>i. (tf_tf_id tf, i)) (tf_immut_cache tf)) = tf_immut_cache tf" by (simp add: comp_def)
  then show ?thesis
    by (intro keeps_move) (auto simp: tf' st' fam_addrs_def queued_def)
qed

lemma switch_to_immutable_keeps:
  assumes "tf_switch_to_immutable cfg tf st = (tf', st')"
  shows "keeps others tf st tf' st'"
proof (cases "published tf \<and> tf_mut_cache tf < length (st_mems st)")
  case True
  let ?m = "mem_cache_new (tf_tf_id tf) (cfg_max_memcache_size cfg) (tf_seq_no tf) False" and ?n = "length (st_mems st)" and ?a = "tf_mut_cache tf"
  have tf': "tf' = tf_publish (tf\<lparr>tf_immut_cache := tf_immut_cache tf @ [?a], tf_mut_cache := ?n\<rparr>)"
    and st': "st' = st\<lparr>st_mems := (st_mems st)[?a := mem_switch_to_immutable (st_mems st ! ?a)] @ [?m]\<rparr>"
    using assms True by (auto simp: tf_switch_to_immutable_def new_mem_def set_mem_def publishedD Let_def)
  have at: "st_mems st' ! a = (if a = ?a then mem_switch_to_immutable (st_mems st ! ?a) else st_mems st ! a)" if "a < ?n" for a
    using that by (simp add: st' nth_append nth_list_update)
  show ?thesis
  proof (rule keeps_move)
    fix a assume a: "a < ?n" "mem_wf (st_mems st ! a)"
    then show "mem_wf (st_mems st' ! a) \<and> (\<forall>fid. mset (mem_cells (st_mems st' ! a) fid) = mset (mem_cells (st_mems st ! a) fid))"
      by (auto simp: at mem_wf_switch mem_cells_mset_immutable)
  next
    fix a assume "family_wf others st tf" "a \<in> set others"
    then have "a < ?n" "a \<noteq> ?a" by (auto simp: family_wf_def fam_addrs_def)
    then show "st_mems st' ! a = st_mems st ! a" by (simp add: at)
  qed (auto simp: tf' st' fam_addrs_def queued_def nth_append)
next
  case False
  then show ?thesis by (auto simp: keeps_def family_wf_def fam_addrs_def)
qed

lemma keeps_fields: "keeps others tf st (tf\<lparr>tf_immut_ts_min := x\<rparr>) st" "keeps others tf st (tf\<lparr>tf_mut_ts_max := x\<rparr>) st"
  "keeps others tf st tf (st\<lparr>st_versions := (st_versions st)[i := v]\<rparr>)"
  by (auto simp: keeps_def family_wf_def published_def fam_addrs_def live_def queued_def)

lemma put_freeze_keeps:
  assumes "put_freeze cfg open_rx tf st = Ok (tf', st')"
  shows "keeps others tf st tf' st'"
proof -
  obtain tf1 st1 where s1: "tf_switch_to_immutable cfg tf st = (tf1, st1)" by (cases "tf_switch_to_immutable cfg tf st")
  note k = switch_to_immutable_keeps[OF s1, of others]
  let ?tf = "tf1\<lparr>tf_immut_ts_min := tf_mut_ts_max tf1\<rparr>"
  let ?st = "st1\<lparr>st_versions := (st_versions st1)[tf_version ?tf := (st_versions st1 ! tf_version ?tf)\<lparr>ver_max_level_ts := tf_mut_ts_max ?tf\<rparr>]\<rparr>"
  have k2: "keeps others tf st ?tf ?st" using keeps_trans[OF k keeps_trans[OF keeps_fields(1) keeps_fields(3)]] .
  show ?thesis
  proof (cases "mem_is_full (st_mems st ! sv_mut_cache (tf_super_version tf))")
    case full: True
    show ?thesis
    proof (cases "length (tf_immut_cache tf1) \<ge> cfg_max_immemcache_num cfg")
      case True
      then have "wrap_flush_req open_rx ?tf ?st = Ok (tf', st')" using assms s1 full by (simp add: put_freeze_def Let_def)
      then show ?thesis by (rule keeps_trans[OF k2 wrap_flush_keeps])
    next
      case False
      then show ?thesis using assms s1 full k by (simp add: put_freeze_def)
    qed
  next
    case False
    then show ?thesis using assms keeps_refl by (simp add: put_freeze_def)
  qed
qed

subsection \<open>Putting a value\<close>

text \<open>Every step returns while the receiver of the requests is there.\<close>

lemma flush_steps_Ok:
  "\<exists>tf' st'. wrap_delta_flush_req cfg True tf st = Ok (tf', st')"
  "\<exists>tf' st'. put_freeze cfg True tf st = Ok (tf', st')"
  by (simp_all add: wrap_delta_flush_req_def wrap_flush_req_def put_freeze_def send_flush_req_def new_mem_def Let_def split: prod.splits)

lemma delta_flush_if:
  "\<exists>tf' st'. (if late then wrap_delta_flush_req cfg True tf st else Ok (tf, st)) = Ok (tf', st') \<and> keeps others tf st tf' st'"
proof (cases late)
  case True
  obtain tf' st' where "wrap_delta_flush_req cfg True tf st = Ok (tf', st')" using flush_steps_Ok(1) by blast
  then show ?thesis using True wrap_delta_keeps by auto
next
  case False
  then show ?thesis using keeps_refl by simp
qed

definition has_room :: "bool \<Rightarrow> u64 \<Rightarrow> MemCache \<Rightarrow> bool" where
  "has_room oc cell_size mem \<longleftrightarrow> oc \<longrightarrow> unat (mc_cache_size mem) + unat cell_size < 2 ^ 64"

lemma insert_raw_Ok:
  assumes "raw_cell ts dtype val = Some c" "has_room oc cell_size mem" "mem_wf mem"
  shows "\<exists>mem'. insert_raw oc cell_size mem seq fid ts dtype val = Ok mem' \<and> mem_wf mem' \<and>
    mem_cells mem' = (mem_cells mem)(fid := mem_cells mem fid @ [c]) \<and> mc_seq_no mem' = seq"
proof -
  let ?mem = "mem\<lparr>mc_seq_no := seq\<rparr>"
  obtain mem' where m: "mem_cache_insert oc cell_size ?mem fid c dtype = Ok mem'"
    using assms(2) by (auto simp: mem_cache_insert_def has_room_def add_u64_def Let_def)
  from mem_cache_insert_Ok[OF m] show ?thesis using m assms(1,3) by (simp add: insert_raw_eq)
qed

lemma put_into_adds:
  assumes "family_wf others st tf" "a = tf_mut_cache tf \<or> a = tf_delta_mut_cache tf" "raw_cell ts dtype val = Some c"
    and "has_room oc cell_size (st_mems st ! a)"
  shows "\<exists>st'. put_into oc cell_size a seq fid ts dtype val st = Ok st' \<and> family_wf others st' tf \<and>
    (\<forall>f. live st' tf f = live st tf f + (if f = fid then {#c#} else {#})) \<and> (\<forall>b \<in> set others. st_mems st' ! b = st_mems st ! b) \<and>
    queued st' = queued st \<and> st_versions st' = st_versions st"
proof -
  let ?A = "fam_addrs tf @ queued st"
  have a: "a \<in> set ?A" using assms(2) by (auto simp: fam_addrs_def)
  then have lt: "a < length (st_mems st)" "mem_wf (st_mems st ! a)" "a \<notin> set others" using assms(1) by (auto simp: family_wf_def)
  obtain mem where m: "insert_raw oc cell_size (st_mems st ! a) seq fid ts dtype val = Ok mem" "mem_wf mem"
    "mem_cells mem = (mem_cells (st_mems st ! a))(fid := mem_cells (st_mems st ! a) fid @ [c])"
    using insert_raw_Ok[OF assms(3,4) lt(2)] by blast
  let ?st = "set_mem a mem st"
  have put: "put_into oc cell_size a seq fid ts dtype val st = Ok ?st" using m(1) by (simp add: put_into_def)
  have q: "queued ?st = queued st" by (simp add: set_mem_def queued_def)
  have at: "st_mems ?st ! b = (if b = a then mem else st_mems st ! b)" for b using lt(1) by (simp add: set_mem_def nth_list_update)
  have wf: "family_wf others ?st tf"
    using assms(1) m(2) unfolding family_wf_def q at by (auto simp: set_mem_def)
  obtain xs ys where A: "?A = xs @ a # ys" using split_list[OF a] by blast
  moreover have "distinct ?A" using assms(1) by (auto simp: family_wf_def)
  ultimately have nin: "a \<notin> set xs" "a \<notin> set ys" by auto
  have "live ?st tf f = live st tf f + (if f = fid then {#c#} else {#})" for f
  proof -
    let ?g = "\<lambda>b. mset (mem_cells (st_mems ?st ! b) f)" and ?f = "\<lambda>b. mset (mem_cells (st_mems st ! b) f)"
    have "map ?g xs = map ?f xs" "map ?g ys = map ?f ys" using nin by (auto simp: at)
    moreover have "?g a = ?f a + (if f = fid then {#c#} else {#})" using m(3) by (simp add: at)
    ultimately show ?thesis
      by (simp only: live_def q A map_append list.map sum_list_append sum_list.Cons) (simp only: ac_simps)
  qed
  then show ?thesis using put wf q lt(3) at by (auto simp: set_mem_def)
qed

lemma put_route_adds:
  assumes "family_wf others st tf" "raw_cell ts dtype val = Some c"
    and "has_room oc cell_size (st_mems st ! tf_mut_cache tf)" "has_room oc cell_size (st_mems st ! tf_delta_mut_cache tf)"
  shows "\<exists>tf' st'. put_route oc cell_size fid val dtype seq ts tf st = Ok (tf', st') \<and> family_wf others st' tf' \<and>
    (\<forall>f. live st' tf' f = live st tf f + (if f = fid then {#c#} else {#})) \<and> (\<forall>b \<in> set others. st_mems st' ! b = st_mems st ! b) \<and>
    tf_tf_id tf' = tf_tf_id tf \<and> tf_version tf' = tf_version tf"
proof -
  define tf1 where "tf1 = (if tf_immut_ts_min tf = i64_MIN then tf\<lparr>tf_immut_ts_min := ts\<rparr> else tf)"
  define tf2 where "tf2 = (if sle (tf_immut_ts_min tf1) ts then if slt (tf_mut_ts_max tf1) ts then tf1\<lparr>tf_mut_ts_max := ts\<rparr> else tf1 else tf1)"
  define a where "a = (if sle (tf_immut_ts_min tf1) ts then tf_mut_cache tf else tf_delta_mut_cache tf)"
  have k1: "keeps others tf st tf1 st" by (simp add: tf1_def keeps_refl keeps_fields)
  have "keeps others tf1 st tf2 st" by (simp add: tf2_def keeps_refl keeps_fields)
  note k = keeps_trans[OF k1 this]
  have wf: "family_wf others st tf2" and lv: "live st tf2 f = live st tf f" for f using k assms(1) by (auto simp: keeps_def)
  have same: "tf_mut_cache tf2 = tf_mut_cache tf" "tf_delta_mut_cache tf2 = tf_delta_mut_cache tf" "tf_tf_id tf2 = tf_tf_id tf"
    "tf_version tf2 = tf_version tf" "tf_super_version tf2 = tf_super_version tf" "tf_super_version tf1 = tf_super_version tf"
    by (simp_all add: tf2_def tf1_def)
  have sv: "sv_mut_cache (tf_super_version tf) = tf_mut_cache tf" "sv_delta_mut_cache (tf_super_version tf) = tf_delta_mut_cache tf"
    using assms(1) publishedD[of tf] by (simp_all add: family_wf_def)
  have route: "put_route oc cell_size fid val dtype seq ts tf st = rbind (put_into oc cell_size a seq fid ts dtype val st) (\<lambda>st. Ok (tf2, st))"
    using same(6) sv by (simp add: put_route_def Let_def a_def tf2_def flip: tf1_def)
  have aa: "a = tf_mut_cache tf2 \<or> a = tf_delta_mut_cache tf2" by (simp add: a_def same)
  have room: "has_room oc cell_size (st_mems st ! a)" using assms(3,4) by (simp add: a_def)
  obtain st' where "put_into oc cell_size a seq fid ts dtype val st = Ok st'" "family_wf others st' tf2"
    "\<forall>f. live st' tf2 f = live st tf2 f + (if f = fid then {#c#} else {#})" "\<forall>b \<in> set others. st_mems st' ! b = st_mems st ! b"
    using put_into_adds[OF wf aa assms(2) room, of seq fid] by blast
  then show ?thesis using route lv same(3,4) by simp
qed

lemma put_mutcache_adds:
  assumes "family_wf others st tf" "raw_cell ts dtype val = Some c"
    and "has_room oc cell_size (st_mems st ! tf_mut_cache tf)" "has_room oc cell_size (st_mems st ! tf_delta_mut_cache tf)"
  shows "\<exists>tf' st'. put_mutcache oc cell_size cfg True fid val dtype seq ts tf st = Ok (tf', st') \<and> family_wf others st' tf' \<and>
    (\<forall>f. live st' tf' f = live st tf f + (if f = fid then {#c#} else {#})) \<and> (\<forall>b \<in> set others. st_mems st' ! b = st_mems st ! b) \<and>
    tf_tf_id tf' = tf_tf_id tf \<and> tf_version tf' = tf_version tf"
proof -
  obtain tf1 st1 where s1: "put_route oc cell_size fid val dtype seq ts tf st = Ok (tf1, st1)" "family_wf others st1 tf1"
    "\<forall>f. live st1 tf1 f = live st tf f + (if f = fid then {#c#} else {#})" "\<forall>b \<in> set others. st_mems st1 ! b = st_mems st ! b"
    "tf_tf_id tf1 = tf_tf_id tf" "tf_version tf1 = tf_version tf"
    using put_route_adds[OF assms, of fid seq] by blast
  let ?late = "sle (tf_immut_ts_min tf1) ts \<and> mc_data_cache (st_mems st1 ! tf_delta_mut_cache tf1) \<noteq> Map.empty"
  obtain tf2 st2 where s2: "(if ?late then wrap_delta_flush_req cfg True tf1 st1 else Ok (tf1, st1)) = Ok (tf2, st2)" "keeps others tf1 st1 tf2 st2"
    using delta_flush_if[of ?late cfg tf1 st1 others] by blast
  obtain tf3 st3 where s3: "put_freeze cfg True tf2 st2 = Ok (tf3, st3)" "keeps others tf2 st2 tf3 st3"
    using flush_steps_Ok(2)[of cfg tf2 st2] put_freeze_keeps by blast
  let ?full = "mem_is_full (st_mems st3 ! sv_delta_mut_cache (tf_super_version tf3))"
  obtain tf4 st4 where s4: "(if ?full then wrap_delta_flush_req cfg True tf3 st3 else Ok (tf3, st3)) = Ok (tf4, st4)" "keeps others tf3 st3 tf4 st4"
    using delta_flush_if[of ?full cfg tf3 st3 others] by blast
  have k: "keeps others tf1 st1 tf4 st4" using keeps_trans[OF s2(2) keeps_trans[OF s3(2) s4(2)]] .
  have "put_mutcache oc cell_size cfg True fid val dtype seq ts tf st = Ok (tf4, st4)"
    using s1(1) s2(1) s3(1) s4(1) by (simp add: put_mutcache_def)
  then show ?thesis using k s1(2-6) by (auto simp: keeps_def)
qed

lemma tseries_family_new_wf:
  assumes "tseries_family_new cfg tf_id name cache version opt st = (tf, st')" "mem_wf cache" "version < length (st_versions st)"
    and "distinct (queued st @ others)" "\<forall>a \<in> set (queued st @ others). a < length (st_mems st) \<and> mem_wf (st_mems st ! a)"
  shows "family_wf others st' tf \<and> tf_tf_id tf = tf_id \<and> tf_version tf = version \<and> st_versions st' = st_versions st \<and>
    queued st' = queued st \<and> (\<forall>a < length (st_mems st). st_mems st' ! a = st_mems st ! a) \<and> length (st_mems st') = length (st_mems st) + 2 \<and>
    (\<forall>fid. live st' tf fid = mset (mem_cells cache fid) + (\<Sum>a\<leftarrow>queued st. mset (mem_cells (st_mems st ! a) fid)))"
proof -
  let ?n = "length (st_mems st)"
  let ?delta = "mem_cache_new tf_id (cfg_max_memcache_size cfg) (ver_last_seq (st_versions st ! version)) True"
  have st': "st' = st\<lparr>st_mems := st_mems st @ [cache, ?delta]\<rparr>"
    and tf: "fam_addrs tf = [Suc ?n, ?n]" "tf_tf_id tf = tf_id" "tf_version tf = version" "published tf"
    using assms(1) by (auto simp: tseries_family_new_def new_mem_def Let_def fam_addrs_def published_def super_version_new_def)
  have q: "queued st' = queued st" by (simp add: st' queued_def)
  have lt: "a < ?n" if "a \<in> set (queued st @ others)" for a using assms(5) that by blast
  have old: "st_mems st' ! a = st_mems st ! a" if "a < ?n" for a using that by (simp add: st' nth_append)
  have new: "st_mems st' ! ?n = cache" "st_mems st' ! Suc ?n = ?delta" by (simp_all add: st' nth_append)
  have len: "length (st_mems st') = ?n + 2" "st_versions st' = st_versions st" by (simp_all add: st')
  have "distinct (fam_addrs tf @ queued st' @ others)" using assms(4) lt unfolding tf q by fastforce
  moreover have "\<forall>a \<in> set (fam_addrs tf @ queued st' @ others). a < length (st_mems st') \<and> mem_wf (st_mems st' ! a)"
    using assms(2,5) lt old new unfolding tf q by (fastforce simp: len)
  ultimately have "family_wf others st' tf" using tf(3,4) assms(3) by (simp add: family_wf_def len)
  moreover have "live st' tf fid = mset (mem_cells cache fid) + (\<Sum>a\<leftarrow>queued st. mset (mem_cells (st_mems st ! a) fid))" for fid
  proof -
    have "map (\<lambda>a. mset (mem_cells (st_mems st' ! a) fid)) (queued st) = map (\<lambda>a. mset (mem_cells (st_mems st ! a) fid)) (queued st)"
      using old lt by auto
    then show ?thesis unfolding live_def tf q by (simp only: map_append sum_list_append) (simp add: new)
  qed
  ultimately show ?thesis using tf q old len by auto
qed

subsection \<open>Deleting a range\<close>

definition outside :: "TimeRange \<Rightarrow> DataType \<Rightarrow> bool" where
  "outside tr c \<longleftrightarrow> slt (timestamp c) (tr_min_ts tr) \<or> slt (tr_max_ts tr) (timestamp c)"

lemma delete_from_cells:
  assumes "mem_wf mem" "sle (tr_min_ts tr) (tr_max_ts tr)"
  shows "mem_cells (delete_from tr mem) fid = filter (outside tr) (mem_cells mem fid)"
proof (cases "mc_data_cache mem fid")
  case (Some e)
  have wf: "entry_wf e" using assms(1) Some by (simp add: mem_wf_def)
  show ?thesis
  proof (cases "mem_entry_overlap e tr")
    case False
    then have "me_cells e = []" using wf assms(2) by (cases "me_cells e") (auto simp: entry_wf_def mem_entry_overlap_def)
    then show ?thesis using Some False by (simp add: mem_cells_def delete_from_def)
  next
    case True
    then show ?thesis using Some by (simp add: mem_cells_def delete_from_def delete_data_cell_def outside_def[abs_def])
  qed
qed (simp add: mem_cells_def delete_from_def)

lemma delete_each_at:
  "distinct as \<Longrightarrow> \<forall>a \<in> set as. a < length (st_mems st) \<Longrightarrow>
    st_mems (delete_each tr as st) ! b = (if b \<in> set as then delete_from tr (st_mems st ! b) else st_mems st ! b)"
  by (induction as arbitrary: st) (auto simp: set_mem_def nth_list_update)

text \<open>A store with one version, and the family created in it with a given mutable cache.\<close>

definition store_init :: Store where
  "store_init = \<lparr>st_mems = [], st_versions = [version_new 0 0 ''a'' [] i64_MIN], st_flush_req = []\<rparr>"

definition family_init :: "MemCache \<Rightarrow> TseriesFamily \<times> Store" where
  "family_init cache = tseries_family_new config_toml 0 ''a'' cache 0 (tseries_fam_opt_default config_toml) store_init"

lemma family_init_wf:
  assumes "mem_wf cache"
  shows "family_wf [] (snd (family_init cache)) (fst (family_init cache))"
    and "live (snd (family_init cache)) (fst (family_init cache)) fid = mset (mem_cells cache fid)"
proof -
  have "tseries_family_new config_toml 0 ''a'' cache 0 (tseries_fam_opt_default config_toml) store_init =
    (fst (family_init cache), snd (family_init cache))" by (simp add: family_init_def)
  from tseries_family_new_wf[OF this assms, of "[]"]
  show "family_wf [] (snd (family_init cache)) (fst (family_init cache))"
    "live (snd (family_init cache)) (fst (family_init cache)) fid = mset (mem_cells cache fid)"
    by (simp_all add: store_init_def queued_def)
qed

lemma family_init_simps:
  "fam_addrs (fst (family_init cache)) = [Suc 0, 0]" "tf_mut_cache (fst (family_init cache)) = 0" "tf_delta_mut_cache (fst (family_init cache)) = Suc 0"
  "st_mems (snd (family_init cache)) ! 0 = cache" "mc_cache_size (st_mems (snd (family_init cache)) ! Suc 0) = 0"
  by (simp_all add: family_init_def tseries_family_new_def new_mem_def store_init_def Let_def mem_cache_new_def fam_addrs_def)

text \<open>A cache with two cells of one field.\<close>

definition two_cells :: MemCache where
  "two_cells = (mem_cache_new 0 1024 0 False)\<lparr>mc_data_cache :=
     [5 \<mapsto> \<lparr>me_ts_min = 2, me_ts_max = 9, me_field_type = VInteger, me_cells = [DI64 9 7, DI64 2 8]\<rparr>], mc_cache_size := 64\<rparr>"

lemma two_cells_wf: "mem_wf two_cells" "mem_cells two_cells 5 = [DI64 9 7, DI64 2 8]"
  by (simp_all add: two_cells_def mem_cache_new_def mem_wf_def mem_cells_def entry_wf_def)

text \<open>C34: A write with a well-formed value, while the flush queue is served and the cache counters do not overflow,
  succeeds, keeps the invariant of the family, and adds exactly the written cell: every cell that was in the caches of
  the family or queued for flush still is in exactly one of them, on every path through freezing and flushing, and the
  caches of other families do not change.\<close>

theorem put_mutcache_conserves_cells:
  assumes "family_wf others st tf" "raw_cell ts dtype val = Some c"
    and "has_room oc cell_size (st_mems st ! tf_mut_cache tf)" "has_room oc cell_size (st_mems st ! tf_delta_mut_cache tf)"
  shows "\<exists>tf' st'. put_mutcache oc cell_size cfg True fid val dtype seq ts tf st = Ok (tf', st') \<and> family_wf others st' tf' \<and>
    (\<forall>f. live st' tf' f = live st tf f + (if f = fid then {#c#} else {#})) \<and> (\<forall>b \<in> set others. st_mems st' ! b = st_mems st ! b)"
  using put_mutcache_adds[OF assms] by blast

theorem put_mutcache_conserves_cells_witness:
  "\<exists>tf' st'. put_mutcache True 32 config_toml True 5 [0, 0, 0, 0, 0, 0, 0, 7] VInteger 1 9 (fst (family_init two_cells)) (snd (family_init two_cells)) =
      Ok (tf', st') \<and> live st' tf' 5 = {#DI64 9 7, DI64 2 8, DI64 9 7#}"
proof -
  have "raw_cell 9 VInteger [0, 0, 0, 0, 0, 0, 0, 7] = Some (DI64 9 7)" by code_simp
  moreover have "has_room True 32 (st_mems (snd (family_init two_cells)) ! tf_mut_cache (fst (family_init two_cells)))"
    "has_room True 32 (st_mems (snd (family_init two_cells)) ! tf_delta_mut_cache (fst (family_init two_cells)))"
    by (simp_all add: has_room_def family_init_simps two_cells_def)
  ultimately show ?thesis
    using put_mutcache_conserves_cells[OF family_init_wf(1)[OF two_cells_wf(1)], of 9 VInteger "[0, 0, 0, 0, 0, 0, 0, 7]" "DI64 9 7" True 32 config_toml 5 1]
    by (fastforce simp: family_init_wf(2)[OF two_cells_wf(1)] two_cells_wf(2))
qed

text \<open>C35: Deleting a time range removes from every cache of the family exactly the cells in the range, of every
  field, and touches no other cache; a cache that is queued for flush keeps its deleted cells.\<close>

theorem delete_cache_exact:
  assumes "family_wf others st tf" "sle (tr_min_ts tr) (tr_max_ts tr)"
  shows "(\<forall>a \<in> set (fam_addrs tf). mem_cells (st_mems (delete_cache tr tf st) ! a) fid = filter (outside tr) (mem_cells (st_mems st ! a) fid)) \<and>
    (\<forall>a \<in> set (queued st @ others). st_mems (delete_cache tr tf st) ! a = st_mems st ! a)"
proof -
  let ?as = "tf_mut_cache tf # tf_delta_mut_cache tf # tf_immut_cache tf"
  have s: "set ?as = set (fam_addrs tf)" by (auto simp: fam_addrs_def)
  have "distinct ?as" using assms(1) by (auto simp: family_wf_def fam_addrs_def)
  moreover have "\<forall>a \<in> set ?as. a < length (st_mems st)" using assms(1) unfolding s by (simp add: family_wf_def)
  ultimately have at: "st_mems (delete_cache tr tf st) ! b = (if b \<in> set (fam_addrs tf) then delete_from tr (st_mems st ! b) else st_mems st ! b)" for b
    unfolding delete_cache_def s[symmetric] by (rule delete_each_at)
  have dis: "set (fam_addrs tf) \<inter> set (queued st @ others) = {}" using assms(1) by (auto simp: family_wf_def)
  have "mem_wf (st_mems st ! a)" if "a \<in> set (fam_addrs tf)" for a using assms(1) that by (simp add: family_wf_def)
  then show ?thesis using dis by (auto simp: at delete_from_cells[OF _ assms(2)])
qed

theorem delete_cache_exact_witness:
  "mem_cells (st_mems (delete_cache \<lparr>tr_min_ts = 1, tr_max_ts = 2\<rparr> (fst (family_init two_cells)) (snd (family_init two_cells))) ! 0) 5 = [DI64 9 7]"
  using delete_cache_exact[OF family_init_wf(1)[OF two_cells_wf(1)], of "\<lparr>tr_min_ts = 1, tr_max_ts = 2\<rparr>" 5]
  by (simp add: family_init_simps two_cells_wf(2) outside_def)

text \<open>The public switch of the mutable cache leaves a super version whose mutable cache is the delta cache, so that
  the next write goes to the wrong cache.\<close>

lemma switch_memcache_unpublished:
  assumes "tf_switch_memcache cache tf st = (tf', st')" "cache \<noteq> tf_delta_mut_cache tf"
  shows "\<not> published tf' \<and> sv_mut_cache (tf_super_version tf') = tf_delta_mut_cache tf'"
  using assms by (auto simp: tf_switch_memcache_def Let_def published_def super_version_new_def)

end
