(* ===== verification/RecordFile.thy ===== *)
theory RecordFile
  imports DirectFile Errors
begin

text \<open>
  The record files of \<^verbatim>\<open>src/tskv/src/record_file/\<close>, which the summary, the schema and the forward index are
  kept in.  The writer appends framed records in pieces that do not cross a block boundary; the reader
  buffers the file and, on a damaged record, looks for the next magic number.  The reader is shown to refine
  a scan over the bytes of the file, which ends on every file, and to return what the writer wrote.
  The checksum of the \<^verbatim>\<open>crc32fast\<close> package is a parameter; its incremental hasher gives the checksum of the
  concatenation.
\<close>

subsection \<open>The format\<close>

definition le_bytes :: "nat \<Rightarrow> 'a::len word \<Rightarrow> bytes" where
  "le_bytes n v = rev (be_bytes n v)"

definition from_le :: "bytes \<Rightarrow> 'a::len word" where
  "from_le bs = from_be (rev bs)"

definition MAGIC_NUMBER :: u32 where "MAGIC_NUMBER = from_le [0x46, 0x6c, 0x4f, 0x67]"

definition RECORD_MAGIC_NUMBER_LEN :: nat where "RECORD_MAGIC_NUMBER_LEN = 4"

definition RECORD_DATA_SIZE_LEN :: nat where "RECORD_DATA_SIZE_LEN = 4"

definition RECORD_DATA_VERSION_LEN :: nat where "RECORD_DATA_VERSION_LEN = 1"

definition RECORD_DATA_TYPE_LEN :: nat where "RECORD_DATA_TYPE_LEN = 1"

definition RECORD_CRC32_NUMBER_LEN :: nat where "RECORD_CRC32_NUMBER_LEN = 4"

definition BLOCK_SIZE :: nat where "BLOCK_SIZE = 4096"

definition READER_BUF_SIZE :: nat where "READER_BUF_SIZE = 1024 * 1024 * 64"

lemmas record_lens = RECORD_MAGIC_NUMBER_LEN_def RECORD_DATA_SIZE_LEN_def RECORD_DATA_VERSION_LEN_def
  RECORD_DATA_TYPE_LEN_def RECORD_CRC32_NUMBER_LEN_def

datatype RecordFileError =
    WriteFile string
  | ReadFile string
  | OpenFile string
  | SyncFile string
  | GetFileLen string
  | Eof
  | InvalidPos

record Record =
  rec_data_type :: u8
  rec_data_version :: u8
  rec_data :: bytes
  rec_pos :: u64

subsection \<open>The writer\<close>

record Writer =
  wr_path :: string
  wr_file :: File

text \<open>Opening a file is left to the operating system.\<close>

definition writer_new :: "(string \<Rightarrow> (TskvError, File) result) \<Rightarrow> string \<Rightarrow> (RecordFileError, Writer) result" where
  "writer_new open_file path =
     rbind (unwrap (open_file path)) (\<lambda>file. Ok \<lparr>wr_path = path, wr_file = file\<rparr>)"

text \<open>The length of the data is converted to 32 bits and unwrapped.\<close>

definition record_buf :: "(bytes \<Rightarrow> u32) \<Rightarrow> u8 \<Rightarrow> u8 \<Rightarrow> bytes \<Rightarrow> (RecordFileError, bytes) result" where
  "record_buf crc data_version data_type data =
     (if length data < 2 ^ 32 then
        let buf = le_bytes 4 MAGIC_NUMBER @ le_bytes 4 (of_nat (length data) :: u32) @ le_bytes 1 data_version @
                  le_bytes 1 data_type @ data in
        Ok (buf @ le_bytes 4 (crc (drop RECORD_MAGIC_NUMBER_LEN buf)))
      else Panic)"

function record_write_loop :: "File \<Rightarrow> bytes \<Rightarrow> nat \<Rightarrow> nat \<Rightarrow> (RecordFileError, File) result" where
  "record_write_loop file buf p pos =
     (if p < length buf then
        let write_len = min (BLOCK_SIZE - pos mod BLOCK_SIZE) (length buf - p) in
        rbind (map_err WriteFile (file_write_at file pos (take write_len (drop p buf)))) (\<lambda>(file, _).
          record_write_loop file buf (p + write_len) (pos + write_len))
      else Ok file)"
  by pat_completeness auto
termination
  by (relation "measure (\<lambda>(file, buf, p, pos). length buf - p)") (auto simp: BLOCK_SIZE_def)

declare record_write_loop.simps [simp del]

definition write_record ::
  "(bytes \<Rightarrow> u32) \<Rightarrow> Writer \<Rightarrow> u8 \<Rightarrow> u8 \<Rightarrow> bytes \<Rightarrow> (RecordFileError, Writer \<times> nat) result" where
  "write_record crc w data_version data_type data =
     rbind (record_buf crc data_version data_type data) (\<lambda>buf.
       let origin_pos = f_len (wr_file w) in
       rbind (record_write_loop (wr_file w) buf 0 origin_pos) (\<lambda>file. Ok (w\<lparr>wr_file := file\<rparr>, origin_pos)))"

definition writer_sync :: "(File \<Rightarrow> (string, unit) result) \<Rightarrow> Writer \<Rightarrow> (RecordFileError, unit) result" where
  "writer_sync sync_all w = map_err SyncFile (sync_all (wr_file w))"

subsection \<open>The reader\<close>

record Reader =
  rd_path :: string
  rd_file :: File
  rd_buf :: bytes
  rd_pos :: nat
  rd_buf_len :: nat
  rd_buf_use :: nat

definition reader_new :: "(string \<Rightarrow> (TskvError, File) result) \<Rightarrow> string \<Rightarrow> (RecordFileError, Reader) result" where
  "reader_new open_file path =
     rbind (unwrap (open_file path)) (\<lambda>file.
       Ok \<lparr>rd_path = path, rd_file = file, rd_buf = replicate READER_BUF_SIZE 0, rd_pos = 0, rd_buf_len = 0, rd_buf_use = 0\<rparr>)"

text \<open>A method changes the reader also when it returns an error; it gives back the reader and the outcome.
  A failed read of the file leaves the old buffer in the model, where the code may have overwritten a
  part of it.\<close>

type_synonym 'a reading = "Reader \<times> (RecordFileError, 'a) result"

fun and_then :: "'a reading \<Rightarrow> (Reader \<Rightarrow> 'a \<Rightarrow> 'b reading) \<Rightarrow> 'b reading" where
  "and_then (r, Ok x) f = f r x"
| "and_then (r, Err e) f = (r, Err e)"
| "and_then (r, Panic) f = (r, Panic)"

definition sub_usize :: "bool \<Rightarrow> nat \<Rightarrow> nat \<Rightarrow> ('e, nat) result" where
  "sub_usize oc a b = (if b \<le> a then Ok (a - b) else if oc then Panic else Ok (2 ^ 64 + a - b))"

definition load_buf :: "Reader \<Rightarrow> unit reading" where
  "load_buf r =
     (case map_err ReadFile (file_read_at (rd_file r) (rd_pos r) (length (rd_buf r))) of
        Ok data \<Rightarrow> (r\<lparr>rd_buf := data @ drop (length data) (rd_buf r), rd_buf_len := length data, rd_buf_use := 0\<rparr>, Ok ())
      | Err e \<Rightarrow> (r, Err e)
      | Panic \<Rightarrow> (r, Panic))"

definition read_buf :: "bool \<Rightarrow> nat \<Rightarrow> Reader \<Rightarrow> (nat \<times> bytes) reading" where
  "read_buf oc sz r =
     and_then (r, sub_usize oc (rd_buf_len r) (rd_buf_use r)) (\<lambda>r rest.
     and_then (if rest < sz then load_buf r else (r, Ok ())) (\<lambda>r _.
     and_then (r, sub_usize oc (rd_buf_len r) (rd_buf_use r)) (\<lambda>r rest.
       if rest \<ge> sz then
         let origin_pos = rd_pos r in
         and_then (r, slice_range (rd_buf r) (rd_buf_use r) (rd_buf_use r + sz)) (\<lambda>r data.
           (r\<lparr>rd_pos := rd_pos r + sz, rd_buf_use := rd_buf_use r + sz\<rparr>, Ok (origin_pos, data)))
       else (r, Err Eof))))"

definition set_pos :: "bool \<Rightarrow> nat \<Rightarrow> Reader \<Rightarrow> unit reading" where
  "set_pos oc pos r =
     (if pos > f_len (rd_file r) then (r, Err InvalidPos)
      else if rd_pos r > pos then
        let sz = rd_pos r - pos; r = r\<lparr>rd_pos := pos\<rparr> in
        if rd_buf_use r > sz then (r\<lparr>rd_buf_use := rd_buf_use r - sz\<rparr>, Ok ()) else load_buf r
      else if rd_pos r < pos then
        let sz = pos - rd_pos r; r = r\<lparr>rd_pos := pos\<rparr> in
        and_then (r, sub_usize oc (rd_buf_len r) (rd_buf_use r)) (\<lambda>r rest.
          if rest > sz then (r\<lparr>rd_buf_use := rd_buf_use r + sz\<rparr>, Ok ()) else load_buf r)
      else (r, Ok ()))"

partial_function (option) find_magic :: "bool \<Rightarrow> Reader \<Rightarrow> unit reading option" where
  "find_magic oc r =
     (case read_buf oc RECORD_MAGIC_NUMBER_LEN r of
        (r, Ok (origin_pos, data)) \<Rightarrow>
          if (from_le data :: u32) \<noteq> MAGIC_NUMBER then
            case set_pos oc (origin_pos + 1) r of (r, Ok _) \<Rightarrow> find_magic oc r | (r, e) \<Rightarrow> Some (r, e)
          else Some (set_pos oc origin_pos r)
      | (r, Err e) \<Rightarrow> Some (r, Err e)
      | (r, Panic) \<Rightarrow> Some (r, Panic))"

text \<open>One attempt of \<^verbatim>\<open>read_record\<close>: a record, or the position from which the next magic number is looked for.\<close>

datatype attempt = Whole Record | Resync nat

definition read_attempt :: "bool \<Rightarrow> (bytes \<Rightarrow> u32) \<Rightarrow> Reader \<Rightarrow> attempt reading" where
  "read_attempt oc crc r =
     and_then (read_buf oc (RECORD_MAGIC_NUMBER_LEN + RECORD_DATA_SIZE_LEN + RECORD_DATA_VERSION_LEN + RECORD_DATA_TYPE_LEN) r)
       (\<lambda>r (origin_pos, buf).
       if (from_le (take 4 buf) :: u32) \<noteq> MAGIC_NUMBER then (r, Ok (Resync origin_pos))
       else
         let data_size = (from_le (take 4 (drop 4 buf)) :: u32);
             data_version = from_le (take 1 (drop 8 buf)); data_type = from_le (take 1 (drop 9 buf)) in
         case read_buf oc (unat data_size) r of
           (r, Err _) \<Rightarrow> (r, Ok (Resync (origin_pos + 1)))
         | (r, Panic) \<Rightarrow> (r, Panic)
         | (r, Ok (_, data)) \<Rightarrow>
             and_then (read_buf oc RECORD_CRC32_NUMBER_LEN r) (\<lambda>r (_, crc32_number_buf).
               if crc (drop RECORD_MAGIC_NUMBER_LEN buf @ data) \<noteq> from_le crc32_number_buf then (r, Ok (Resync (origin_pos + 1)))
               else (r, Ok (Whole \<lparr>rec_data_type = data_type, rec_data_version = data_version, rec_data = data,
                                    rec_pos = of_nat origin_pos\<rparr>))))"

partial_function (option) read_record :: "bool \<Rightarrow> (bytes \<Rightarrow> u32) \<Rightarrow> Reader \<Rightarrow> Record reading option" where
  "read_record oc crc r =
     (case read_attempt oc crc r of
        (r, Ok (Whole x)) \<Rightarrow> Some (r, Ok x)
      | (r, Ok (Resync pos)) \<Rightarrow>
          (case set_pos oc pos r of
             (r, Ok _) \<Rightarrow>
               Option.bind (find_magic oc r) (\<lambda>(r, found).
                 case found of Ok _ \<Rightarrow> read_record oc crc r | Err e \<Rightarrow> Some (r, Err e) | Panic \<Rightarrow> Some (r, Panic))
           | (r, Err e) \<Rightarrow> Some (r, Err e)
           | (r, Panic) \<Rightarrow> Some (r, Panic))
      | (r, Err e) \<Rightarrow> Some (r, Err e)
      | (r, Panic) \<Rightarrow> Some (r, Panic))"

text \<open>Reading one record at a position, without the checksum.\<close>

definition read_one :: "Reader \<Rightarrow> nat \<Rightarrow> (RecordFileError, Record) result" where
  "read_one r pos =
     (let head_len = RECORD_MAGIC_NUMBER_LEN + RECORD_DATA_SIZE_LEN + RECORD_DATA_VERSION_LEN + RECORD_DATA_TYPE_LEN in
      rbind (map_err ReadFile (file_read_at (rd_file r) pos head_len)) (\<lambda>head_buf.
        if length head_buf \<noteq> head_len then Err InvalidPos
        else if (from_le (take 4 head_buf) :: u32) \<noteq> MAGIC_NUMBER then Err InvalidPos
        else
          let data_size = (from_le (take 4 (drop 4 head_buf)) :: u32);
              data_version = from_le (take 1 (drop 8 head_buf)); data_type = from_le (take 1 (drop 9 head_buf)) in
          rbind (map_err ReadFile (file_read_at (rd_file r) (pos + head_len) (unat data_size))) (\<lambda>data.
            if length data \<noteq> unat data_size then Err InvalidPos
            else Ok \<lparr>rec_data_type = data_type, rec_data_version = data_version, rec_data = data, rec_pos = of_nat pos\<rparr>)))"

subsection \<open>The buffer as a window of the file\<close>

definition reader_wf :: "Reader \<Rightarrow> bool" where
  "reader_wf r \<longleftrightarrow> file_wf (rd_file r) \<and> rd_buf_use r \<le> rd_buf_len r \<and> rd_buf_len r \<le> length (rd_buf r) \<and>
     rd_buf_use r \<le> rd_pos r \<and> rd_pos r + (rd_buf_len r - rd_buf_use r) \<le> f_len (rd_file r) \<and>
     take (rd_buf_len r) (rd_buf r) = take (rd_buf_len r) (drop (rd_pos r - rd_buf_use r) (file_bytes (rd_file r)))"

text \<open>A reader of the same file with the same buffer size.\<close>

definition same_source :: "Reader \<Rightarrow> Reader \<Rightarrow> bool" where
  "same_source r r' \<longleftrightarrow> rd_file r' = rd_file r \<and> length (rd_buf r') = length (rd_buf r)"

lemma reader_wf_pos: "reader_wf r \<Longrightarrow> rd_pos r \<le> f_len (rd_file r)"
  by (simp add: reader_wf_def)

lemma load_buf_Ok:
  assumes "file_wf (rd_file r)" "rd_pos r \<le> f_len (rd_file r)"
  shows "\<exists>r'. load_buf r = (r', Ok ()) \<and> reader_wf r' \<and> same_source r r' \<and> rd_pos r' = rd_pos r \<and> rd_buf_use r' = 0 \<and>
    rd_buf_len r' = min (length (rd_buf r)) (f_len (rd_file r) - rd_pos r)"
  using assms by (auto simp: load_buf_def file_read_at_Ok reader_wf_def same_source_def min.commute)

lemma read_buf_Ok:
  assumes "reader_wf r"
  shows "\<exists>r'. read_buf oc n r =
      (r', if n \<le> length (rd_buf r) \<and> rd_pos r + n \<le> f_len (rd_file r)
           then Ok (rd_pos r, take n (drop (rd_pos r) (file_bytes (rd_file r)))) else Err Eof) \<and>
    reader_wf r' \<and> same_source r r' \<and>
    rd_pos r' = (if n \<le> length (rd_buf r) \<and> rd_pos r + n \<le> f_len (rd_file r) then rd_pos r + n else rd_pos r)"
proof -
  have step: "\<exists>r'. and_then (s, sub_usize oc (rd_buf_len s) (rd_buf_use s)) (\<lambda>r rest.
       if rest \<ge> n then
         let origin_pos = rd_pos r in
         and_then (r, slice_range (rd_buf r) (rd_buf_use r) (rd_buf_use r + n)) (\<lambda>r data.
           (r\<lparr>rd_pos := rd_pos r + n, rd_buf_use := rd_buf_use r + n\<rparr>, Ok (origin_pos, data)))
       else (r, Err Eof)) = (r', if n \<le> rd_buf_len s - rd_buf_use s then Ok (rd_pos s, take n (drop (rd_pos s) (file_bytes (rd_file s)))) else Err Eof) \<and>
      reader_wf r' \<and> same_source s r' \<and> rd_pos r' = (if n \<le> rd_buf_len s - rd_buf_use s then rd_pos s + n else rd_pos s)"
    if s: "reader_wf s" for s
  proof -
    have le: "rd_buf_use s \<le> rd_buf_len s" "rd_buf_use s \<le> rd_pos s" "rd_buf_len s \<le> length (rd_buf s)" using s by (auto simp: reader_wf_def)
    have w: "take (rd_buf_len s) (rd_buf s) = take (rd_buf_len s) (drop (rd_pos s - rd_buf_use s) (file_bytes (rd_file s)))"
      using s by (simp add: reader_wf_def)
    have "take n (drop (rd_buf_use s) (rd_buf s)) = take n (drop (rd_pos s) (file_bytes (rd_file s)))" if "n \<le> rd_buf_len s - rd_buf_use s"
      using arg_cong[OF w, of "\<lambda>b. take n (drop (rd_buf_use s) b)"] that le by (simp add: drop_take min_absorb2)
    then show ?thesis
      using s le by (auto simp: sub_usize_def slice_range_def reader_wf_def same_source_def)
  qed
  show ?thesis
  proof (cases "rd_buf_len r - rd_buf_use r < n")
    case True
    obtain r1 where r1: "load_buf r = (r1, Ok ())" "reader_wf r1" "same_source r r1" "rd_pos r1 = rd_pos r" "rd_buf_use r1 = 0"
      "rd_buf_len r1 = min (length (rd_buf r)) (f_len (rd_file r) - rd_pos r)"
      using load_buf_Ok[of r] assms reader_wf_pos[OF assms] by (auto simp: reader_wf_def)
    have "rd_buf_use r \<le> rd_buf_len r" using assms by (simp add: reader_wf_def)
    then show ?thesis
      using True step[OF r1(2)] r1 reader_wf_pos[OF assms]
      by (auto simp: read_buf_def sub_usize_def same_source_def)
  next
    case False
    have le: "rd_buf_use r \<le> rd_buf_len r" "rd_buf_len r \<le> length (rd_buf r)" "rd_pos r + (rd_buf_len r - rd_buf_use r) \<le> f_len (rd_file r)"
      using assms by (auto simp: reader_wf_def)
    then have "n \<le> length (rd_buf r)" "rd_pos r + n \<le> f_len (rd_file r)" "n \<le> rd_buf_len r - rd_buf_use r" using False by auto
    then show ?thesis
      using False step[OF assms] le(1)
      by (simp add: read_buf_def sub_usize_def)
  qed
qed

lemma set_pos_Ok:
  assumes "reader_wf r" "pos \<le> f_len (rd_file r)"
  shows "\<exists>r'. set_pos oc pos r = (r', Ok ()) \<and> reader_wf r' \<and> same_source r r' \<and> rd_pos r' = pos"
proof -
  have wf: "file_wf (rd_file r)" using assms(1) by (simp add: reader_wf_def)
  have ld: "\<exists>r'. load_buf (r\<lparr>rd_pos := pos\<rparr>) = (r', Ok ()) \<and> reader_wf r' \<and> same_source r r' \<and> rd_pos r' = pos"
    using load_buf_Ok[of "r\<lparr>rd_pos := pos\<rparr>"] wf assms(2) by (auto simp: same_source_def)
  have mv: "reader_wf (r\<lparr>rd_pos := pos, rd_buf_use := u\<rparr>) \<and> same_source r (r\<lparr>rd_pos := pos, rd_buf_use := u\<rparr>)"
    if "u \<le> rd_buf_len r" "u \<le> pos" "pos + rd_buf_use r = rd_pos r + u" for u
  proof -
    have "pos - u = rd_pos r - rd_buf_use r" "pos + (rd_buf_len r - u) = rd_pos r + (rd_buf_len r - rd_buf_use r)"
      using that assms(1) by (auto simp: reader_wf_def)
    then show ?thesis using that assms(1) by (simp add: reader_wf_def same_source_def)
  qed
  have use: "rd_buf_use r \<le> rd_buf_len r" "rd_buf_use r \<le> rd_pos r" using assms(1) by (simp_all add: reader_wf_def)
  consider "pos < rd_pos r" | "rd_pos r < pos" | "pos = rd_pos r" by linarith
  then show ?thesis
  proof cases
    case 1
    then show ?thesis
      using ld mv[of "rd_buf_use r - (rd_pos r - pos)"] use assms(2) by (auto simp: set_pos_def Let_def)
  next
    case 2
    then show ?thesis
      using ld mv[of "rd_buf_use r + (pos - rd_pos r)"] use assms(2) by (auto simp: set_pos_def Let_def sub_usize_def)
  next
    case 3
    then show ?thesis using assms by (auto simp: set_pos_def same_source_def)
  qed
qed

subsection \<open>Scanning the bytes\<close>

definition magic_at :: "bytes \<Rightarrow> nat \<Rightarrow> bool" where
  "magic_at bs p \<longleftrightarrow> p + 4 \<le> length bs \<and> (from_le (take 4 (drop p bs)) :: u32) = MAGIC_NUMBER"

definition next_magic :: "bytes \<Rightarrow> nat \<Rightarrow> nat option" where
  "next_magic bs p = List.find (magic_at bs) [p..<length bs]"

lemma next_magic_step:
  "next_magic bs p = (if p < length bs then if magic_at bs p then Some p else next_magic bs (Suc p) else None)"
  by (simp add: next_magic_def upt_conv_Cons)

lemma next_magic_Some: "next_magic bs p = Some q \<Longrightarrow> p \<le> q \<and> q < length bs \<and> magic_at bs q"
  by (auto simp: next_magic_def find_Some_iff)

text \<open>What a reader with a buffer of \<^verbatim>\<open>cap\<close> bytes finds from position \<^verbatim>\<open>p\<close> on: a record and the position
  behind it, or the end of the file.\<close>

function record_scan :: "(bytes \<Rightarrow> u32) \<Rightarrow> nat \<Rightarrow> bytes \<Rightarrow> nat \<Rightarrow> (Record \<times> nat) option" where
  "record_scan crc cap bs p =
     (if p + 10 > length bs then None
      else if \<not> magic_at bs p then Option.bind (next_magic bs (Suc p)) (record_scan crc cap bs)
      else
        let n = unat (from_le (take 4 (drop (p + 4) bs)) :: u32); data = take n (drop (p + 10) bs) in
        if n > cap \<or> p + 10 + n > length bs then Option.bind (next_magic bs (Suc p)) (record_scan crc cap bs)
        else if p + 14 + n > length bs then None
        else if crc (take 6 (drop (p + 4) bs) @ data) \<noteq> from_le (take 4 (drop (p + 10 + n) bs))
        then Option.bind (next_magic bs (Suc p)) (record_scan crc cap bs)
        else Some (\<lparr>rec_data_type = from_le (take 1 (drop (p + 9) bs)), rec_data_version = from_le (take 1 (drop (p + 8) bs)),
                    rec_data = data, rec_pos = of_nat p\<rparr>, p + 14 + n))"
  by pat_completeness auto
termination
  by (relation "measure (\<lambda>(crc, cap, bs, p). length bs - p)") (auto dest!: next_magic_Some)

declare record_scan.simps [simp del]

lemma find_magic_scan:
  assumes "reader_wf r" "4 \<le> length (rd_buf r)"
  shows "\<exists>r'. find_magic oc r = Some (r', case next_magic (file_bytes (rd_file r)) (rd_pos r) of Some q \<Rightarrow> Ok () | None \<Rightarrow> Err Eof) \<and>
    reader_wf r' \<and> same_source r r' \<and>
    (\<forall>q. next_magic (file_bytes (rd_file r)) (rd_pos r) = Some q \<longrightarrow> rd_pos r' = q)"
  using assms
proof (induction "f_len (rd_file r) - rd_pos r" arbitrary: r rule: less_induct)
  case less
  let ?bs = "file_bytes (rd_file r)" and ?p = "rd_pos r"
  obtain r1 where r1: "read_buf oc 4 r = (r1, if ?p + 4 \<le> f_len (rd_file r) then Ok (?p, take 4 (drop ?p ?bs)) else Err Eof)"
    "reader_wf r1" "same_source r r1"
    using read_buf_Ok[OF less.prems(1), of oc 4] less.prems(2) by auto
  show ?case
  proof (cases "?p + 4 \<le> f_len (rd_file r)")
    case False
    then have "next_magic ?bs ?p = None" by (auto simp: next_magic_def find_None_iff magic_at_def)
    then show ?thesis using False r1 by (subst find_magic.simps) (simp add: record_lens)
  next
    case True
    have src: "rd_file r1 = rd_file r" "length (rd_buf r1) = length (rd_buf r)" using r1(3) by (simp_all add: same_source_def)
    show ?thesis
    proof (cases "magic_at ?bs ?p")
      case m: True
      then have "next_magic ?bs ?p = Some ?p" using True by (subst next_magic_step) simp
      moreover obtain r2 where "set_pos oc ?p r1 = (r2, Ok ())" "reader_wf r2" "same_source r1 r2" "rd_pos r2 = ?p"
        using set_pos_Ok[OF r1(2), of ?p oc] True src by auto
      ultimately show ?thesis
        using True m r1 by (subst find_magic.simps) (auto simp: record_lens magic_at_def same_source_def)
    next
      case m: False
      obtain r2 where r2: "set_pos oc (?p + 1) r1 = (r2, Ok ())" "reader_wf r2" "same_source r1 r2" "rd_pos r2 = ?p + 1"
        using set_pos_Ok[OF r1(2), of "?p + 1" oc] True src by auto
      have src2: "rd_file r2 = rd_file r" "length (rd_buf r2) = length (rd_buf r)" using r2(3) src by (simp_all add: same_source_def)
      have nm: "next_magic ?bs ?p = next_magic ?bs (Suc ?p)" using m True by (subst next_magic_step) simp
      have eq: "find_magic oc r = find_magic oc r2"
        using True m r1(1) r2(1) by (subst find_magic.simps) (simp add: record_lens magic_at_def)
      have "f_len (rd_file r2) - rd_pos r2 < f_len (rd_file r) - rd_pos r" "4 \<le> length (rd_buf r2)"
        using True src2 r2(4) less.prems(2) by simp_all
      from less.hyps[OF this(1) r2(2) this(2)] show ?thesis
        unfolding eq using nm src2 r2(4) by (auto simp: same_source_def)
    qed
  qed
qed

text \<open>The outcome of one attempt at a position.\<close>

definition attempt_at :: "(bytes \<Rightarrow> u32) \<Rightarrow> nat \<Rightarrow> bytes \<Rightarrow> nat \<Rightarrow> (RecordFileError, attempt) result" where
  "attempt_at crc cap bs p =
     (if p + 10 > length bs then Err Eof
      else if \<not> magic_at bs p then Ok (Resync p)
      else
        let n = unat (from_le (take 4 (drop (p + 4) bs)) :: u32); data = take n (drop (p + 10) bs) in
        if n > cap \<or> p + 10 + n > length bs then Ok (Resync (p + 1))
        else if p + 14 + n > length bs then Err Eof
        else if crc (take 6 (drop (p + 4) bs) @ data) \<noteq> from_le (take 4 (drop (p + 10 + n) bs)) then Ok (Resync (p + 1))
        else Ok (Whole \<lparr>rec_data_type = from_le (take 1 (drop (p + 9) bs)), rec_data_version = from_le (take 1 (drop (p + 8) bs)),
                         rec_data = data, rec_pos = of_nat p\<rparr>))"

lemma record_scan_attempt:
  "record_scan crc cap bs p =
     (case attempt_at crc cap bs p of
        Ok (Whole x) \<Rightarrow> Some (x, p + 14 + length (rec_data x))
      | Ok (Resync q) \<Rightarrow> Option.bind (next_magic bs q) (record_scan crc cap bs)
      | _ \<Rightarrow> None)"
  by (subst record_scan.simps) (auto simp: attempt_at_def Let_def next_magic_step[of bs p])

lemma attempt_at_Resync:
  assumes "attempt_at crc cap bs p = Ok (Resync q)"
  shows "q \<le> length bs" "next_magic bs q = Some q' \<Longrightarrow> p < q'"
proof -
  have q: "q = p + 1 \<or> q = p \<and> \<not> magic_at bs p" "q \<le> length bs"
    using assms by (auto simp: attempt_at_def Let_def split: if_splits)
  show "q \<le> length bs" by (rule q)
  show "p < q'" if "next_magic bs q = Some q'"
    using q(1) next_magic_Some[OF that] by (cases "p = q'") auto
qed

lemma attempt_at_outcomes: "attempt_at crc cap bs p \<noteq> Panic" "attempt_at crc cap bs p = Err e \<Longrightarrow> e = Eof"
  by (auto simp: attempt_at_def Let_def split: if_splits)

lemma read_attempt_at:
  assumes "reader_wf r" "10 \<le> length (rd_buf r)"
  shows "\<exists>r'. read_attempt oc crc r = (r', attempt_at crc (length (rd_buf r)) (file_bytes (rd_file r)) (rd_pos r)) \<and>
    reader_wf r' \<and> same_source r r' \<and>
    (\<forall>x. attempt_at crc (length (rd_buf r)) (file_bytes (rd_file r)) (rd_pos r) = Ok (Whole x) \<longrightarrow>
      rd_pos r' = rd_pos r + 14 + length (rec_data x))"
proof -
  let ?bs = "file_bytes (rd_file r)" and ?p = "rd_pos r" and ?cap = "length (rd_buf r)"
  obtain r1 where r1: "read_buf oc 10 r = (r1, if ?p + 10 \<le> length ?bs then Ok (?p, take 10 (drop ?p ?bs)) else Err Eof)"
    "reader_wf r1" "same_source r r1" "?p + 10 \<le> length ?bs \<Longrightarrow> rd_pos r1 = ?p + 10"
    using read_buf_Ok[OF assms(1), of oc 10] assms(2) by auto
  have head: "4 + 4 + 1 + 1 = (10 :: nat)" by simp
  show ?thesis
  proof (cases "?p + 10 \<le> length ?bs \<and> magic_at ?bs ?p")
    case False
    then show ?thesis
      using r1 by (auto simp: read_attempt_def record_lens head attempt_at_def magic_at_def)
  next
    case True
    define n where "n = unat (from_le (take 4 (drop (?p + 4) ?bs)) :: u32)"
    obtain r2 where r2: "read_buf oc n r1 = (r2, if n \<le> ?cap \<and> ?p + 10 + n \<le> length ?bs then Ok (?p + 10, take n (drop (?p + 10) ?bs)) else Err Eof)"
      "reader_wf r2" "same_source r r2" "n \<le> ?cap \<and> ?p + 10 + n \<le> length ?bs \<Longrightarrow> rd_pos r2 = ?p + 10 + n"
      using read_buf_Ok[OF r1(2), of oc n] r1(3,4) True by (auto simp: same_source_def)
    obtain r3 where r3: "n \<le> ?cap \<and> ?p + 10 + n \<le> length ?bs \<Longrightarrow>
       read_buf oc 4 r2 = (r3, if ?p + 14 + n \<le> length ?bs then Ok (?p + 10 + n, take 4 (drop (?p + 10 + n) ?bs)) else Err Eof)"
      "reader_wf r3" "same_source r r3" "n \<le> ?cap \<and> ?p + 14 + n \<le> length ?bs \<Longrightarrow> rd_pos r3 = ?p + 14 + n"
      using read_buf_Ok[OF r2(2), of oc 4] r2(3,4) assms(2) by (auto simp: same_source_def algebra_simps)
    have parts: "take 4 (take 10 (drop ?p ?bs)) = take 4 (drop ?p ?bs)" "take 4 (drop 4 (take 10 (drop ?p ?bs))) = take 4 (drop (?p + 4) ?bs)"
      "take 1 (drop 8 (take 10 (drop ?p ?bs))) = take 1 (drop (?p + 8) ?bs)" "take 1 (drop 9 (take 10 (drop ?p ?bs))) = take 1 (drop (?p + 9) ?bs)"
      "drop 4 (take 10 (drop ?p ?bs)) = take 6 (drop (?p + 4) ?bs)"
      "take 4 (take 6 (drop (?p + 4) ?bs)) = take 4 (drop (?p + 4) ?bs)"
      by (simp_all add: drop_take ac_simps)
    have at: "read_attempt oc crc r = (case read_buf oc n r1 of
           (r, Err _) \<Rightarrow> (r, Ok (Resync (?p + 1)))
         | (r, Panic) \<Rightarrow> (r, Panic)
         | (r, Ok (_, data)) \<Rightarrow>
             and_then (read_buf oc 4 r) (\<lambda>r (_, crc32_number_buf).
               if crc (take 6 (drop (?p + 4) ?bs) @ data) \<noteq> from_le crc32_number_buf then (r, Ok (Resync (?p + 1)))
               else (r, Ok (Whole \<lparr>rec_data_type = from_le (take 1 (drop (?p + 9) ?bs)), rec_data_version = from_le (take 1 (drop (?p + 8) ?bs)),
                                    rec_data = data, rec_pos = of_nat ?p\<rparr>))))"
      using True r1(1) by (simp only: read_attempt_def record_lens head and_then.simps if_True if_False simp_thms prod.case parts magic_at_def Let_def n_def)
    show ?thesis
    proof (cases "n \<le> ?cap \<and> ?p + 10 + n \<le> length ?bs")
      case False
      then show ?thesis using True r2 unfolding at by (auto simp: attempt_at_def Let_def simp flip: n_def)
    next
      case fits: True
      then show ?thesis using True r2(1) r3 unfolding at by (auto simp: attempt_at_def Let_def simp flip: n_def)
    qed
  qed
qed

lemma read_record_scan:
  assumes "reader_wf r" "10 \<le> length (rd_buf r)"
  shows "\<exists>r'. read_record oc crc r =
      Some (r', case record_scan crc (length (rd_buf r)) (file_bytes (rd_file r)) (rd_pos r) of Some (x, q) \<Rightarrow> Ok x | None \<Rightarrow> Err Eof) \<and>
    reader_wf r' \<and> same_source r r' \<and>
    (\<forall>x q. record_scan crc (length (rd_buf r)) (file_bytes (rd_file r)) (rd_pos r) = Some (x, q) \<longrightarrow> rd_pos r' = q)"
  using assms
proof (induction "f_len (rd_file r) - rd_pos r" arbitrary: r rule: less_induct)
  case less
  let ?bs = "file_bytes (rd_file r)" and ?p = "rd_pos r" and ?cap = "length (rd_buf r)"
  obtain r1 where r1: "read_attempt oc crc r = (r1, attempt_at crc ?cap ?bs ?p)" "reader_wf r1" "same_source r r1"
    "\<forall>x. attempt_at crc ?cap ?bs ?p = Ok (Whole x) \<longrightarrow> rd_pos r1 = ?p + 14 + length (rec_data x)"
    using read_attempt_at[OF less.prems, of oc crc] by blast
  show ?case
  proof (cases "attempt_at crc ?cap ?bs ?p")
    case (Ok a)
    show ?thesis
    proof (cases a)
      case (Whole x)
      then show ?thesis using r1 Ok by (subst read_record.simps) (simp add: record_scan_attempt[of crc ?cap ?bs ?p])
    next
      case (Resync q)
      have at: "attempt_at crc ?cap ?bs ?p = Ok (Resync q)" using Ok Resync by simp
      note q = attempt_at_Resync[OF at]
      obtain r2 where r2: "set_pos oc q r1 = (r2, Ok ())" "reader_wf r2" "same_source r r2" "rd_pos r2 = q"
        using set_pos_Ok[OF r1(2), of q oc] q(1) r1(3) by (auto simp: same_source_def)
      obtain r3 where r3: "find_magic oc r2 = Some (r3, case next_magic ?bs q of Some q \<Rightarrow> Ok () | None \<Rightarrow> Err Eof)"
        "reader_wf r3" "same_source r r3" "\<forall>q'. next_magic ?bs q = Some q' \<longrightarrow> rd_pos r3 = q'"
        using find_magic_scan[OF r2(2), of oc] r2(3,4) less.prems(2) by (auto simp: same_source_def)
      have rr: "read_record oc crc r = (case next_magic ?bs q of Some q \<Rightarrow> read_record oc crc r3 | None \<Rightarrow> Some (r3, Err Eof))"
        using r1(1) at r2(1) r3(1) by (subst read_record.simps) (simp split: option.splits)
      have sc: "record_scan crc ?cap ?bs ?p = Option.bind (next_magic ?bs q) (record_scan crc ?cap ?bs)"
        by (simp add: record_scan_attempt[of crc ?cap ?bs ?p] at)
      show ?thesis
      proof (cases "next_magic ?bs q")
        case None
        then show ?thesis using rr sc r3(2,3) by simp
      next
        case (Some q')
        have "?p < q'" "q' < length ?bs" using q(2) next_magic_Some[OF Some] Some by auto
        then have "f_len (rd_file r3) - rd_pos r3 < f_len (rd_file r) - ?p" "10 \<le> length (rd_buf r3)"
          using r3(3,4) Some less.prems(2) by (auto simp: same_source_def)
        from less.hyps[OF this(1) r3(2) this(2)] show ?thesis
          using rr sc Some r3(3,4) by (auto simp: same_source_def)
      qed
    qed
  next
    case (Err e)
    then show ?thesis using r1 attempt_at_outcomes(2)[OF Err]
      by (subst read_record.simps) (simp add: record_scan_attempt[of crc ?cap ?bs ?p])
  next
    case Panic
    then show ?thesis using attempt_at_outcomes(1) by blast
  qed
qed

subsection \<open>What the writer leaves\<close>

lemma length_le_bytes [simp, bytes_simps]: "length (le_bytes n v) = n"
  by (simp add: le_bytes_def)

lemma from_le_le_bytes [simp, bytes_simps]: "LENGTH('a) \<le> 8 * n \<Longrightarrow> from_le (le_bytes n (v :: 'a::len word)) = v"
  by (simp add: from_le_def le_bytes_def)

type_synonym Entry = "u8 \<times> u8 \<times> bytes"

fun framed :: "(bytes \<Rightarrow> u32) \<Rightarrow> Entry \<Rightarrow> bytes" where
  "framed crc (v, t, d) =
     le_bytes 4 MAGIC_NUMBER @ le_bytes 4 (of_nat (length d) :: u32) @ le_bytes 1 v @ le_bytes 1 t @ d @
     le_bytes 4 (crc (le_bytes 4 (of_nat (length d) :: u32) @ le_bytes 1 v @ le_bytes 1 t @ d))"

fun entry_record :: "nat \<Rightarrow> Entry \<Rightarrow> Record" where
  "entry_record p (v, t, d) = \<lparr>rec_data_type = t, rec_data_version = v, rec_data = d, rec_pos = of_nat p\<rparr>"

definition readable :: "Entry \<Rightarrow> bool" where
  "readable e \<longleftrightarrow> length (snd (snd e)) \<le> READER_BUF_SIZE"

lemma length_framed [simp]: "length (framed crc e) = 14 + length (snd (snd e))"
  by (cases e) simp

lemma readable_size: "readable e \<Longrightarrow> length (snd (snd e)) < 2 ^ 32"
  by (simp add: readable_def READER_BUF_SIZE_def)

lemma record_buf_framed: "length d < 2 ^ 32 \<Longrightarrow> record_buf crc v t d = Ok (framed crc (v, t, d))"
  by (simp add: record_buf_def record_lens Let_def)

lemma attempt_at_framed:
  assumes "length d \<le> cap" "length d < 2 ^ 32"
  shows "attempt_at crc cap (pre @ framed crc (v, t, d) @ post) (length pre) = Ok (Whole (entry_record (length pre) (v, t, d)))"
proof -
  let ?h = "le_bytes 4 MAGIC_NUMBER" and ?l = "le_bytes 4 (of_nat (length d) :: u32)" and ?v = "le_bytes 1 v" and ?t = "le_bytes 1 t"
  let ?c = "le_bytes 4 (crc (?l @ ?v @ ?t @ d))"
  have split: "pre @ framed crc (v, t, d) @ post = pre @ ?h @ ?l @ ?v @ ?t @ d @ ?c @ post" by simp
  have n: "unat (of_nat (length d) :: u32) = length d" using assms(2) by (simp add: unat_of_nat)
  have six: "take 6 (?l @ ?v @ ?t @ d @ ?c @ post) = ?l @ ?v @ ?t" by simp
  show ?thesis
    using assms(1) unfolding split by (simp add: attempt_at_def magic_at_def Let_def n six)
qed

lemma record_scan_framed:
  assumes "length d \<le> cap" "length d < 2 ^ 32"
  shows "record_scan crc cap (pre @ framed crc (v, t, d) @ post) (length pre) =
    Some (entry_record (length pre) (v, t, d), length pre + length (framed crc (v, t, d)))"
  by (subst record_scan_attempt) (simp only: attempt_at_framed[OF assms], simp)

lemma record_write_loop_append:
  assumes "file_wf f" "f_len f + (length buf - p) < f_cap f" "p \<le> length buf"
  shows "\<exists>f'. record_write_loop f buf p (f_len f) = Ok f' \<and> file_wf f' \<and> f_page_len f' = f_page_len f \<and>
    f_len f' = f_len f + (length buf - p) \<and> file_bytes f' = file_bytes f @ drop p buf"
  using assms
proof (induction "length buf - p" arbitrary: f p rule: less_induct)
  case less
  show ?case
  proof (cases "p < length buf")
    case False
    then show ?thesis using less.prems by (subst record_write_loop.simps) simp
  next
    case True
    define n where "n = min (BLOCK_SIZE - f_len f mod BLOCK_SIZE) (length buf - p)"
    have n: "0 < n" "p + n \<le> length buf" using True by (auto simp: n_def BLOCK_SIZE_def)
    let ?part = "take n (drop p buf)"
    have part: "length ?part = n" using n(2) by simp
    have "f_len f + length ?part < f_cap f" using less.prems(2) n(2) part by linarith
    from file_append[OF less.prems(1) this] obtain f1 where f1: "file_write_at f (f_len f) ?part = Ok (f1, n)" "file_wf f1"
      "f_page_len f1 = f_page_len f" "f_len f1 = f_len f + n" "file_bytes f1 = file_bytes f @ ?part"
      unfolding part by blast
    have lt: "length buf - (p + n) < length buf - p" "f_len f1 + (length buf - (p + n)) < f_cap f1"
      using n less.prems(2) f1(3,4) by simp_all
    have "record_write_loop f buf p (f_len f) = record_write_loop f1 buf (p + n) (f_len f1)"
      using True f1(1,4) by (subst record_write_loop.simps) (simp add: Let_def flip: n_def)
    moreover have "?part @ drop (p + n) buf = drop p buf" by (metis append_take_drop_id drop_drop add.commute)
    ultimately show ?thesis
      using less.hyps[OF lt(1) f1(2) lt(2) n(2)] f1(3-5) n(2) by auto
  qed
qed

lemma write_record_append:
  assumes "file_wf (wr_file w)" "length d < 2 ^ 32" "f_len (wr_file w) + (14 + length d) < f_cap (wr_file w)"
  shows "\<exists>w'. write_record crc w v t d = Ok (w', f_len (wr_file w)) \<and> file_wf (wr_file w') \<and>
    f_page_len (wr_file w') = f_page_len (wr_file w) \<and> f_len (wr_file w') = f_len (wr_file w) + (14 + length d) \<and>
    file_bytes (wr_file w') = file_bytes (wr_file w) @ framed crc (v, t, d)"
  using record_write_loop_append[OF assms(1), of "framed crc (v, t, d)" 0] assms(3)
  by (auto simp: write_record_def record_buf_framed[OF assms(2)] simp del: framed.simps)

subsection \<open>Reading all records\<close>

text \<open>The loop over the records of a file, which ends with the first error.\<close>

partial_function (option) read_all ::
  "bool \<Rightarrow> (bytes \<Rightarrow> u32) \<Rightarrow> Reader \<Rightarrow> Record list \<Rightarrow> (RecordFileError, Record list) result option" where
  "read_all oc crc r acc =
     Option.bind (read_record oc crc r) (\<lambda>(r, res).
       case res of Ok x \<Rightarrow> read_all oc crc r (acc @ [x]) | Err e \<Rightarrow> Some (Ok acc) | Panic \<Rightarrow> Some Panic)"

primrec entry_records :: "nat \<Rightarrow> Entry list \<Rightarrow> Record list" where
  "entry_records p [] = []"
| "entry_records p (e # es) = entry_record p e # entry_records (p + 14 + length (snd (snd e))) es"

lemma length_entry_records [simp]: "length (entry_records p es) = length es"
  by (induction es arbitrary: p) auto

text \<open>One step of such a loop: at the end of the file, and at a record.\<close>

lemma read_record_end:
  assumes "reader_wf r" "length (rd_buf r) = READER_BUF_SIZE" "rd_pos r = length (file_bytes (rd_file r))"
  shows "\<exists>r'. read_record oc crc r = Some (r', Err Eof)"
proof -
  have "record_scan crc READER_BUF_SIZE (file_bytes (rd_file r)) (rd_pos r) = None" by (subst record_scan.simps) (simp add: assms(3))
  then show ?thesis using read_record_scan[OF assms(1), of oc crc] assms(2) by (auto simp: READER_BUF_SIZE_def)
qed

lemma read_record_framed:
  assumes "reader_wf r" "length (rd_buf r) = READER_BUF_SIZE" "file_bytes (rd_file r) = pre @ framed crc e @ post"
    and "rd_pos r = length pre" "readable e"
  shows "\<exists>r'. read_record oc crc r = Some (r', Ok (entry_record (length pre) e)) \<and> reader_wf r' \<and> rd_file r' = rd_file r \<and>
    length (rd_buf r') = READER_BUF_SIZE \<and> rd_pos r' = length (pre @ framed crc e)"
proof -
  obtain v t d where e: "e = (v, t, d)" by (cases e)
  have d: "length d \<le> READER_BUF_SIZE" "length d < 2 ^ 32" using assms(5) readable_size[of "(v, t, d)"] by (auto simp: e readable_def)
  have "record_scan crc READER_BUF_SIZE (file_bytes (rd_file r)) (length pre) = Some (entry_record (length pre) e, length (pre @ framed crc e))"
    using record_scan_framed[OF d, of crc pre v t post] assms(3) by (simp add: e del: framed.simps)
  moreover have "10 \<le> length (rd_buf r)" using assms(2) by (simp add: READER_BUF_SIZE_def)
  ultimately show ?thesis using read_record_scan[OF assms(1), of oc crc] assms(2,4) by (auto simp: same_source_def simp del: framed.simps)
qed

lemma read_all_framed:
  assumes "reader_wf r" "length (rd_buf r) = READER_BUF_SIZE" "file_bytes (rd_file r) = pre @ concat (map (framed crc) es)"
    and "rd_pos r = length pre" "\<forall>e \<in> set es. readable e"
  shows "read_all oc crc r acc = Some (Ok (acc @ entry_records (length pre) es))"
  using assms
proof (induction es arbitrary: r pre acc)
  case Nil
  then obtain r' where "read_record oc crc r = Some (r', Err Eof)" using read_record_end[of r oc crc] by auto
  then show ?case by (subst read_all.simps) simp
next
  case (Cons e es)
  let ?pre = "pre @ framed crc e"
  obtain r' where r': "read_record oc crc r = Some (r', Ok (entry_record (length pre) e))" "reader_wf r'" "rd_file r' = rd_file r"
    "length (rd_buf r') = READER_BUF_SIZE" "rd_pos r' = length ?pre"
    using read_record_framed[OF Cons.prems(1,2) _ Cons.prems(4), of crc e "concat (map (framed crc) es)" oc] Cons.prems(3,5) by auto
  have "read_all oc crc r' (acc @ [entry_record (length pre) e]) =
    Some (Ok ((acc @ [entry_record (length pre) e]) @ entry_records (length ?pre) es))"
    using Cons.prems(3,5) r'(3-5) by (intro Cons.IH[OF r'(2)]) (auto simp del: framed.simps)
  then show ?case using r'(1) by (subst read_all.simps) (simp add: add.assoc del: framed.simps)
qed

lemma reader_new_wf:
  assumes "file_wf f"
  shows "\<exists>r. reader_new (\<lambda>_. Ok f) path = Ok r \<and> reader_wf r \<and> rd_file r = f \<and> rd_pos r = 0 \<and> length (rd_buf r) = READER_BUF_SIZE"
  using assms by (simp add: reader_new_def reader_wf_def)

text \<open>Writing a sequence of entries.\<close>

fun write_records :: "(bytes \<Rightarrow> u32) \<Rightarrow> Writer \<Rightarrow> Entry list \<Rightarrow> (RecordFileError, Writer \<times> nat list) result" where
  "write_records crc w [] = Ok (w, [])"
| "write_records crc w ((v, t, d) # es) =
     rbind (write_record crc w v t d) (\<lambda>(w, p). rbind (write_records crc w es) (\<lambda>(w, ps). Ok (w, p # ps)))"

definition entries_size :: "Entry list \<Rightarrow> nat" where
  "entries_size es = sum_list (map (\<lambda>e. 14 + length (snd (snd e))) es)"

lemma write_records_append:
  assumes "file_wf (wr_file w)" "\<forall>e \<in> set es. length (snd (snd e)) < 2 ^ 32" "f_len (wr_file w) + entries_size es < f_cap (wr_file w)"
  shows "\<exists>w'. write_records crc w es = Ok (w', map (unat \<circ> rec_pos) (entry_records (f_len (wr_file w)) es)) \<and> file_wf (wr_file w') \<and>
    f_page_len (wr_file w') = f_page_len (wr_file w) \<and>
    file_bytes (wr_file w') = file_bytes (wr_file w) @ concat (map (framed crc) es)"
  using assms
proof (induction es arbitrary: w)
  case (Cons e es)
  obtain v t d where e: "e = (v, t, d)" by (cases e)
  have d: "length d < 2 ^ 32" "f_len (wr_file w) + (14 + length d) + entries_size es < f_cap (wr_file w)"
    using Cons.prems(2,3) by (auto simp: e entries_size_def)
  then have "f_len (wr_file w) + (14 + length d) < f_cap (wr_file w)" by linarith
  from write_record_append[OF Cons.prems(1) d(1) this] obtain w1 where w1: "write_record crc w v t d = Ok (w1, f_len (wr_file w))"
    "file_wf (wr_file w1)" "f_page_len (wr_file w1) = f_page_len (wr_file w)" "f_len (wr_file w1) = f_len (wr_file w) + (14 + length d)"
    "file_bytes (wr_file w1) = file_bytes (wr_file w) @ framed crc (v, t, d)"
    by blast
  have "f_len (wr_file w1) + entries_size es < f_cap (wr_file w1)" using d(2) w1(3,4) by simp
  from Cons.IH[OF w1(2) _ this] obtain w2 where w2: "write_records crc w1 es = Ok (w2, map (unat \<circ> rec_pos) (entry_records (f_len (wr_file w1)) es))"
    "file_wf (wr_file w2)" "f_page_len (wr_file w2) = f_page_len (wr_file w1)"
    "file_bytes (wr_file w2) = file_bytes (wr_file w1) @ concat (map (framed crc) es)"
    using Cons.prems(2) by auto
  have "f_len (wr_file w) < 2 ^ 64" using file_wfD(3,6)[OF Cons.prems(1)] by linarith
  then have "unat (of_nat (f_len (wr_file w)) :: u64) = f_len (wr_file w)" by (simp add: unat_of_nat)
  then show ?case using w1 w2 by (simp add: e add.assoc del: framed.simps)
qed simp

lemma read_one_framed:
  assumes "file_wf (rd_file r)" "file_bytes (rd_file r) = pre @ framed crc e @ post" "length (snd (snd e)) < 2 ^ 32"
  shows "read_one r (length pre) = Ok (entry_record (length pre) e)"
proof -
  obtain v t d where e: "e = (v, t, d)" by (cases e)
  let ?h = "le_bytes 4 MAGIC_NUMBER @ le_bytes 4 (of_nat (length d) :: u32) @ le_bytes 1 v @ le_bytes 1 t"
  let ?c = "le_bytes 4 (crc (le_bytes 4 (of_nat (length d) :: u32) @ le_bytes 1 v @ le_bytes 1 t @ d))"
  have bs: "file_bytes (rd_file r) = pre @ ?h @ d @ ?c @ post" using assms(2) by (simp add: e)
  have n: "unat (of_nat (length d) :: u32) = length d" using assms(3) by (simp add: e unat_of_nat)
  have len: "f_len (rd_file r) = length pre + 14 + length d + length post"
    using arg_cong[OF bs, of length] by simp
  have "file_read_at (rd_file r) (length pre) 10 = Ok ?h" "file_read_at (rd_file r) (length pre + 10) (length d) = Ok d"
    using file_read_at_Ok[OF assms(1)] len by (simp_all add: bs)
  then show ?thesis by (simp add: read_one_def record_lens Let_def n e)
qed

lemma length_framed_concat [simp]: "length (concat (map (framed crc) es)) = entries_size es"
  by (induction es) (simp_all add: entries_size_def del: framed.simps)

lemma nth_entry_records: "i < length es \<Longrightarrow> entry_records p es ! i = entry_record (p + entries_size (take i es)) (es ! i)"
proof (induction es arbitrary: p i)
  case (Cons e es)
  then show ?case by (cases i) (simp_all add: entries_size_def add.assoc)
qed simp

lemma entry_records_append: "entry_records p (es @ fs) = entry_records p es @ entry_records (p + entries_size es) fs"
  by (induction es arbitrary: p) (simp_all add: entries_size_def add.assoc)

lemma framed_split:
  "i < length es \<Longrightarrow> concat (map (framed crc) es) =
    concat (map (framed crc) (take i es)) @ framed crc (es ! i) @ concat (map (framed crc) (drop (Suc i) es))"
  using arg_cong[OF id_take_nth_drop, of i es "\<lambda>es. concat (map (framed crc) es)"] by (simp del: framed.simps)

lemma read_one_record:
  assumes "file_wf (rd_file r)" "file_bytes (rd_file r) = concat (map (framed crc) es)" "\<forall>e \<in> set es. length (snd (snd e)) < 2 ^ 32" "i < length es"
  shows "read_one r (unat (rec_pos (entry_records 0 es ! i))) = Ok (entry_records 0 es ! i)"
proof -
  let ?pre = "concat (map (framed crc) (take i es))"
  have "length ?pre \<le> f_len (rd_file r)" using framed_split[OF assms(4), of crc] assms(2) length_file_bytes[of "rd_file r"] by simp
  then have "length ?pre < 2 ^ 64" using file_wfD(3,6)[OF assms(1)] by linarith
  then have p: "unat (of_nat (length ?pre) :: u64) = length ?pre" by (rule unat_u64)
  have rec: "entry_records 0 es ! i = entry_record (length ?pre) (es ! i)" using nth_entry_records[OF assms(4), of 0] by simp
  then have "rec_pos (entry_records 0 es ! i) = of_nat (length ?pre)" by (cases "es ! i") simp
  moreover have "read_one r (length ?pre) = Ok (entry_record (length ?pre) (es ! i))"
    using read_one_framed[of r ?pre crc "es ! i"] framed_split[OF assms(4), of crc] assms(1-3) nth_mem[OF assms(4)] by auto
  ultimately show ?thesis using p rec by simp
qed

subsection \<open>Properties\<close>

text \<open>C30: Reading a record ends on every file, damaged or not, without a panic: it returns what a scan over the
  bytes of the file finds, which is the next record with a correct checksum, or the end of the file.\<close>

theorem record_reader_refines:
  assumes "reader_wf r" and "10 \<le> length (rd_buf r)"
  shows "\<exists>r'. read_record oc crc r =
      Some (r', case record_scan crc (length (rd_buf r)) (file_bytes (rd_file r)) (rd_pos r) of Some (x, q) \<Rightarrow> Ok x | None \<Rightarrow> Err Eof) \<and>
    reader_wf r' \<and> rd_file r' = rd_file r \<and>
    (\<forall>x q. record_scan crc (length (rd_buf r)) (file_bytes (rd_file r)) (rd_pos r) = Some (x, q) \<longrightarrow> rd_pos r' = q)"
  using read_record_scan[OF assms, of oc crc] by (auto simp: same_source_def)

theorem record_reader_refines_witness:
  "\<exists>r'. read_record True (\<lambda>_. 0) \<lparr>rd_path = ''s'', rd_file = blank_file 8 20, rd_buf = replicate 10 0, rd_pos = 3, rd_buf_len = 0, rd_buf_use = 0\<rparr> =
    Some (r', Err Eof)"
proof -
  let ?r = "\<lparr>rd_path = ''s'', rd_file = blank_file 8 20, rd_buf = replicate 10 0, rd_pos = 3, rd_buf_len = 0, rd_buf_use = 0\<rparr> :: Reader"
  have "reader_wf ?r" using blank_file_wf[of 8 20] by (simp add: reader_wf_def) (simp add: blank_file_def)
  moreover have "record_scan (\<lambda>_. 0) (length (rd_buf ?r)) (file_bytes (rd_file ?r)) (rd_pos ?r) = None" by code_simp
  ultimately show ?thesis using record_reader_refines[of ?r True "\<lambda>_. 0"] by auto
qed

text \<open>C31: Records appended to a record file are read back in order, behind the records it had before, with the
  positions the writer returned; each is also found by its position.  The data of a record is at most as long as the
  buffer of the reader, 64 MiB, and the file has room.\<close>

theorem record_file_roundtrip:
  assumes "file_wf f" and "file_bytes f = concat (map (framed crc) old)" and "\<forall>e \<in> set (old @ es). readable e"
    and "f_len f + entries_size es < f_page_len f * 2 ^ 32"
  shows "\<exists>w r. write_records crc \<lparr>wr_path = path, wr_file = f\<rparr> es = Ok (w, map (unat \<circ> rec_pos) (entry_records (f_len f) es)) \<and>
    reader_new (\<lambda>_. Ok (wr_file w)) path = Ok r \<and>
    read_all oc crc r [] = Some (Ok (entry_records 0 (old @ es))) \<and>
    (\<forall>i < length (old @ es). read_one r (unat (rec_pos (entry_records 0 (old @ es) ! i))) = Ok (entry_records 0 (old @ es) ! i))"
proof -
  have sm: "\<forall>e \<in> set (old @ es). length (snd (snd e)) < 2 ^ 32" using assms(3) readable_size by blast
  then obtain w where w: "write_records crc \<lparr>wr_path = path, wr_file = f\<rparr> es = Ok (w, map (unat \<circ> rec_pos) (entry_records (f_len f) es))"
    "file_wf (wr_file w)" "file_bytes (wr_file w) = concat (map (framed crc) (old @ es))"
    using write_records_append[of "\<lparr>wr_path = path, wr_file = f\<rparr>" es crc] assms(1,2,4) by auto
  obtain r where r: "reader_new (\<lambda>_. Ok (wr_file w)) path = Ok r" "reader_wf r" "rd_file r = wr_file w" "rd_pos r = 0"
    "length (rd_buf r) = READER_BUF_SIZE"
    using reader_new_wf[OF w(2), of path] by auto
  have all: "read_all oc crc r [] = Some (Ok (entry_records 0 (old @ es)))"
    using read_all_framed[OF r(2,5), of "[]" crc "old @ es" oc "[]"] w(3) r(3,4) assms(3) by simp
  have one: "\<forall>i < length (old @ es). read_one r (unat (rec_pos (entry_records 0 (old @ es) ! i))) = Ok (entry_records 0 (old @ es) ! i)"
    by (intro allI impI, rule read_one_record[OF _ _ sm]) (use w(2,3) r(3) in simp_all)
  show ?thesis by (intro exI conjI, rule w(1), rule r(1), rule all, rule one)
qed

theorem record_file_roundtrip_witness:
  "\<exists>w r. write_records (\<lambda>b. of_nat (length b)) \<lparr>wr_path = ''s'', wr_file = blank_file 4096 0\<rparr> [(1, 0, [5, 6, 7]), (1, 2, [])] = Ok (w, [0, 17]) \<and>
    reader_new (\<lambda>_. Ok (wr_file w)) ''s'' = Ok r \<and>
    read_all True (\<lambda>b. of_nat (length b)) r [] =
      Some (Ok [\<lparr>rec_data_type = 0, rec_data_version = 1, rec_data = [5, 6, 7], rec_pos = 0\<rparr>,
                \<lparr>rec_data_type = 2, rec_data_version = 1, rec_data = [], rec_pos = 17\<rparr>])"
proof -
  have "file_wf (blank_file 4096 0)" "file_bytes (blank_file 4096 0) = concat (map (framed (\<lambda>b. of_nat (length b))) [])" "f_len (blank_file 4096 0) = 0"
    by (simp_all add: blank_file_wf file_bytes_def) (simp_all add: blank_file_def)
  then show ?thesis
    using record_file_roundtrip[of "blank_file 4096 0" "\<lambda>b. of_nat (length b)" "[]" "[(1, 0, [5, 6, 7]), (1, 2, [])]" "''s''" True]
    by (auto simp: readable_def READER_BUF_SIZE_def entries_size_def blank_file_def)
qed

end
