(* ===== verification/VersionSets.thy ===== *)
theory VersionSets
  imports Families RecordFile "HOL-Library.AList"
begin

text \<open>
  The version set of \<^verbatim>\<open>src/tskv/src/version_set.rs\<close> and the summary of \<^verbatim>\<open>src/tskv/src/summary.rs\<close>: the log of
  version edits, and the recovery of families, versions and levels from it.  A hash map is an association list;
  the order in which the code iterates over one is an argument.  The serialisation of \<^verbatim>\<open>bincode\<close> and what the
  file manager opens are arguments too.  The results are that recovery implements an abstract replay of the edits,
  and that the recovered families satisfy the invariant of \<^verbatim>\<open>Families\<close> with no cache in common.
\<close>

subsection \<open>Version edits\<close>

record VersionEdit =
  ve_level :: u32
  ve_has_seq_no :: bool
  ve_seq_no :: u64
  ve_has_file_id :: bool
  ve_file_id :: u64
  ve_add_files :: "CompactMeta list"
  ve_del_files :: "CompactMeta list"
  ve_del_tsf :: bool
  ve_add_tsf :: bool
  ve_tsf_id :: u32
  ve_tsf_name :: string
  ve_max_level_ts :: i64

definition version_edit_new :: VersionEdit where
  "version_edit_new =
     \<lparr>ve_level = 0, ve_has_seq_no = False, ve_seq_no = 0, ve_has_file_id = False, ve_file_id = 0, ve_add_files = [], ve_del_files = [],
      ve_del_tsf = False, ve_add_tsf = False, ve_tsf_id = 0, ve_tsf_name = '''', ve_max_level_ts = i64_MIN\<rparr>"

record Bincode =
  bc_serialize :: "VersionEdit \<Rightarrow> (string, bytes) result"
  bc_deserialize :: "bytes \<Rightarrow> (string, VersionEdit) result"

definition version_edit_encode :: "Bincode \<Rightarrow> VersionEdit \<Rightarrow> (TskvError, bytes) result" where
  "version_edit_encode bc edit = map_err EEncode (bc_serialize bc edit)"

definition version_edit_decode :: "Bincode \<Rightarrow> bytes \<Rightarrow> (TskvError, VersionEdit) result" where
  "version_edit_decode bc buf = map_err EDecode (bc_deserialize bc buf)"

text \<open>The id of the family is not used.\<close>

definition edit_add_file :: "u32 \<Rightarrow> u32 \<Rightarrow> u64 \<Rightarrow> u64 \<Rightarrow> i64 \<Rightarrow> CompactMeta \<Rightarrow> VersionEdit \<Rightarrow> VersionEdit" where
  "edit_add_file level tsf_id file_id seq_no max_level_ts meta edit =
     edit\<lparr>ve_has_file_id := True, ve_file_id := file_id, ve_has_seq_no := True, ve_seq_no := seq_no, ve_level := level,
       ve_max_level_ts := max_level_ts, ve_add_files := ve_add_files edit @ [meta]\<rparr>"

definition edit_add_tsf :: "u32 \<Rightarrow> string \<Rightarrow> u64 \<Rightarrow> VersionEdit \<Rightarrow> VersionEdit" where
  "edit_add_tsf tsf_id tsf_name seq_no edit =
     edit\<lparr>ve_add_tsf := True, ve_has_seq_no := True, ve_seq_no := seq_no, ve_tsf_name := tsf_name, ve_tsf_id := tsf_id\<rparr>"

definition edit_del_tsf :: "u32 \<Rightarrow> VersionEdit \<Rightarrow> VersionEdit" where
  "edit_del_tsf tsf_id edit = edit\<lparr>ve_del_tsf := True, ve_tsf_id := tsf_id\<rparr>"

definition edit_del_file :: "VersionEdit \<Rightarrow> VersionEdit" where
  "edit_del_file edit = edit"

definition edit_set_log_seq :: "u64 \<Rightarrow> VersionEdit \<Rightarrow> VersionEdit" where
  "edit_set_log_seq file_id edit = edit\<lparr>ve_file_id := file_id\<rparr>"

definition edit_set_tsf_id :: "u32 \<Rightarrow> VersionEdit \<Rightarrow> VersionEdit" where
  "edit_set_tsf_id tsf_id edit = edit\<lparr>ve_tsf_id := tsf_id\<rparr>"

text \<open>A task has the end of a channel that is told the outcome; it is a number.\<close>

record SummaryTask =
  task_edits :: "VersionEdit list"
  task_cb :: nat

subsection \<open>Version sets\<close>

record VersionSet =
  vs_ts_families :: "(u32 \<times> TseriesFamily) list"
  vs_ts_families_names :: "(string \<times> u32) list"

definition new_default :: VersionSet where
  "new_default = \<lparr>vs_ts_families = [], vs_ts_families_names = []\<rparr>"

definition vs_insert :: "u32 \<Rightarrow> string \<Rightarrow> TseriesFamily \<Rightarrow> VersionSet \<Rightarrow> VersionSet" where
  "vs_insert tf_id name tf vs =
     \<lparr>vs_ts_families = AList.update tf_id tf (vs_ts_families vs), vs_ts_families_names = AList.update name tf_id (vs_ts_families_names vs)\<rparr>"

fun version_set_new_desc ::
  "GlobalConfig \<Rightarrow> u32 \<Rightarrow> string \<Rightarrow> u64 \<Rightarrow> nat \<Rightarrow> TseriesFamDesc list \<Rightarrow> VersionSet \<times> Store \<Rightarrow> VersionSet \<times> Store" where
  "version_set_new_desc cfg tf_id name seq ver [] (vs, st) = (vs, st)"
| "version_set_new_desc cfg tf_id name seq ver (item # desc) (vs, st) =
     (if td_name item = name then
        let (tf, st) = tseries_family_new cfg tf_id name (mem_cache_new tf_id (cfg_max_memcache_size cfg) seq False) ver (td_opt item) st in
        version_set_new_desc cfg tf_id name seq ver desc (vs_insert tf_id name tf vs, st)
      else version_set_new_desc cfg tf_id name seq ver desc (vs, st))"

fun version_set_new_loop :: "GlobalConfig \<Rightarrow> TseriesFamDesc list \<Rightarrow> (u32 \<times> nat) list \<Rightarrow> VersionSet \<times> Store \<Rightarrow> VersionSet \<times> Store" where
  "version_set_new_loop cfg desc [] (vs, st) = (vs, st)"
| "version_set_new_loop cfg desc ((tf_id, ver) # vers_set) (vs, st) =
     (let name = ver_name (st_versions st ! ver);
          seq = ver_last_seq (st_versions st ! ver) in
      version_set_new_loop cfg desc vers_set (version_set_new_desc cfg tf_id name seq ver desc (vs, st)))"

definition version_set_new :: "GlobalConfig \<Rightarrow> TseriesFamDesc list \<Rightarrow> (u32 \<times> nat) list \<Rightarrow> Store \<Rightarrow> VersionSet \<times> Store" where
  "version_set_new cfg desc vers_set st = version_set_new_loop cfg desc vers_set (new_default, st)"

definition vs_switch_memcache :: "GlobalConfig \<Rightarrow> u32 \<Rightarrow> u64 \<Rightarrow> VersionSet \<Rightarrow> Store \<Rightarrow> (TskvError, VersionSet \<times> Store) result" where
  "vs_switch_memcache cfg tf_id seq vs st =
     (case map_of (vs_ts_families vs) tf_id of
        None \<Rightarrow> Panic
      | Some tf \<Rightarrow>
          let (mem, st) = new_mem (mem_cache_new tf_id (cfg_max_memcache_size cfg) seq False) st;
              (tf, st) = tf_switch_memcache mem tf st in
          Ok (vs\<lparr>vs_ts_families := AList.update tf_id tf (vs_ts_families vs)\<rparr>, st))"

text \<open>Both lookups compute the family from the lower half of the series id; the remainder by a number of families that
  is zero as a \<^verbatim>\<open>u32\<close> panics.  The id is returned with the family, so that an update can be stored.\<close>

definition get_tsfamily :: "u64 \<Rightarrow> VersionSet \<Rightarrow> (TskvError, (u32 \<times> TseriesFamily) option) result" where
  "get_tsfamily sid vs =
     (if vs_ts_families vs = [] then Ok None
      else
        let num = of_nat (length (vs_ts_families vs)) :: u32 in
        if num = 0 then Panic
        else
          let partid = ucast sid mod num in
          Ok (map_option (Pair partid) (map_of (vs_ts_families vs) partid)))"

definition send_summary_task :: "bool \<Rightarrow> SummaryTask \<Rightarrow> SummaryTask list \<Rightarrow> SummaryTask list" where
  "send_summary_task open_rx task tasks = (if open_rx then tasks @ [task] else tasks)"

text \<open>The version gets the file id as its last sequence number, and the edit a fixed name.\<close>

definition add_tsfamily ::
  "GlobalConfig \<Rightarrow> bool \<Rightarrow> nat \<Rightarrow> u32 \<Rightarrow> string \<Rightarrow> u64 \<Rightarrow> u64 \<Rightarrow> TseriesFamOpt \<Rightarrow> VersionSet \<Rightarrow> Store \<Rightarrow> SummaryTask list \<Rightarrow>
   VersionSet \<times> Store \<times> SummaryTask list" where
  "add_tsfamily cfg open_rx cb tf_id name seq_no file_id opt vs st tasks =
     (let ver = length (st_versions st);
          st = st\<lparr>st_versions := st_versions st @ [version_new tf_id file_id name [] i64_MIN]\<rparr>;
          (tf, st) = tseries_family_new cfg tf_id name (mem_cache_new tf_id (cfg_max_memcache_size cfg) seq_no False) ver opt st;
          vs = vs_insert tf_id name tf vs;
          edit = edit_add_tsf tf_id ''hello'' 0 version_edit_new in
      (vs, st, send_summary_task open_rx \<lparr>task_edits = [edit], task_cb = cb\<rparr> tasks))"

definition del_tsfamily ::
  "bool \<Rightarrow> nat \<Rightarrow> u32 \<Rightarrow> string \<Rightarrow> VersionSet \<Rightarrow> SummaryTask list \<Rightarrow> (TskvError, VersionSet \<times> SummaryTask list) result" where
  "del_tsfamily open_rx cb tf_id name vs tasks =
     (case map_of (vs_ts_families_names vs) name of
        None \<Rightarrow> Panic
      | Some found \<Rightarrow>
          if tf_id \<noteq> found then Ok (vs, tasks)
          else
            Ok (\<lparr>vs_ts_families = AList.delete tf_id (vs_ts_families vs), vs_ts_families_names = AList.delete name (vs_ts_families_names vs)\<rparr>,
                send_summary_task open_rx \<lparr>task_edits = [edit_del_tsf tf_id version_edit_new], task_cb = cb\<rparr> tasks))"

definition tsf_num :: "VersionSet \<Rightarrow> nat" where
  "tsf_num vs = length (vs_ts_families vs)"

subsection \<open>Recovery\<close>

record Recovery =
  rc_tf_cfg :: "TseriesFamDesc list"
  rc_edits :: "(u32 \<times> VersionEdit list) list"
  rc_tf_names :: "(u32 \<times> string) list"
  rc_ctx :: GlobalContext

text \<open>The orders in which the hash maps are iterated over.\<close>

record HashOrder =
  ho_edits :: "(u32 \<times> VersionEdit list) list \<Rightarrow> (u32 \<times> VersionEdit list) list"
  ho_files :: "(u64 \<times> CompactMeta) list \<Rightarrow> (u64 \<times> CompactMeta) list"
  ho_levels :: "(u32 \<times> LevelInfo) list \<Rightarrow> (u32 \<times> LevelInfo) list"
  ho_versions :: "(u32 \<times> nat) list \<Rightarrow> (u32 \<times> nat) list"

definition recover_default :: "GlobalConfig \<Rightarrow> u32 \<Rightarrow> Recovery \<Rightarrow> Recovery" where
  "recover_default cfg i rc =
     (let name = ''default'' @ dec (unat i) in
      rc\<lparr>rc_edits := AList.update i [] (rc_edits rc), rc_tf_names := AList.update i name (rc_tf_names rc),
        rc_tf_cfg := rc_tf_cfg rc @ [\<lparr>td_name = name, td_opt = tseries_fam_opt_default cfg\<rparr>]\<rparr>)"

definition recover_start :: "bool \<Rightarrow> GlobalConfig \<Rightarrow> GlobalContext \<Rightarrow> (TskvError, Recovery) result" where
  "recover_start oc cfg ctx =
     (let rc = foldl (\<lambda>rc i. recover_default cfg (of_nat i) rc) \<lparr>rc_tf_cfg = [], rc_edits = [], rc_tf_names = [], rc_ctx = ctx\<rparr>
                 [0..<unat (cfg_tsfamily_num cfg)] in
      if oc \<and> cfg_tsfamily_num cfg = 0 then Panic
      else Ok (rc\<lparr>rc_ctx := set_max_tsf_idy (cfg_tsfamily_num cfg - 1) (rc_ctx rc)\<rparr>))"

definition recover_edit :: "GlobalConfig \<Rightarrow> VersionEdit \<Rightarrow> Recovery \<Rightarrow> Recovery" where
  "recover_edit cfg ed rc =
     (if ve_add_tsf ed then
        rc\<lparr>rc_ctx := set_max_tsf_idy (ve_tsf_id ed) (rc_ctx rc), rc_edits := AList.update (ve_tsf_id ed) [] (rc_edits rc),
          rc_tf_names := AList.update (ve_tsf_id ed) (ve_tsf_name ed) (rc_tf_names rc),
          rc_tf_cfg := rc_tf_cfg rc @ [\<lparr>td_name = ve_tsf_name ed, td_opt = tseries_fam_opt_default cfg\<rparr>]\<rparr>
      else if ve_del_tsf ed then
        rc\<lparr>rc_edits := AList.delete (ve_tsf_id ed) (rc_edits rc), rc_tf_names := AList.delete (ve_tsf_id ed) (rc_tf_names rc)\<rparr>
      else
        case map_of (rc_edits rc) (ve_tsf_id ed) of
          Some data \<Rightarrow> rc\<lparr>rc_edits := AList.update (ve_tsf_id ed) (data @ [ed]) (rc_edits rc)\<rparr>
        | None \<Rightarrow> rc)"

partial_function (option) recover_loop ::
  "bool \<Rightarrow> (bytes \<Rightarrow> u32) \<Rightarrow> Bincode \<Rightarrow> GlobalConfig \<Rightarrow> Reader \<Rightarrow> Recovery \<Rightarrow> (TskvError, Recovery) result option" where
  "recover_loop oc crc bc cfg rd rc =
     Option.bind (read_record oc crc rd) (\<lambda>(rd, res).
       case res of
         Ok x \<Rightarrow>
           (case version_edit_decode bc (rec_data x) of
              Ok ed \<Rightarrow> recover_loop oc crc bc cfg rd (recover_edit cfg ed rc)
            | Err e \<Rightarrow> Some (Err e)
            | Panic \<Rightarrow> Some Panic)
       | Err _ \<Rightarrow> Some (Ok rc)
       | Panic \<Rightarrow> Some Panic)"

type_synonym family_state = "GlobalContext \<times> u64 \<times> i64 \<times> (u64 \<times> CompactMeta) list"

definition smax :: "i64 \<Rightarrow> i64 \<Rightarrow> i64" where
  "smax a b = (if sle a b then b else a)"

definition recover_family_edit :: "VersionEdit \<Rightarrow> family_state \<Rightarrow> family_state" where
  "recover_family_edit e s =
     (let (ctx, max_log, max_level_ts, files) = s;
          ctx = (if ve_has_seq_no e then set_last_seq (ve_seq_no e) ctx else ctx);
          ctx = (if ve_has_file_id e then set_file_id (ve_file_id e) ctx else ctx);
          files = foldl (\<lambda>files m. AList.delete (cm_file_id m) files) files (ve_del_files e);
          files = foldl (\<lambda>files m. AList.update (cm_file_id m) m files) files (ve_add_files e) in
      (ctx, max max_log (ve_seq_no e), smax max_level_ts (ve_max_level_ts e), files))"

fun recover_levels :: "bool \<Rightarrow> (u64 \<times> CompactMeta) list \<Rightarrow> (u32 \<times> LevelInfo) list \<Rightarrow> (TskvError, (u32 \<times> LevelInfo) list) result" where
  "recover_levels oc [] levels = Ok levels"
| "recover_levels oc ((fd, meta) # files) levels =
     (let info = (case map_of levels (cm_level meta) of Some info \<Rightarrow> info | None \<Rightarrow> level_init (cm_level meta)) in
      rbind (level_apply oc info meta) (\<lambda>info. recover_levels oc files (AList.update (cm_level meta) info levels)))"

fun recover_families ::
  "bool \<Rightarrow> HashOrder \<Rightarrow> (u32 \<times> string) list \<Rightarrow> (u32 \<times> VersionEdit list) list \<Rightarrow> GlobalContext \<Rightarrow> (u32 \<times> nat) list \<Rightarrow> Store \<Rightarrow>
   (TskvError, GlobalContext \<times> (u32 \<times> nat) list \<times> Store) result" where
  "recover_families oc ho tf_names [] ctx versions st = Ok (ctx, versions, st)"
| "recover_families oc ho tf_names ((tf_id, eds) # edits) ctx versions st =
     (case map_of tf_names tf_id of
        None \<Rightarrow> Panic
      | Some tsf_name \<Rightarrow>
          let (ctx, max_log, max_level_ts, files) = foldl (\<lambda>s e. recover_family_edit e s) (ctx, 0, i64_MIN, []) eds in
          rbind (recover_levels oc (ho_files ho files) []) (\<lambda>levels.
            let lvls = rev (map snd (ho_levels ho levels));
                ver = version_new tf_id max_log tsf_name lvls max_level_ts in
            recover_families oc ho tf_names edits ctx (AList.update tf_id (length (st_versions st)) versions)
              (st\<lparr>st_versions := st_versions st @ [ver]\<rparr>)))"

definition recover_version ::
  "bool \<Rightarrow> (bytes \<Rightarrow> u32) \<Rightarrow> Bincode \<Rightarrow> HashOrder \<Rightarrow> GlobalConfig \<Rightarrow> Reader \<Rightarrow> GlobalContext \<Rightarrow> Store \<Rightarrow>
   (TskvError, GlobalContext \<times> VersionSet \<times> Store) result option" where
  "recover_version oc crc bc ho cfg rd ctx st =
     (case recover_start oc cfg ctx of
        Ok rc \<Rightarrow>
          map_option (\<lambda>res. rbind res (\<lambda>rc.
            rbind (recover_families oc ho (rc_tf_names rc) (ho_edits ho (rc_edits rc)) (rc_ctx rc) [] st) (\<lambda>(ctx, versions, st).
              let (vs, st) = version_set_new cfg (rc_tf_cfg rc) (ho_versions ho versions) st in Ok (ctx, vs, st))))
            (recover_loop oc crc bc cfg rd rc)
      | Err e \<Rightarrow> Some (Err e)
      | Panic \<Rightarrow> Some Panic)"

subsection \<open>The summary\<close>

record Summary =
  su_file_no :: u64
  su_version_set :: VersionSet
  su_ctx :: GlobalContext
  su_writer :: Writer

text \<open>\<^verbatim>\<open>files\<close> gives the file at a path.\<close>

definition summary_recover ::
  "bool \<Rightarrow> (bytes \<Rightarrow> u32) \<Rightarrow> Bincode \<Rightarrow> HashOrder \<Rightarrow> GlobalConfig \<Rightarrow> DBOptions \<Rightarrow> (string \<Rightarrow> (TskvError, File) result) \<Rightarrow> Store \<Rightarrow>
   (TskvError, Summary \<times> Store) result option" where
  "summary_recover oc crc bc ho cfg db_opt files st =
     (case writer_new files (make_summary_file (db_path db_opt) 0) of
        Ok writer \<Rightarrow>
          (case reader_new files (make_summary_file (db_path db_opt) 0) of
             Ok rd \<Rightarrow>
               map_option (\<lambda>res. rbind res (\<lambda>(ctx, vs, st).
                 Ok (\<lparr>su_file_no = 0, su_version_set = vs, su_ctx = ctx, su_writer = writer\<rparr>, st)))
                 (recover_version oc crc bc ho cfg rd global_context_new st)
           | _ \<Rightarrow> Some Panic)
      | _ \<Rightarrow> Some Panic)"

definition write_edit ::
  "(bytes \<Rightarrow> u32) \<Rightarrow> Bincode \<Rightarrow> (File \<Rightarrow> (string, unit) result) \<Rightarrow> Writer \<Rightarrow> VersionEdit \<Rightarrow> (TskvError, Writer) result" where
  "write_edit crc bc sync_all w edit =
     rbind (version_edit_encode bc edit) (\<lambda>buf.
     rbind (map_err (\<lambda>_. ELogRecordErr '''') (write_record crc w 1 0 buf)) (\<lambda>(w, _).
     rbind (map_err (\<lambda>_. ELogRecordErr '''') (writer_sync sync_all w)) (\<lambda>_. Ok w)))"

definition summary_new ::
  "bool \<Rightarrow> (bytes \<Rightarrow> u32) \<Rightarrow> Bincode \<Rightarrow> HashOrder \<Rightarrow> GlobalConfig \<Rightarrow> (File \<Rightarrow> (string, unit) result) \<Rightarrow> DBOptions \<Rightarrow>
   (string \<Rightarrow> (TskvError, File) result) \<Rightarrow> Store \<Rightarrow> (TskvError, Summary \<times> Store) result option" where
  "summary_new oc crc bc ho cfg sync_all db_opt files st =
     (let path = make_summary_file (db_path db_opt) 0 in
      case writer_new files path of
        Ok w \<Rightarrow>
          (case write_edit crc bc sync_all w version_edit_new of
             Ok w \<Rightarrow> summary_recover oc crc bc ho cfg db_opt (files(path := Ok (wr_file w))) st
           | Err e \<Rightarrow> Some (Err e)
           | Panic \<Rightarrow> Some Panic)
      | _ \<Rightarrow> Some Panic)"

fun write_edits ::
  "(bytes \<Rightarrow> u32) \<Rightarrow> Bincode \<Rightarrow> (File \<Rightarrow> (string, unit) result) \<Rightarrow> Writer \<Rightarrow> VersionEdit list \<Rightarrow> (TskvError, Writer) result" where
  "write_edits crc bc sync_all w [] = Ok w"
| "write_edits crc bc sync_all w (edit # eds) = rbind (write_edit crc bc sync_all w edit) (\<lambda>w. write_edits crc bc sync_all w eds)"

definition apply_version_edit ::
  "(bytes \<Rightarrow> u32) \<Rightarrow> Bincode \<Rightarrow> (File \<Rightarrow> (string, unit) result) \<Rightarrow> Summary \<Rightarrow> VersionEdit list \<Rightarrow> (TskvError, Summary) result" where
  "apply_version_edit crc bc sync_all s eds = rbind (write_edits crc bc sync_all (su_writer s) eds) (\<lambda>w. Ok (s\<lparr>su_writer := w\<rparr>))"

definition MAX_BATCH_SIZE :: nat where "MAX_BATCH_SIZE = 64"

record SummaryProcesser =
  sp_summary :: Summary
  sp_cbs :: "nat list"
  sp_edits :: "VersionEdit list"

definition summary_processer_new :: "Summary \<Rightarrow> SummaryProcesser" where
  "summary_processer_new summary = \<lparr>sp_summary = summary, sp_cbs = [], sp_edits = []\<rparr>"

definition processer_batch :: "SummaryTask \<Rightarrow> SummaryProcesser \<Rightarrow> SummaryProcesser \<times> bool" where
  "processer_batch task p =
     (let need_apply = length (sp_edits p) > MAX_BATCH_SIZE;
          need_apply = (if length (task_edits task) = 1 \<and> (ve_del_tsf (task_edits task ! 0) \<or> ve_add_tsf (task_edits task ! 0))
                        then True else need_apply) in
      (p\<lparr>sp_edits := sp_edits p @ task_edits task, sp_cbs := sp_cbs p @ [task_cb task]\<rparr>, need_apply))"

text \<open>Applying the batch: the new state, and what is sent to each task.  When a write fails, what was written before it
  stays in the file; the model keeps the old writer.\<close>

definition processer_apply ::
  "(bytes \<Rightarrow> u32) \<Rightarrow> Bincode \<Rightarrow> (File \<Rightarrow> (string, unit) result) \<Rightarrow> SummaryProcesser \<Rightarrow>
   (TskvError, SummaryProcesser \<times> (nat \<times> (TskvError, unit) result) list) result" where
  "processer_apply crc bc sync_all p =
     (let edits = sp_edits p; p = p\<lparr>sp_edits := []\<rparr>; drained = p\<lparr>sp_cbs := []\<rparr> in
      case apply_version_edit crc bc sync_all (sp_summary p) edits of
        Ok s \<Rightarrow> Ok (drained\<lparr>sp_summary := s\<rparr>, map (\<lambda>cb. (cb, Ok ())) (sp_cbs p))
      | Err e \<Rightarrow> Ok (drained, map (\<lambda>cb. (cb, Err EErrApplyEdit)) (sp_cbs p))
      | Panic \<Rightarrow> Panic)"

subsection \<open>Abstract replay\<close>

text \<open>A catalog has, for each family, its name and the edits since it was added.\<close>

type_synonym Catalog = "u32 \<Rightarrow> (string \<times> VersionEdit list) option"

definition catalog_start :: "GlobalConfig \<Rightarrow> Catalog" where
  "catalog_start cfg = (\<lambda>i. if i < cfg_tsfamily_num cfg then Some (''default'' @ dec (unat i), []) else None)"

definition catalog_step :: "VersionEdit \<Rightarrow> Catalog \<Rightarrow> Catalog" where
  "catalog_step ed cat =
     (if ve_add_tsf ed then cat(ve_tsf_id ed \<mapsto> (ve_tsf_name ed, []))
      else if ve_del_tsf ed then cat(ve_tsf_id ed := None)
      else cat(ve_tsf_id ed := map_option (\<lambda>(name, es). (name, es @ [ed])) (cat (ve_tsf_id ed))))"

definition replay :: "GlobalConfig \<Rightarrow> VersionEdit list \<Rightarrow> Catalog" where
  "replay cfg eds = foldl (\<lambda>cat ed. catalog_step ed cat) (catalog_start cfg) eds"

text \<open>The files after a list of edits: the last addition of an id counts, unless a later edit deletes it.\<close>

definition edit_files :: "VersionEdit \<Rightarrow> (u64 \<rightharpoonup> CompactMeta) \<Rightarrow> (u64 \<rightharpoonup> CompactMeta)" where
  "edit_files e fs = (\<lambda>i. case List.find (\<lambda>m. cm_file_id m = i) (rev (ve_add_files e)) of
     Some m \<Rightarrow> Some m | None \<Rightarrow> if i \<in> cm_file_id ` set (ve_del_files e) then None else fs i)"

definition files_of :: "VersionEdit list \<Rightarrow> (u64 \<rightharpoonup> CompactMeta)" where
  "files_of es = foldl (\<lambda>fs e. edit_files e fs) Map.empty es"

text \<open>The files of levels, and a version that represents a list of edits.\<close>

definition level_files :: "LevelInfo list \<Rightarrow> (u32 \<times> ColumnFile) multiset" where
  "level_files ls = (\<Sum>l\<leftarrow>ls. image_mset (Pair (li_level l)) (mset (li_files l)))"

definition represents :: "BloomFilter \<Rightarrow> u32 \<Rightarrow> string \<Rightarrow> VersionEdit list \<Rightarrow> Version \<Rightarrow> bool" where
  "represents bloom i name es v \<longleftrightarrow> ver_id v = i \<and> ver_name v = name \<and> ver_last_seq v = Max (insert 0 (ve_seq_no ` set es)) \<and>
     sint (ver_max_level_ts v) = Max (insert (sint i64_MIN) ((\<lambda>e. sint (ve_max_level_ts e)) ` set es)) \<and>
     distinct (map li_level (ver_levels_info v)) \<and>
     level_files (ver_levels_info v) = {#(cm_level m, column_file_of bloom m). m \<in># mset_set (ran (files_of es))#}"

definition hash_orders :: "HashOrder \<Rightarrow> bool" where
  "hash_orders ho \<longleftrightarrow> (\<forall>xs. mset (ho_edits ho xs) = mset xs) \<and> (\<forall>xs. mset (ho_files ho xs) = mset xs) \<and>
     (\<forall>xs. mset (ho_levels ho xs) = mset xs) \<and> (\<forall>xs. mset (ho_versions ho xs) = mset xs)"

lemma distinct_update [simp]: "distinct (map fst al) \<Longrightarrow> distinct (map fst (AList.update k v al))"
  by (rule distinct_update)

lemma distinct_delete [simp]: "distinct (map fst al) \<Longrightarrow> distinct (map fst (AList.delete k al))"
  by (rule distinct_delete)

subsubsection \<open>From edits to the catalog\<close>

definition catalog :: "Recovery \<Rightarrow> Catalog" where
  "catalog rc i = Option.bind (map_of (rc_tf_names rc) i) (\<lambda>name. map_option (Pair name) (map_of (rc_edits rc) i))"

definition rc_wf :: "Recovery \<Rightarrow> bool" where
  "rc_wf rc \<longleftrightarrow> distinct (map fst (rc_edits rc)) \<and> dom (map_of (rc_edits rc)) = dom (map_of (rc_tf_names rc)) \<and>
     ran (map_of (rc_tf_names rc)) \<subseteq> td_name ` set (rc_tf_cfg rc)"

lemma ran_upd: "ran (m(k := x)) \<subseteq> ran m \<union> set_option x"
  by (auto simp: ran_def)

lemma rc_add:
  assumes "rc_wf rc" "rc_edits rc' = AList.update i [] (rc_edits rc)" "rc_tf_names rc' = AList.update i name (rc_tf_names rc)"
    "rc_tf_cfg rc' = rc_tf_cfg rc @ [\<lparr>td_name = name, td_opt = opt\<rparr>]"
  shows "rc_wf rc' \<and> catalog rc' = (catalog rc)(i \<mapsto> (name, []))"
proof -
  have "ran ((map_of (rc_tf_names rc))(i \<mapsto> name)) \<subseteq> insert name (td_name ` set (rc_tf_cfg rc))"
    using ran_upd[of "map_of (rc_tf_names rc)"] assms(1) unfolding rc_wf_def by fastforce
  then show ?thesis using assms(1)
    by (auto simp: rc_wf_def catalog_def[abs_def] fun_eq_iff assms(2-4) update_conv')
qed

lemma recover_edit_step:
  assumes "rc_wf rc"
  shows "rc_wf (recover_edit cfg ed rc) \<and> catalog (recover_edit cfg ed rc) = catalog_step ed (catalog rc)"
proof -
  consider "ve_add_tsf ed" | "\<not> ve_add_tsf ed" "ve_del_tsf ed" | "\<not> ve_add_tsf ed" "\<not> ve_del_tsf ed" by blast
  then show ?thesis
  proof cases
    case 1
    have "catalog_step ed (catalog rc) = (catalog rc)(ve_tsf_id ed \<mapsto> (ve_tsf_name ed, []))" using 1 by (simp add: catalog_step_def)
    then show ?thesis using rc_add[OF assms, of "recover_edit cfg ed rc"] 1 by (simp add: recover_edit_def)
  next
    case 2
    have "ran ((map_of (rc_tf_names rc))(ve_tsf_id ed := None)) \<subseteq> td_name ` set (rc_tf_cfg rc)"
      using ran_upd[of "map_of (rc_tf_names rc)"] assms unfolding rc_wf_def by fastforce
    then show ?thesis using assms 2 by (auto simp: recover_edit_def rc_wf_def catalog_step_def catalog_def[abs_def] fun_eq_iff delete_conv')
  next
    case 3
    show ?thesis
    proof (cases "map_of (rc_edits rc) (ve_tsf_id ed)")
      case None
      then show ?thesis using assms 3 by (auto simp: recover_edit_def catalog_step_def catalog_def[abs_def] fun_eq_iff bind_map_option comp_def)
    next
      case (Some es)
      then have "ve_tsf_id ed \<in> dom (map_of (rc_tf_names rc))" using assms unfolding rc_wf_def by blast
      then show ?thesis using assms 3 Some
        by (auto simp: recover_edit_def rc_wf_def catalog_step_def catalog_def[abs_def] fun_eq_iff update_conv')
    qed
  qed
qed

lemma recover_edits_foldl:
  assumes "rc_wf rc"
  shows "rc_wf (foldl (\<lambda>rc ed. recover_edit cfg ed rc) rc eds) \<and>
    catalog (foldl (\<lambda>rc ed. recover_edit cfg ed rc) rc eds) = foldl (\<lambda>cat ed. catalog_step ed cat) (catalog rc) eds"
  using assms by (induction eds arbitrary: rc) (simp_all add: recover_edit_step)

lemma recover_start_Ok:
  assumes "oc \<longrightarrow> cfg_tsfamily_num cfg \<noteq> 0"
  shows "\<exists>rc. recover_start oc cfg ctx = Ok rc \<and> rc_wf rc \<and> catalog rc = catalog_start cfg"
proof -
  let ?init = "\<lparr>rc_tf_cfg = [], rc_edits = [], rc_tf_names = [], rc_ctx = ctx\<rparr>"
  let ?run = "\<lambda>n. foldl (\<lambda>rc i. recover_default cfg (of_nat i) rc) ?init [0..<n]"
  have run: "rc_wf (?run n) \<and> catalog (?run n) = (\<lambda>i. if unat i < n then Some (''default'' @ dec (unat i), []) else None)"
    if "n \<le> unat (cfg_tsfamily_num cfg)" for n
    using that
  proof (induction n)
    case 0
    then show ?case by (simp add: rc_wf_def catalog_def)
  next
    case (Suc n)
    let ?i = "of_nat n :: u32" and ?rc = "?run n" and ?name = "''default'' @ dec n"
    have n: "n < 2 ^ 32" using Suc.prems unsigned_less[of "cfg_tsfamily_num cfg", where ?'a = nat] by simp
    then have i: "unat ?i = n" by (simp add: unsigned_of_nat take_bit_nat_eq_self)
    have run: "?run (Suc n) = recover_default cfg ?i ?rc" by simp
    have wf: "rc_wf ?rc" and cat: "catalog ?rc = (\<lambda>i. if unat i < n then Some (''default'' @ dec (unat i), []) else None)"
      using Suc by auto
    have "rc_wf (recover_default cfg ?i ?rc) \<and> catalog (recover_default cfg ?i ?rc) = (catalog ?rc)(?i \<mapsto> (?name, []))"
      by (rule rc_add[OF wf]) (simp_all add: recover_default_def Let_def i)
    moreover have "(unat j < Suc n) = (j = ?i \<or> unat j < n)" for j :: u32
      using i by (metis less_Suc_eq unsigned_word_eqI)
    ultimately show ?case unfolding run cat by (auto simp: fun_eq_iff i)
  qed
  let ?rc = "?run (unat (cfg_tsfamily_num cfg))"
  have "recover_start oc cfg ctx = Ok (?rc\<lparr>rc_ctx := set_max_tsf_idy (cfg_tsfamily_num cfg - 1) (rc_ctx ?rc)\<rparr>)"
    using assms by (auto simp: recover_start_def Let_def)
  then show ?thesis using run[OF order_refl]
    by (auto simp: rc_wf_def catalog_def catalog_start_def word_less_nat_alt fun_eq_iff)
qed

subsubsection \<open>From edits to a version\<close>

lemma map_of_add_files:
  "map_of (foldl (\<lambda>files m. AList.update (cm_file_id m) m files) files ms) i =
    (case List.find (\<lambda>m. cm_file_id m = i) (rev ms) of Some m \<Rightarrow> Some m | None \<Rightarrow> map_of files i)"
  by (induction ms rule: rev_induct) (auto simp: update_conv')

lemma map_of_del_files:
  "map_of (foldl (\<lambda>files m. AList.delete (cm_file_id m) files) files ms) i = (if i \<in> cm_file_id ` set ms then None else map_of files i)"
  by (induction ms rule: rev_induct) (auto simp: delete_conv')

lemma distinct_files:
  "distinct (map fst files) \<Longrightarrow> distinct (map fst (foldl (\<lambda>files m. AList.update (cm_file_id m) m files) files ms))"
  "distinct (map fst files) \<Longrightarrow> distinct (map fst (foldl (\<lambda>files m. AList.delete (cm_file_id m) files) files ms))"
  by (induction ms rule: rev_induct) auto

lemma sint_smax [simp]: "sint (smax a b) = max (sint a) (sint b)"
  by (simp add: smax_def max_def)

lemma recover_family_edits_Ok:
  "\<exists>ctx' log ts files. foldl (\<lambda>s e. recover_family_edit e s) (ctx, 0, i64_MIN, []) es = (ctx', log, ts, files) \<and>
    log = Max (insert 0 (ve_seq_no ` set es)) \<and> sint ts = Max (insert (sint i64_MIN) ((\<lambda>e. sint (ve_max_level_ts e)) ` set es)) \<and>
    distinct (map fst files) \<and> map_of files = files_of es"
proof (induction es rule: rev_induct)
  case Nil
  then show ?case by (simp add: files_of_def)
next
  case (snoc e es)
  then obtain ctx' log ts files where ih: "foldl (\<lambda>s e. recover_family_edit e s) (ctx, 0, i64_MIN, []) es = (ctx', log, ts, files)"
    "log = Max (insert 0 (ve_seq_no ` set es))" "sint ts = Max (insert (sint i64_MIN) ((\<lambda>e. sint (ve_max_level_ts e)) ` set es))"
    "distinct (map fst files)" "map_of files = files_of es" by blast
  let ?files = "foldl (\<lambda>files m. AList.update (cm_file_id m) m files)
    (foldl (\<lambda>files m. AList.delete (cm_file_id m) files) files (ve_del_files e)) (ve_add_files e)"
  have m: "map_of ?files = files_of (es @ [e])"
    using ih(5) by (auto simp: fun_eq_iff map_of_add_files map_of_del_files files_of_def edit_files_def split: option.splits)
  have d: "distinct (map fst ?files)" using ih(4) by (intro distinct_files)
  have "insert 0 (ve_seq_no ` set (es @ [e])) = insert (ve_seq_no e) (insert 0 (ve_seq_no ` set es))" by auto
  then have log: "max log (ve_seq_no e) = Max (insert 0 (ve_seq_no ` set (es @ [e])))"
    unfolding ih(2) by (simp add: max.commute)
  have "insert (sint i64_MIN) ((\<lambda>e. sint (ve_max_level_ts e)) ` set (es @ [e])) =
    insert (sint (ve_max_level_ts e)) (insert (sint i64_MIN) ((\<lambda>e. sint (ve_max_level_ts e)) ` set es))" by auto
  then have ts: "sint (smax ts (ve_max_level_ts e)) = Max (insert (sint i64_MIN) ((\<lambda>e. sint (ve_max_level_ts e)) ` set (es @ [e])))"
    using ih(3) by (simp add: max.commute del: sint_extremes)
  show ?case using ih(1) log ts m d by (auto simp: recover_family_edit_def Let_def simp del: sint_extremes)
qed

definition lf :: "(u32 \<times> LevelInfo) list \<Rightarrow> (u32 \<times> ColumnFile) multiset" where
  "lf levels = (\<Sum>(l, i)\<leftarrow>levels. image_mset (Pair l) (mset (li_files i)))"

lemma lf_update:
  assumes "case map_of levels l of None \<Rightarrow> li_files i = [f] | Some i0 \<Rightarrow> li_files i = li_files i0 @ [f]"
  shows "lf (AList.update l i levels) = add_mset (l, f) (lf levels)"
  using assms by (induction levels) (auto simp: lf_def)

definition levels_wf :: "bool \<Rightarrow> nat \<Rightarrow> (u32 \<times> LevelInfo) list \<Rightarrow> bool" where
  "levels_wf oc room levels \<longleftrightarrow> distinct (map fst levels) \<and>
     (\<forall>l i. map_of levels l = Some i \<longrightarrow> li_level i = l \<and> (oc \<longrightarrow> unat (li_cur_size i) + room < 2 ^ 64))"

lemma level_apply_Ok:
  assumes "new_bloom_filter = Ok bloom" "oc \<longrightarrow> unat (li_cur_size info) + unat (cm_file_size meta) < 2 ^ 64"
  shows "\<exists>info'. level_apply oc info meta = Ok info' \<and> li_files info' = li_files info @ [column_file_of bloom meta] \<and>
    li_level info' = li_level info \<and> (oc \<longrightarrow> unat (li_cur_size info') = unat (li_cur_size info) + unat (cm_file_size meta))"
proof -
  have "oc \<longrightarrow> unat (li_cur_size info + cm_file_size meta) = unat (li_cur_size info) + unat (cm_file_size meta)"
    using assms(2) using unat_add_lem[of "li_cur_size info" "cm_file_size meta"] by simp
  then show ?thesis using assms(2) unfolding level_apply_def assms(1) by (auto simp: Let_def add_u64_def)
qed

lemma recover_levels_Ok:
  assumes "new_bloom_filter = Ok bloom" "levels_wf oc (\<Sum>(_, m)\<leftarrow>files. unat (cm_file_size m)) levels"
    "oc \<longrightarrow> (\<Sum>(_, m)\<leftarrow>files. unat (cm_file_size m)) < 2 ^ 64"
  shows "\<exists>levels'. recover_levels oc files levels = Ok levels' \<and> levels_wf oc 0 levels' \<and>
    lf levels' = lf levels + {#(cm_level m, column_file_of bloom m). m \<in># mset (map snd files)#}"
  using assms(2,3)
proof (induction files arbitrary: levels)
  case Nil
  then show ?case by simp
next
  case (Cons x files)
  obtain fd meta where x: "x = (fd, meta)" by (cases x)
  define info where "info = (case map_of levels (cm_level meta) of Some info \<Rightarrow> info | None \<Rightarrow> level_init (cm_level meta))"
  let ?room = "\<Sum>(_, m)\<leftarrow>files. unat (cm_file_size m)"
  have info: "li_level info = cm_level meta" "oc \<longrightarrow> unat (li_cur_size info) + (unat (cm_file_size meta) + ?room) < 2 ^ 64"
    using Cons.prems by (auto simp: info_def levels_wf_def x level_init_def split: option.splits)
  then obtain info' where i': "level_apply oc info meta = Ok info'" "li_files info' = li_files info @ [column_file_of bloom meta]"
    "li_level info' = cm_level meta" "oc \<longrightarrow> unat (li_cur_size info') + ?room < 2 ^ 64"
    using level_apply_Ok[OF assms(1), of oc info meta] by auto
  let ?levels = "AList.update (cm_level meta) info' levels"
  have "levels_wf oc ?room ?levels"
    using Cons.prems(1) i'(3,4) by (fastforce simp: levels_wf_def update_conv' x)
  moreover have "oc \<longrightarrow> ?room < 2 ^ 64" using Cons.prems(2) by (auto simp: x)
  ultimately obtain levels' where l': "recover_levels oc files ?levels = Ok levels'" "levels_wf oc 0 levels'"
    "lf levels' = lf ?levels + {#(cm_level m, column_file_of bloom m). m \<in># mset (map snd files)#}"
    using Cons.IH by blast
  have "lf ?levels = add_mset (cm_level meta, column_file_of bloom meta) (lf levels)"
    using i'(2) by (intro lf_update) (simp add: info_def level_init_def split: option.splits)
  then show ?case using l' i'(1) by (simp add: x flip: info_def)
qed

lemma level_files_lf:
  assumes "levels_wf oc n levels" "mset (ls :: (u32 \<times> LevelInfo) list) = mset levels"
  shows "level_files (rev (map snd ls)) = lf levels" "distinct (map li_level (rev (map snd ls)))"
proof -
  have s: "set ls = set levels" using assms(2) by (rule mset_eq_setD)
  have d: "distinct (map fst levels)" and l: "(l, i) \<in> set levels \<Longrightarrow> li_level i = l" for l i
    using assms(1) by (auto simp: levels_wf_def)
  let ?g = "\<lambda>(l, i). image_mset (Pair l) (mset (li_files i))"
  have "level_files (rev (map snd ls)) = sum_mset (image_mset (\<lambda>i. image_mset (Pair (li_level i)) (mset (li_files i))) (image_mset snd (mset ls)))"
    unfolding level_files_def by (simp flip: sum_mset_sum_list)
  also have "\<dots> = sum_mset (image_mset ?g (mset levels))"
    unfolding assms(2) multiset.map_comp using l by (intro arg_cong[where f = sum_mset] image_mset_cong) auto
  finally show "level_files (rev (map snd ls)) = lf levels" by (simp add: lf_def flip: sum_mset_sum_list)
  have "map li_level (map snd ls) = map fst ls" using l s by auto
  moreover have "distinct (map fst ls)" using d assms(2) by (metis mset_eq_imp_distinct_iff mset_map)
  ultimately show "distinct (map li_level (rev (map snd ls)))" by (simp only: rev_map[symmetric] distinct_rev)
qed

text \<open>The sizes of the files of a family can be added up, when additions are checked.\<close>

definition sizes_fit :: "bool \<Rightarrow> VersionEdit list \<Rightarrow> bool" where
  "sizes_fit oc es \<longleftrightarrow> oc \<longrightarrow> (\<Sum>m \<in> ran (files_of es). unat (cm_file_size m)) < 2 ^ 64"

lemma files_of_id: "files_of es i = Some m \<Longrightarrow> cm_file_id m = i"
proof (induction es rule: rev_induct)
  case (snoc e es)
  then show ?case by (auto simp: files_of_def edit_files_def find_Some_iff split: option.splits if_splits)
qed (simp add: files_of_def)

lemma files_metas:
  assumes "distinct (map fst files)" "map_of files = files_of es"
  shows "mset (map snd files) = mset_set (ran (files_of es))"
proof -
  have ids: "cm_file_id m = i" if "(i, m) \<in> set files" for i m
    using that assms(1) files_of_id[of es i m] unfolding assms(2)[symmetric] by simp
  have "inj_on snd (set files)" by (rule inj_onI) (metis ids prod.collapse)
  then have "distinct (map snd files)" using assms(1) by (simp add: distinct_map)
  moreover have "ran (files_of es) = set (map snd files)" unfolding assms(2)[symmetric] using ran_distinct[OF assms(1)] by simp
  ultimately show ?thesis by (simp only: mset_set_set)
qed

lemma files_sizes:
  assumes "distinct (map fst files)" "map_of files = files_of es"
  shows "(\<Sum>(_, m)\<leftarrow>files. unat (cm_file_size m)) = (\<Sum>m \<in> ran (files_of es). unat (cm_file_size m))"
proof -
  have "(\<Sum>(_, m)\<leftarrow>files. unat (cm_file_size m)) = sum_mset (image_mset (\<lambda>m. unat (cm_file_size m)) (mset (map snd files)))"
    by (simp add: case_prod_unfold comp_def multiset.map_comp flip: sum_mset_sum_list)
  then show ?thesis unfolding files_metas[OF assms] by (simp add: sum_unfold_sum_mset)
qed

lemma recover_families_step:
  assumes "hash_orders ho" "new_bloom_filter = Ok bloom" "sizes_fit oc es"
  shows "\<exists>ctx' log ts files levels. foldl (\<lambda>s e. recover_family_edit e s) (ctx, 0, i64_MIN, []) es = (ctx', log, ts, files) \<and>
    recover_levels oc (ho_files ho files) [] = Ok levels \<and>
    represents bloom i name es (version_new i log name (rev (map snd (ho_levels ho levels))) ts)"
proof -
  obtain ctx' log ts files where f: "foldl (\<lambda>s e. recover_family_edit e s) (ctx, 0, i64_MIN, []) es = (ctx', log, ts, files)"
    "log = Max (insert 0 (ve_seq_no ` set es))" "sint ts = Max (insert (sint i64_MIN) ((\<lambda>e. sint (ve_max_level_ts e)) ` set es))"
    "distinct (map fst files)" "map_of files = files_of es"
    using recover_family_edits_Ok[of ctx es] by blast
  have perm: "mset (ho_files ho files) = mset files" using assms(1) by (simp add: hash_orders_def)
  have d: "distinct (map fst (ho_files ho files))" using f(4) perm by (metis mset_eq_imp_distinct_iff mset_map)
  have m: "map_of (ho_files ho files) = files_of es"
    using map_of_inject_set[OF d f(4)] mset_eq_setD[OF perm] f(5) by simp
  have "oc \<longrightarrow> (\<Sum>(_, m)\<leftarrow>ho_files ho files. unat (cm_file_size m)) < 2 ^ 64"
    using assms(3) files_sizes[OF d m] by (simp add: sizes_fit_def)
  then obtain levels where l: "recover_levels oc (ho_files ho files) [] = Ok levels" "levels_wf oc 0 levels"
    "lf levels = lf [] + {#(cm_level m, column_file_of bloom m). m \<in># mset (map snd (ho_files ho files))#}"
    using recover_levels_Ok[OF assms(2), of oc "ho_files ho files" "[]"] by (auto simp: levels_wf_def)
  have "lf levels = {#(cm_level m, column_file_of bloom m). m \<in># mset (map snd (ho_files ho files))#}"
    using l(3) by (simp add: lf_def)
  then have lf: "lf levels = {#(cm_level m, column_file_of bloom m). m \<in># mset_set (ran (files_of es))#}"
    unfolding files_metas[OF d m] .
  have "mset (ho_levels ho levels) = mset levels" using assms(1) by (simp add: hash_orders_def)
  note level_files_lf[OF l(2) this]
  then have "represents bloom i name es (version_new i log name (rev (map snd (ho_levels ho levels))) ts)"
    using f(2,3) lf by (simp add: represents_def version_new_def del: sint_extremes)
  then show ?thesis using f(1) l(1) by blast
qed

text \<open>A store that has more versions, and nothing else.\<close>

definition more_versions :: "Store \<Rightarrow> Store \<Rightarrow> bool" where
  "more_versions st st' \<longleftrightarrow> st_mems st' = st_mems st \<and> st_flush_req st' = st_flush_req st \<and>
     (\<exists>vs. st_versions st' = st_versions st @ vs)"

lemma recover_families_Ok:
  assumes "hash_orders ho" "new_bloom_filter = Ok bloom" "distinct (map fst edits)" "distinct (map fst versions)"
    "\<forall>(i, es) \<in> set edits. sizes_fit oc es \<and> map_of tf_names i \<noteq> None" "set (map fst versions) \<inter> set (map fst edits) = {}"
  shows "\<exists>ctx' versions' st'. recover_families oc ho tf_names edits ctx versions st = Ok (ctx', versions', st') \<and> more_versions st st' \<and>
    distinct (map fst versions') \<and> set (map fst versions') = set (map fst versions) \<union> set (map fst edits) \<and>
    (\<forall>i. i \<notin> set (map fst edits) \<longrightarrow> map_of versions' i = map_of versions i) \<and>
    (\<forall>(i, es) \<in> set edits. \<exists>a < length (st_versions st'). map_of versions' i = Some a \<and>
      represents bloom i (the (map_of tf_names i)) es (st_versions st' ! a))"
  using assms(3-6)
proof (induction edits arbitrary: ctx versions st)
  case Nil
  then show ?case by (simp add: more_versions_def)
next
  case (Cons x edits)
  obtain i es where x: "x = (i, es)" by (cases x)
  obtain name where name: "map_of tf_names i = Some name" using Cons.prems(3) by (auto simp: x)
  have fit: "sizes_fit oc es" using Cons.prems(3) by (simp add: x)
  obtain ctx1 log ts files levels where s: "foldl (\<lambda>s e. recover_family_edit e s) (ctx, 0, i64_MIN, []) es = (ctx1, log, ts, files)"
    "recover_levels oc (ho_files ho files) [] = Ok levels"
    "represents bloom i name es (version_new i log name (rev (map snd (ho_levels ho levels))) ts)"
    using recover_families_step[OF assms(1,2) fit] by blast
  let ?v = "version_new i log name (rev (map snd (ho_levels ho levels))) ts"
  let ?st = "st\<lparr>st_versions := st_versions st @ [?v]\<rparr>" and ?vs = "AList.update i (length (st_versions st)) versions"
  have keys: "set (map fst ?vs) = insert i (set (map fst versions))" by (simp add: dom_update)
  have "distinct (map fst edits)" "distinct (map fst ?vs)" "\<forall>(i, es) \<in> set edits. sizes_fit oc es \<and> map_of tf_names i \<noteq> None"
    "set (map fst ?vs) \<inter> set (map fst edits) = {}"
    using Cons.prems unfolding keys by (auto simp: x)
  from Cons.IH[OF this] obtain ctx' versions' st' where r:
    "recover_families oc ho tf_names edits ctx1 ?vs ?st = Ok (ctx', versions', st')" "more_versions ?st st'" "distinct (map fst versions')"
    "set (map fst versions') = set (map fst ?vs) \<union> set (map fst edits)"
    "\<forall>i. i \<notin> set (map fst edits) \<longrightarrow> map_of versions' i = map_of ?vs i"
    "\<forall>(i, es) \<in> set edits. \<exists>a < length (st_versions st'). map_of versions' i = Some a \<and>
      represents bloom i (the (map_of tf_names i)) es (st_versions st' ! a)" by blast
  have i: "i \<notin> set (map fst edits)" using Cons.prems(1) by (simp add: x)
  have st': "length (st_versions st) < length (st_versions st')" "st_versions st' ! length (st_versions st) = ?v"
    using r(2) by (auto simp: more_versions_def nth_append)
  have at: "map_of versions' i = Some (length (st_versions st))" using r(5) i by (simp add: update_conv')
  have "recover_families oc ho tf_names (x # edits) ctx versions st = Ok (ctx', versions', st')"
    using r(1) s(1,2) name by (simp add: x Let_def)
  moreover have "more_versions st st'" using r(2) by (auto simp: more_versions_def)
  moreover have "\<forall>j. j \<notin> set (map fst (x # edits)) \<longrightarrow> map_of versions' j = map_of versions j" using r(5) by (simp add: x update_conv')
  moreover have "\<exists>a < length (st_versions st'). map_of versions' i = Some a \<and> represents bloom i (the (map_of tf_names i)) es (st_versions st' ! a)"
    using st' at s(3) name by auto
  ultimately show ?case using r(3,4,6) keys by (auto simp: x)
qed

subsubsection \<open>From versions to families\<close>

definition store_ok :: "Store \<Rightarrow> bool" where
  "store_ok st \<longleftrightarrow> distinct (queued st) \<and> (\<forall>a \<in> set (queued st). a < length (st_mems st) \<and> mem_wf (st_mems st ! a))"

text \<open>Every family satisfies its invariant, and no two have a cache in common.\<close>

definition vs_wf :: "Store \<Rightarrow> VersionSet \<Rightarrow> bool" where
  "vs_wf st vs \<longleftrightarrow> distinct (map fst (vs_ts_families vs)) \<and>
     (\<forall>i tf. map_of (vs_ts_families vs) i = Some tf \<longrightarrow> family_wf [] st tf \<and> tf_tf_id tf = i) \<and>
     (\<forall>i j tf tf'. map_of (vs_ts_families vs) i = Some tf \<longrightarrow> map_of (vs_ts_families vs) j = Some tf' \<longrightarrow> i \<noteq> j \<longrightarrow>
       set (fam_addrs tf) \<inter> set (fam_addrs tf') = {})"

text \<open>A store that has more caches, and nothing else.\<close>

definition more_mems :: "Store \<Rightarrow> Store \<Rightarrow> bool" where
  "more_mems st st' \<longleftrightarrow> st_versions st' = st_versions st \<and> st_flush_req st' = st_flush_req st \<and> (\<exists>ms. st_mems st' = st_mems st @ ms)"

lemma more_memsD:
  assumes "more_mems st st'"
  shows "queued st' = queued st" "length (st_mems st) \<le> length (st_mems st')" "a < length (st_mems st) \<Longrightarrow> st_mems st' ! a = st_mems st ! a"
    "st_versions st' = st_versions st"
  using assms by (auto simp: more_mems_def queued_def nth_append)

lemma more_mems_trans: "more_mems st st1 \<Longrightarrow> more_mems st1 st2 \<Longrightarrow> more_mems st st2"
  by (auto simp: more_mems_def)

lemma family_wf_more_mems:
  assumes "family_wf others st tf" "more_mems st st'"
  shows "family_wf others st' tf"
proof -
  have "a < length (st_mems st') \<and> mem_wf (st_mems st' ! a)" if "a \<in> set (fam_addrs tf @ queued st @ others)" for a
  proof -
    have "a < length (st_mems st)" "mem_wf (st_mems st ! a)" using assms(1) that by (auto simp: family_wf_def)
    then show ?thesis using more_memsD(2,3)[OF assms(2)] by (metis order_less_le_trans)
  qed
  then show ?thesis using assms(1) more_memsD(1,4)[OF assms(2)] by (simp add: family_wf_def)
qed

lemma store_ok_more_mems:
  assumes "store_ok st" "more_mems st st'"
  shows "store_ok st'"
  using assms(1) more_memsD[OF assms(2)] unfolding store_ok_def by (metis order_less_le_trans)

lemma vs_insert_wf:
  assumes "vs_wf st vs" "store_ok st" "ver < length (st_versions st)"
    and "tseries_family_new cfg i name (mem_cache_new i sz seq False) ver opt st = (tf, st')"
  shows "vs_wf st' (vs_insert i name tf vs) \<and> more_mems st st' \<and> tf_version tf = ver"
proof -
  let ?n = "length (st_mems st)"
  have f: "family_wf [] st' tf \<and> tf_tf_id tf = i \<and> tf_version tf = ver"
    using tseries_family_new_wf[OF assms(4) mem_wf_new assms(3), of "[]"] assms(2) by (simp add: store_ok_def)
  have mm: "more_mems st st'" and addrs: "fam_addrs tf = [Suc ?n, ?n]"
    using assms(4) by (auto simp: tseries_family_new_def new_mem_def Let_def more_mems_def fam_addrs_def)
  have old: "set (fam_addrs tf) \<inter> set (fam_addrs tf') = {}" if "map_of (vs_ts_families vs) j = Some tf'" for j tf'
  proof -
    have "family_wf [] st tf'" using assms(1) that by (auto simp: vs_wf_def)
    then have "\<forall>a \<in> set (fam_addrs tf'). a < ?n" by (auto simp: family_wf_def)
    then show ?thesis unfolding addrs by auto
  qed
  have old': "set (fam_addrs tf') \<inter> set (fam_addrs tf) = {}" if "map_of (vs_ts_families vs) j = Some tf'" for j tf'
    using old[OF that] by (simp add: Int_commute)
  have "vs_wf st' (vs_insert i name tf vs)"
    using assms(1) f old old' family_wf_more_mems[OF _ mm]
    unfolding vs_wf_def by (simp add: vs_insert_def update_conv')
  then show ?thesis using mm f by blast
qed

definition installed :: "VersionSet \<Rightarrow> u32 \<Rightarrow> nat \<Rightarrow> bool" where
  "installed vs i ver \<longleftrightarrow> (\<exists>tf. map_of (vs_ts_families vs) i = Some tf \<and> tf_version tf = ver)"

lemma version_set_new_desc_wf:
  assumes "vs_wf st vs" "store_ok st" "ver < length (st_versions st)" "version_set_new_desc cfg i name seq ver desc (vs, st) = (vs', st')"
  shows "vs_wf st' vs' \<and> more_mems st st' \<and> (\<forall>j. j \<noteq> i \<longrightarrow> map_of (vs_ts_families vs') j = map_of (vs_ts_families vs) j) \<and>
    (name \<in> td_name ` set desc \<or> installed vs i ver \<longrightarrow> installed vs' i ver)"
  using assms
proof (induction desc arbitrary: vs st)
  case Nil
  then show ?case by (auto simp: more_mems_def)
next
  case (Cons item desc)
  show ?case
  proof (cases "td_name item = name")
    case False
    then show ?thesis using Cons.IH[OF Cons.prems(1-3)] Cons.prems(4) by simp
  next
    case True
    obtain tf st1 where tf: "tseries_family_new cfg i name (mem_cache_new i (cfg_max_memcache_size cfg) seq False) ver (td_opt item) st = (tf, st1)"
      by (rule prod.exhaust)
    have s: "vs_wf st1 (vs_insert i name tf vs)" "more_mems st st1" "tf_version tf = ver"
      using vs_insert_wf[OF Cons.prems(1-3) tf] by auto
    have "version_set_new_desc cfg i name seq ver desc (vs_insert i name tf vs, st1) = (vs', st')"
      using Cons.prems(4) True tf by simp
    moreover have "ver < length (st_versions st1)" using Cons.prems(3) more_memsD(4)[OF s(2)] by simp
    ultimately have "vs_wf st' vs'" "more_mems st1 st'"
      "\<forall>j. j \<noteq> i \<longrightarrow> map_of (vs_ts_families vs') j = map_of (vs_ts_families (vs_insert i name tf vs)) j"
      "installed (vs_insert i name tf vs) i ver \<longrightarrow> installed vs' i ver"
      using Cons.IH[OF s(1) store_ok_more_mems[OF Cons.prems(2) s(2)]] by auto
    moreover have "installed (vs_insert i name tf vs) i ver" using s(3) by (simp add: installed_def vs_insert_def update_conv')
    ultimately show ?thesis using more_mems_trans[OF s(2)] by (simp add: vs_insert_def update_conv')
  qed
qed

lemma version_set_new_loop_wf:
  assumes "vs_wf st vs" "store_ok st" "version_set_new_loop cfg desc vers (vs, st) = (vs', st')" "distinct (map fst vers)"
    "\<forall>(i, ver) \<in> set vers. ver < length (st_versions st) \<and> ver_name (st_versions st ! ver) \<in> td_name ` set desc"
  shows "vs_wf st' vs' \<and> more_mems st st' \<and> (\<forall>(i, ver) \<in> set vers. installed vs' i ver) \<and>
    (\<forall>j. j \<notin> set (map fst vers) \<longrightarrow> map_of (vs_ts_families vs') j = map_of (vs_ts_families vs) j)"
  using assms
proof (induction vers arbitrary: vs st)
  case Nil
  then show ?case by (auto simp: more_mems_def)
next
  case (Cons x vers)
  obtain i ver where x: "x = (i, ver)" by (cases x)
  let ?v = "st_versions st ! ver"
  obtain vs1 st1 where d: "version_set_new_desc cfg i (ver_name ?v) (ver_last_seq ?v) ver desc (vs, st) = (vs1, st1)" by (rule prod.exhaust)
  have s: "vs_wf st1 vs1" "more_mems st st1" "\<forall>j. j \<noteq> i \<longrightarrow> map_of (vs_ts_families vs1) j = map_of (vs_ts_families vs) j" "installed vs1 i ver"
    using version_set_new_desc_wf[OF Cons.prems(1,2) _ d] Cons.prems(5) by (auto simp: x)
  have "version_set_new_loop cfg desc vers (vs1, st1) = (vs', st')" using Cons.prems(3) d by (simp add: x Let_def)
  then have "vs_wf st' vs' \<and> more_mems st1 st' \<and> (\<forall>(i, ver) \<in> set vers. installed vs' i ver) \<and>
    (\<forall>j. j \<notin> set (map fst vers) \<longrightarrow> map_of (vs_ts_families vs') j = map_of (vs_ts_families vs1) j)"
    using Cons.prems(4,5) more_memsD(4)[OF s(2)]
    by (intro Cons.IH[OF s(1) store_ok_more_mems[OF Cons.prems(2) s(2)]]) (auto simp: x)
  then show ?case using s(3,4) more_mems_trans[OF s(2)] Cons.prems(4) by (auto simp: x installed_def)
qed

subsection \<open>Recovery implements the replay\<close>

definition recovered :: "BloomFilter \<Rightarrow> Catalog \<Rightarrow> VersionSet \<Rightarrow> Store \<Rightarrow> bool" where
  "recovered bloom cat vs st \<longleftrightarrow> vs_wf st vs \<and>
     (\<forall>i. case cat i of
            None \<Rightarrow> map_of (vs_ts_families vs) i = None
          | Some (name, es) \<Rightarrow> \<exists>tf. map_of (vs_ts_families vs) i = Some tf \<and> represents bloom i name es (st_versions st ! tf_version tf))"

lemma catalog_families_Ok:
  assumes "hash_orders ho" "new_bloom_filter = Ok bloom" "rc_wf rc" "\<forall>i name es. catalog rc i = Some (name, es) \<longrightarrow> sizes_fit oc es"
  shows "\<exists>ctx versions st'. recover_families oc ho (rc_tf_names rc) (ho_edits ho (rc_edits rc)) (rc_ctx rc) [] st = Ok (ctx, versions, st') \<and>
    more_versions st st' \<and> distinct (map fst versions) \<and> set (map fst versions) = dom (catalog rc) \<and>
    (\<forall>(i, a) \<in> set versions. \<exists>name es. catalog rc i = Some (name, es) \<and> a < length (st_versions st') \<and>
      represents bloom i name es (st_versions st' ! a) \<and> name \<in> td_name ` set (rc_tf_cfg rc))"
proof -
  let ?edits = "ho_edits ho (rc_edits rc)" and ?names = "rc_tf_names rc"
  have perm: "mset ?edits = mset (rc_edits rc)" using assms(1) by (simp add: hash_orders_def)
  have d: "distinct (map fst (rc_edits rc))" "dom (map_of (rc_edits rc)) = dom (map_of ?names)"
    "ran (map_of ?names) \<subseteq> td_name ` set (rc_tf_cfg rc)" using assms(3) by (auto simp: rc_wf_def)
  have de: "distinct (map fst ?edits)" using d(1) perm by (metis mset_eq_imp_distinct_iff mset_map)
  have me: "map_of ?edits = map_of (rc_edits rc)" using map_of_inject_set[OF de d(1)] mset_eq_setD[OF perm] by simp
  have ed: "\<exists>name. map_of ?names i = Some name \<and> catalog rc i = Some (name, es)" if "(i, es) \<in> set ?edits" for i es
  proof -
    have es: "map_of (rc_edits rc) i = Some es" using that de unfolding me[symmetric] by simp
    then obtain name where "map_of ?names i = Some name" using d(2) by blast
    then show ?thesis using es by (simp add: catalog_def)
  qed
  have "dom (catalog rc) = dom (map_of ?names) \<inter> dom (map_of (rc_edits rc))" by (auto simp: dom_def catalog_def bind_eq_Some_conv)
  then have dom: "set (map fst ?edits) = dom (catalog rc)" using d(2) dom_map_of_conv_image_fst[of ?edits] unfolding me by simp
  have "\<forall>(i, es) \<in> set ?edits. sizes_fit oc es \<and> map_of ?names i \<noteq> None" using ed assms(4) by fastforce
  then obtain ctx versions st' where f: "recover_families oc ho ?names ?edits (rc_ctx rc) [] st = Ok (ctx, versions, st')" "more_versions st st'"
    "distinct (map fst versions)" "set (map fst versions) = set (map fst ?edits)"
    "\<forall>(i, es) \<in> set ?edits. \<exists>a < length (st_versions st'). map_of versions i = Some a \<and> represents bloom i (the (map_of ?names i)) es (st_versions st' ! a)"
    using recover_families_Ok[OF assms(1,2) de, of "[]" oc ?names "rc_ctx rc" st] by auto
  have all: "\<exists>name es. catalog rc i = Some (name, es) \<and> a < length (st_versions st') \<and> represents bloom i name es (st_versions st' ! a) \<and>
      name \<in> td_name ` set (rc_tf_cfg rc)" if "(i, a) \<in> set versions" for i a
  proof -
    have "i \<in> set (map fst ?edits)" using that f(4) by force
    then obtain es where es: "(i, es) \<in> set ?edits" by auto
    obtain name where n: "map_of ?names i = Some name" "catalog rc i = Some (name, es)" using ed[OF es] by blast
    moreover have "map_of versions i = Some a" using that f(3) by simp
    moreover have "name \<in> td_name ` set (rc_tf_cfg rc)" using n(1) d(3) by (auto simp: ran_def)
    ultimately show ?thesis using f(5) es by fastforce
  qed
  show ?thesis by (intro exI conjI, rule f(1), rule f(2), rule f(3), rule f(4)[unfolded dom]) (use all in auto)
qed

lemma recover_versions_Ok:
  assumes "hash_orders ho" "store_ok st" "new_bloom_filter = Ok bloom" "rc_wf rc"
    "\<forall>i name es. catalog rc i = Some (name, es) \<longrightarrow> sizes_fit oc es"
  shows "\<exists>ctx versions st1 vs st2. recover_families oc ho (rc_tf_names rc) (ho_edits ho (rc_edits rc)) (rc_ctx rc) [] st = Ok (ctx, versions, st1) \<and>
    version_set_new cfg (rc_tf_cfg rc) (ho_versions ho versions) st1 = (vs, st2) \<and> recovered bloom (catalog rc) vs st2"
proof -
  obtain ctx versions st1 where f: "recover_families oc ho (rc_tf_names rc) (ho_edits ho (rc_edits rc)) (rc_ctx rc) [] st = Ok (ctx, versions, st1)"
    "more_versions st st1" "distinct (map fst versions)" "set (map fst versions) = dom (catalog rc)"
    "\<forall>(i, a) \<in> set versions. \<exists>name es. catalog rc i = Some (name, es) \<and> a < length (st_versions st1) \<and>
      represents bloom i name es (st_versions st1 ! a) \<and> name \<in> td_name ` set (rc_tf_cfg rc)"
    using catalog_families_Ok[OF assms(1,3-5), of st] by blast
  let ?vers = "ho_versions ho versions"
  have pv: "mset ?vers = mset versions" using assms(1) by (simp add: hash_orders_def)
  have dv: "distinct (map fst ?vers)" "set ?vers = set versions"
    using f(3) pv by (metis mset_eq_imp_distinct_iff mset_map, metis mset_eq_setD)
  obtain vs st2 where v: "version_set_new cfg (rc_tf_cfg rc) ?vers st1 = (vs, st2)" by (rule prod.exhaust)
  have ok1: "store_ok st1" "vs_wf st1 new_default"
    using assms(2) f(2) by (simp_all add: store_ok_def more_versions_def queued_def vs_wf_def new_default_def)
  have "\<forall>(i, a) \<in> set ?vers. a < length (st_versions st1) \<and> ver_name (st_versions st1 ! a) \<in> td_name ` set (rc_tf_cfg rc)"
    using f(5) unfolding dv(2) by (fastforce simp: represents_def)
  from version_set_new_loop_wf[OF ok1(2,1) v[unfolded version_set_new_def] dv(1) this]
  have r: "vs_wf st2 vs" "more_mems st1 st2" "\<forall>(i, a) \<in> set versions. installed vs i a"
    "\<forall>j. j \<notin> set (map fst versions) \<longrightarrow> map_of (vs_ts_families vs) j = None"
    using dv(2) by (auto simp: new_default_def)
  have "case catalog rc i of None \<Rightarrow> map_of (vs_ts_families vs) i = None
      | Some (name, es) \<Rightarrow> \<exists>tf. map_of (vs_ts_families vs) i = Some tf \<and> represents bloom i name es (st_versions st2 ! tf_version tf)" for i
  proof (cases "i \<in> set (map fst versions)")
    case True
    then obtain a where a: "(i, a) \<in> set versions" by auto
    then obtain tf where "map_of (vs_ts_families vs) i = Some tf" "tf_version tf = a" using r(3) by (auto simp: installed_def)
    moreover obtain name es where "catalog rc i = Some (name, es)" "represents bloom i name es (st_versions st1 ! a)" using f(5) a by blast
    ultimately show ?thesis using more_memsD(4)[OF r(2)] by auto
  next
    case False
    then have "catalog rc i = None" unfolding f(4) by (simp only: domIff not_not)
    then show ?thesis using r(4) False by simp
  qed
  then show ?thesis using f(1) v r(1) unfolding recovered_def by blast
qed

text \<open>The log of edits.  \<^verbatim>\<open>bincode\<close> is only asked to give back the edits that are logged.\<close>

definition edit_entry :: "Bincode \<Rightarrow> VersionEdit \<Rightarrow> Entry" where
  "edit_entry bc e = (1, 0, case bc_serialize bc e of Ok b \<Rightarrow> b | _ \<Rightarrow> [])"

definition codec_ok :: "Bincode \<Rightarrow> VersionEdit list \<Rightarrow> bool" where
  "codec_ok bc eds \<longleftrightarrow> (\<forall>e \<in> set eds. \<exists>b. bc_serialize bc e = Ok b \<and> bc_deserialize bc b = Ok e \<and> length b \<le> READER_BUF_SIZE)"

definition edit_log :: "(bytes \<Rightarrow> u32) \<Rightarrow> Bincode \<Rightarrow> VersionEdit list \<Rightarrow> bytes" where
  "edit_log crc bc eds = concat (map (framed crc) (map (edit_entry bc) eds))"

lemma recover_loop_log:
  assumes "reader_wf rd" "length (rd_buf rd) = READER_BUF_SIZE" "file_bytes (rd_file rd) = pre @ edit_log crc bc eds" "rd_pos rd = length pre" "codec_ok bc eds"
  shows "recover_loop oc crc bc cfg rd rc = Some (Ok (foldl (\<lambda>rc ed. recover_edit cfg ed rc) rc eds))"
  using assms
proof (induction eds arbitrary: rd pre rc)
  case Nil
  then obtain r' where "read_record oc crc rd = Some (r', Err Eof)" using read_record_end[of rd oc crc] by (auto simp: edit_log_def)
  then show ?case by (subst recover_loop.simps) simp
next
  case (Cons e eds)
  obtain b where b: "bc_serialize bc e = Ok b" "bc_deserialize bc b = Ok e" "length b \<le> READER_BUF_SIZE"
    using Cons.prems(5) by (auto simp: codec_ok_def)
  have ent: "edit_entry bc e = (1, 0, b)" by (simp add: edit_entry_def b(1))
  obtain r' where r': "read_record oc crc rd = Some (r', Ok (entry_record (length pre) (edit_entry bc e)))" "reader_wf r'" "rd_file r' = rd_file rd"
    "length (rd_buf r') = READER_BUF_SIZE" "rd_pos r' = length (pre @ framed crc (edit_entry bc e))"
    using read_record_framed[OF Cons.prems(1,2) _ Cons.prems(4), of crc "edit_entry bc e" "edit_log crc bc eds" oc] Cons.prems(3) b(3)
    by (auto simp: edit_log_def readable_def ent)
  have "version_edit_decode bc b = Ok e" by (simp add: version_edit_decode_def b(2))
  moreover have "recover_loop oc crc bc cfg r' (recover_edit cfg e rc) = Some (Ok (foldl (\<lambda>rc ed. recover_edit cfg ed rc) (recover_edit cfg e rc) eds))"
    using Cons.prems(3,5) r'(3-5) by (intro Cons.IH[OF r'(2)]) (auto simp: edit_log_def codec_ok_def simp del: framed.simps)
  ultimately show ?case using r'(1) by (subst recover_loop.simps) (simp add: ent)
qed

lemma write_edits_log:
  assumes "file_wf (wr_file w)" "codec_ok bc eds" "\<forall>f. sync_all f = Ok ()" "f_len (wr_file w) + length (edit_log crc bc eds) < f_cap (wr_file w)"
  shows "\<exists>w'. write_edits crc bc sync_all w eds = Ok w' \<and> file_wf (wr_file w') \<and> file_bytes (wr_file w') = file_bytes (wr_file w) @ edit_log crc bc eds"
  using assms
proof (induction eds arbitrary: w)
  case Nil
  then show ?case by (simp add: edit_log_def)
next
  case (Cons e eds)
  obtain b where b: "bc_serialize bc e = Ok b" "length b \<le> READER_BUF_SIZE" using Cons.prems(2) by (auto simp: codec_ok_def)
  then have "length b < 2 ^ 32" by (simp add: READER_BUF_SIZE_def)
  moreover have "f_len (wr_file w) + (14 + length b) < f_cap (wr_file w)" using Cons.prems(4) by (simp add: edit_log_def edit_entry_def b(1))
  ultimately obtain w1 where w1: "write_record crc w 1 0 b = Ok (w1, f_len (wr_file w))" "file_wf (wr_file w1)"
    "f_page_len (wr_file w1) = f_page_len (wr_file w)" "f_len (wr_file w1) = f_len (wr_file w) + (14 + length b)"
    "file_bytes (wr_file w1) = file_bytes (wr_file w) @ framed crc (1, 0, b)"
    using write_record_append[OF Cons.prems(1), of b crc 1 0] by blast
  have "write_edit crc bc sync_all w e = Ok w1"
    using w1(1) Cons.prems(3) b(1) by (simp add: write_edit_def version_edit_encode_def writer_sync_def)
  moreover obtain w' where "write_edits crc bc sync_all w1 eds = Ok w'" "file_wf (wr_file w')"
    "file_bytes (wr_file w') = file_bytes (wr_file w1) @ edit_log crc bc eds"
    using Cons.IH[OF w1(2) _ Cons.prems(3)] Cons.prems(2,4) w1(3,4) by (auto simp: codec_ok_def edit_log_def edit_entry_def b(1))
  ultimately show ?case using w1(5) by (auto simp: edit_log_def edit_entry_def b(1))
qed

text \<open>C2: The edits applied to a summary are durable and recovery implements their replay.  Applying edits to a summary
  succeeds, and recovering from its file gives exactly the families of the abstract replay of all edits that were
  ever logged: those of the configuration and those added since, without the deleted ones.  The version of each has
  the greatest logged sequence number and level timestamp, and its levels hold exactly the files that were added
  and not deleted later, each once, in the level of its description.  The result does not depend on the order of the
  hash maps, and the recovered families satisfy their invariant and share no cache.  The edits survive the
  serialisation and are at most 64 MiB long, the file has room, syncing succeeds, and in a build with overflow checks
  there is a configured family and the file sizes of a family can be added up.\<close>

theorem summary_recovers_replay:
  assumes "hash_orders ho" and "store_ok st" and "codec_ok bc (old @ eds)" and "\<forall>f. sync_all f = Ok ()"
    and "file_wf (wr_file (su_writer s))" and "file_bytes (wr_file (su_writer s)) = edit_log crc bc old"
    and "length (edit_log crc bc (old @ eds)) < f_page_len (wr_file (su_writer s)) * 2 ^ 32"
    and "oc \<longrightarrow> cfg_tsfamily_num cfg \<noteq> 0" and "\<forall>i name es. replay cfg (old @ eds) i = Some (name, es) \<longrightarrow> sizes_fit oc es"
  shows "\<exists>bloom s' s'' st'. new_bloom_filter = Ok bloom \<and> apply_version_edit crc bc sync_all s eds = Ok s' \<and>
    summary_recover oc crc bc ho cfg db_opt (\<lambda>_. Ok (wr_file (su_writer s'))) st = Some (Ok (s'', st')) \<and>
    recovered bloom (replay cfg (old @ eds)) (su_version_set s'') st'"
proof -
  let ?f = "wr_file (su_writer s)"
  obtain bloom where bloom: "new_bloom_filter = Ok bloom" using new_bloom_filter_Ok by blast
  have len: "f_len ?f = length (edit_log crc bc old)" using length_file_bytes[of ?f] unfolding assms(6) by simp
  have "codec_ok bc eds" using assms(3) by (simp add: codec_ok_def)
  moreover have "f_len ?f + length (edit_log crc bc eds) < f_cap ?f" using assms(7) by (simp add: len edit_log_def)
  ultimately obtain w' where w': "write_edits crc bc sync_all (su_writer s) eds = Ok w'" "file_wf (wr_file w')"
    "file_bytes (wr_file w') = edit_log crc bc (old @ eds)"
    using write_edits_log[OF assms(5) _ assms(4), of bc eds crc] unfolding assms(6) by (auto simp: edit_log_def)
  let ?path = "make_summary_file (db_path db_opt) 0"
  obtain rd where rd: "reader_new (\<lambda>_. Ok (wr_file w')) ?path = Ok rd" "reader_wf rd" "rd_file rd = wr_file w'" "rd_pos rd = 0"
    "length (rd_buf rd) = READER_BUF_SIZE" using reader_new_wf[OF w'(2), of ?path] by blast
  obtain rc where rc: "recover_start oc cfg global_context_new = Ok rc" "rc_wf rc" "catalog rc = catalog_start cfg"
    using recover_start_Ok[OF assms(8), of global_context_new] by blast
  let ?rc = "foldl (\<lambda>rc ed. recover_edit cfg ed rc) rc (old @ eds)"
  have loop: "recover_loop oc crc bc cfg rd rc = Some (Ok ?rc)"
    using recover_loop_log[OF rd(2,5), of "[]" crc bc "old @ eds"] rd(3,4) w'(3) assms(3) by simp
  have wf: "rc_wf ?rc" and cat: "catalog ?rc = replay cfg (old @ eds)"
    using recover_edits_foldl[OF rc(2), of cfg "old @ eds"] by (simp_all add: rc(3) replay_def)
  obtain ctx versions st1 vs st2 where v:
    "recover_families oc ho (rc_tf_names ?rc) (ho_edits ho (rc_edits ?rc)) (rc_ctx ?rc) [] st = Ok (ctx, versions, st1)"
    "version_set_new cfg (rc_tf_cfg ?rc) (ho_versions ho versions) st1 = (vs, st2)" "recovered bloom (catalog ?rc) vs st2"
    using recover_versions_Ok[OF assms(1,2) bloom wf, of oc cfg] assms(9) unfolding cat by blast
  have "recover_version oc crc bc ho cfg rd global_context_new st = Some (Ok (ctx, vs, st2))"
    using rc(1) loop v(1,2) by (simp add: recover_version_def del: foldl_append)
  then have "summary_recover oc crc bc ho cfg db_opt (\<lambda>_. Ok (wr_file w')) st =
      Some (Ok (\<lparr>su_file_no = 0, su_version_set = vs, su_ctx = ctx, su_writer = \<lparr>wr_path = ?path, wr_file = wr_file w'\<rparr>\<rparr>, st2))"
    using rd(1) by (simp add: summary_recover_def writer_new_def)
  moreover have "apply_version_edit crc bc sync_all s eds = Ok (s\<lparr>su_writer := w'\<rparr>)" using w'(1) by (simp add: apply_version_edit_def)
  ultimately show ?thesis using bloom v(3) unfolding cat by (intro exI conjI) (assumption | simp)+
qed

definition file_meta :: CompactMeta where
  "file_meta = \<lparr>cm_file_id = 11, cm_file_size = 100, cm_ts_min = 1, cm_ts_max = 9, cm_level = 0, cm_high_seq = 3, cm_low_seq = 1, cm_is_delta = False\<rparr>"

definition two_edits :: "VersionEdit list" where
  "two_edits = [edit_add_file 0 0 11 3 9 file_meta version_edit_new, edit_add_tsf 5 ''x'' 0 version_edit_new]"

definition table_codec :: Bincode where
  "table_codec =
     \<lparr>bc_serialize = (\<lambda>e. if e = two_edits ! 0 then Ok [1] else if e = two_edits ! 1 then Ok [2] else Err ''unknown''),
      bc_deserialize = (\<lambda>b. if b = [1] then Ok (two_edits ! 0) else if b = [2] then Ok (two_edits ! 1) else Err ''unknown'')\<rparr>"

lemma two_edits_replay:
  "replay config_toml two_edits = (\<lambda>i. if i = 0 then Some (''default'' @ dec 0, [two_edits ! 0]) else if i = 1 then Some (''default'' @ dec 1, [])
     else if i = 5 then Some (''x'', []) else None)"
proof -
  have "i < 2 \<longleftrightarrow> i = 0 \<or> i = 1" for i :: u32 by (auto simp: word_less_nat_alt word_unat_eq_iff)
  then show ?thesis
    by (auto simp: replay_def two_edits_def catalog_start_def catalog_step_def config_toml_def edit_add_file_def edit_add_tsf_def
        version_edit_new_def fun_eq_iff)
qed

lemma two_edits_codec: "codec_ok table_codec two_edits"
  by (auto simp: codec_ok_def table_codec_def two_edits_def edit_add_file_def edit_add_tsf_def version_edit_new_def READER_BUF_SIZE_def)

lemma two_edits_files: "files_of [two_edits ! 0] = [11 \<mapsto> file_meta]"
  by (auto simp: files_of_def edit_files_def two_edits_def edit_add_file_def version_edit_new_def file_meta_def fun_eq_iff)

theorem summary_recovers_replay_witness:
  "\<exists>bloom s' s'' st' tf.
    apply_version_edit (\<lambda>_. 0) table_codec (\<lambda>_. Ok ()) \<lparr>su_file_no = 0, su_version_set = new_default, su_ctx = global_context_new,
      su_writer = \<lparr>wr_path = ''s'', wr_file = blank_file 4096 0\<rparr>\<rparr> two_edits = Ok s' \<and>
    summary_recover True (\<lambda>_. 0) table_codec \<lparr>ho_edits = rev, ho_files = rev, ho_levels = rev, ho_versions = rev\<rparr> config_toml
      (db_options_default config_toml) (\<lambda>_. Ok (wr_file (su_writer s'))) store_init = Some (Ok (s'', st')) \<and>
    map_of (vs_ts_families (su_version_set s'')) 0 = Some tf \<and> ver_last_seq (st_versions st' ! tf_version tf) = 3 \<and>
    level_files (ver_levels_info (st_versions st' ! tf_version tf)) = {#(0, column_file_of bloom file_meta)#} \<and>
    map_of (vs_ts_families (su_version_set s'')) 5 \<noteq> None \<and> map_of (vs_ts_families (su_version_set s'')) 7 = None"
proof -
  let ?s = "\<lparr>su_file_no = 0, su_version_set = new_default, su_ctx = global_context_new, su_writer = \<lparr>wr_path = ''s'', wr_file = blank_file 4096 0\<rparr>\<rparr>"
  let ?ho = "\<lparr>ho_edits = rev, ho_files = rev, ho_levels = rev, ho_versions = rev\<rparr>"
  have ho: "hash_orders ?ho" by (simp add: hash_orders_def)
  have st: "store_ok store_init" by (simp add: store_ok_def store_init_def queued_def)
  have b: "file_wf (blank_file 4096 0)" "file_bytes (blank_file 4096 0) = []" using blank_file_wf by (auto simp: file_bytes_def blank_file_def)
  have "length (edit_log (\<lambda>_. 0) table_codec two_edits) = 30"
    by (simp add: edit_log_def edit_entry_def table_codec_def two_edits_def edit_add_file_def edit_add_tsf_def version_edit_new_def)
  then have sz: "length (edit_log (\<lambda>_. 0) table_codec ([] @ two_edits)) < f_page_len (blank_file 4096 0) * 2 ^ 32" by (simp add: blank_file_def)
  have fit: "\<forall>i name es. replay config_toml ([] @ two_edits) i = Some (name, es) \<longrightarrow> sizes_fit True es"
    using two_edits_files by (auto simp: two_edits_replay sizes_fit_def file_meta_def files_of_def[of "[]"] split: if_splits)
  obtain bloom s' s'' st' where r: "apply_version_edit (\<lambda>_. 0) table_codec (\<lambda>_. Ok ()) ?s two_edits = Ok s'"
    "summary_recover True (\<lambda>_. 0) table_codec ?ho config_toml (db_options_default config_toml) (\<lambda>_. Ok (wr_file (su_writer s'))) store_init = Some (Ok (s'', st'))"
    "recovered bloom (replay config_toml two_edits) (su_version_set s'') st'"
    using summary_recovers_replay[OF ho st, of table_codec "[]" two_edits "\<lambda>_. Ok ()" ?s "\<lambda>_. 0" True config_toml "db_options_default config_toml"]
      two_edits_codec b sz fit by (auto simp: edit_log_def config_toml_def)
  have at: "case replay config_toml two_edits i of None \<Rightarrow> map_of (vs_ts_families (su_version_set s'')) i = None
      | Some (name, es) \<Rightarrow> \<exists>tf. map_of (vs_ts_families (su_version_set s'')) i = Some tf \<and> represents bloom i name es (st_versions st' ! tf_version tf)" for i
    using r(3) by (simp add: recovered_def)
  obtain tf where tf: "map_of (vs_ts_families (su_version_set s'')) 0 = Some tf"
    "represents bloom 0 (''default'' @ dec 0) [two_edits ! 0] (st_versions st' ! tf_version tf)"
    using at[of 0] by (auto simp: two_edits_replay)
  have "ve_seq_no (two_edits ! 0) = 3" by (simp add: two_edits_def edit_add_file_def)
  then have "ver_last_seq (st_versions st' ! tf_version tf) = 3"
    "level_files (ver_levels_info (st_versions st' ! tf_version tf)) = {#(0, column_file_of bloom file_meta)#}"
    using tf(2) by (simp_all add: represents_def two_edits_files file_meta_def)
  moreover have "map_of (vs_ts_families (su_version_set s'')) 5 \<noteq> None" "map_of (vs_ts_families (su_version_set s'')) 7 = None"
    using at[of 5] at[of 7] by (auto simp: two_edits_replay)
  ultimately show ?thesis using r(1,2) tf(1) by blast
qed

subsection \<open>Lookups after the families have changed\<close>

text \<open>A lookup never returns a family whose id is not below the number of families.\<close>

lemma get_tsfamily_below:
  assumes "get_tsfamily sid vs = Ok (Some (i, tf))" "tsf_num vs < 2 ^ 32"
  shows "unat i < tsf_num vs"
proof -
  have n: "unat (of_nat (length (vs_ts_families vs)) :: u32) = length (vs_ts_families vs)"
    using assms(2) by (simp add: tsf_num_def unsigned_of_nat take_bit_nat_eq_self)
  have "i = ucast sid mod of_nat (length (vs_ts_families vs))" "(of_nat (length (vs_ts_families vs)) :: u32) \<noteq> 0"
    using assms(1) by (auto simp: get_tsfamily_def Let_def split: if_splits)
  moreover have "0 < length (vs_ts_families vs)" using assms(1) by (auto simp: get_tsfamily_def split: if_splits)
  ultimately show ?thesis using n by (simp add: tsf_num_def unat_mod)
qed

text \<open>The recovered sequence number is that of the family whose edits come last in the order of the hash map.\<close>

lemma recovered_last_seq_order:
  "\<exists>ctx. recover_families True \<lparr>ho_edits = rev, ho_files = rev, ho_levels = rev, ho_versions = rev\<rparr> [(0, ''a''), (1, ''b'')]
      [(0, [version_edit_new\<lparr>ve_has_seq_no := True, ve_seq_no := 5\<rparr>]), (1, [version_edit_new\<lparr>ve_has_seq_no := True, ve_seq_no := 3\<rparr>])]
      global_context_new [] store_init = Ok ctx \<and> gc_last_seq (fst ctx) = 3"
  by (simp add: recover_family_edit_def version_edit_new_def set_last_seq_def)

end
