(* ===== verification/Spec2Isabelle.thy ===== *)
theory Spec2Isabelle
  imports TsmIndex Tombstones PageLock LruCache Wal VersionSets
begin

text \<open>
  The sources under \<^verbatim>\<open>src/\<close> are a time series database.  A point written by a client is logged, put into
  a memory cache, and flushed into TSM files; a TSM file holds, per field, blocks of compressed timestamps
  and values and an index over them.  The files are read and written through a page cache.

  \<^bold>\<open>Conventions.\<close>  \<^verbatim>\<open>Prelude\<close> has the machine integers as words, the type \<^typ>\<open>('e, 'a) result\<close> whose three
  constructors are a value, an error and a panic, Rust's bounds-checked slices, and arithmetic under a flag
  \<^verbatim>\<open>oc\<close>, which is \<^verbatim>\<open>overflow-checks\<close> of the build profile: with it an overflow panics, without it the result
  wraps.  An \<^verbatim>\<open>f64\<close> is its bit pattern, a \<^verbatim>\<open>usize\<close> a natural number, a hash map a partial map, or an
  association list in its iteration order where the code iterates over it.  State is passed explicitly.

  \<^bold>\<open>Block coders\<close> (\<^verbatim>\<open>src/tskv/src/tsm/coders/\<close>).  \<^verbatim>\<open>Simple8b\<close>, \<^verbatim>\<open>Varint\<close>, \<^verbatim>\<open>IntegerCoder\<close>, \<^verbatim>\<open>TimestampCoder\<close>,
  \<^verbatim>\<open>UnsignedCoder\<close>, \<^verbatim>\<open>BooleanCoder\<close>, \<^verbatim>\<open>StringCoder\<close>, \<^verbatim>\<open>FloatCoder\<close> translate the encoders and decoders function by
  function; \<^verbatim>\<open>FloatRoundtrip\<close> reads the float format as a stream of bits.  Each has its round trip, with the
  exact set of inputs that are refused or panic.  The compressor of the string coder is a parameter.

  \<^bold>\<open>Models and utilities\<close> (\<^verbatim>\<open>src/models/\<close>, \<^verbatim>\<open>src/utils/\<close>).  \<^verbatim>\<open>Utils\<close> has the hash and the Bloom filter,
  \<^verbatim>\<open>Models\<close> the points, series and their ids, \<^verbatim>\<open>Errors\<close> the error type of the engine.

  \<^bold>\<open>Memory\<close> (\<^verbatim>\<open>src/tskv/src/memcache.rs\<close>, \<^verbatim>\<open>tsm/block.rs\<close>).  \<^verbatim>\<open>MemCache\<close> has the cache with the invariant on the
  bounds of an entry, \<^verbatim>\<open>Block\<close> the typed blocks and the merge of sorted blocks, in which the last block wins.

  \<^bold>\<open>Files\<close> (\<^verbatim>\<open>src/tskv/src/direct_io/\<close>).  \<^verbatim>\<open>DirectFile\<close> has files, the scopes and the cursors over pages, and
  views a file as its sequence of bytes; \<^verbatim>\<open>PageLock\<close> the lock word of a page as an interleaving of threads.
  The locale \<^verbatim>\<open>seq_writer\<close> is the interface the format writers use, interpreted on cursors.

  \<^bold>\<open>TSM files\<close> (\<^verbatim>\<open>src/tskv/src/tsm/\<close>, \<^verbatim>\<open>compaction/flush.rs\<close>).  \<^verbatim>\<open>TsmBlock\<close> writes blocks in pieces of a thousand
  values and reads them, through the locale \<^verbatim>\<open>column_coder\<close> that every coder interprets; \<^verbatim>\<open>TsmIndex\<close> has the
  header, index and footer and the whole file.  Listing an index takes one step per entry, so that the
  fuel of \<^verbatim>\<open>index_collect\<close> is one more than the number of pieces; the theorem on a whole file shows that
  this is enough.  \<^verbatim>\<open>Tombstones\<close> has the files of deleted ranges.

  \<^bold>\<open>Others.\<close>  \<^verbatim>\<open>FileUtils\<close> has the names of files, with the regular expressions as the locale
  \<^verbatim>\<open>name_patterns\<close>; \<^verbatim>\<open>LruCache\<close> the cache of \<^verbatim>\<open>lru_cache.rs\<close> on a heap of list nodes, which refines a list in
  order of use.

  \<^bold>\<open>Logs.\<close>  \<^verbatim>\<open>RecordFile\<close> (\<^verbatim>\<open>src/tskv/src/record_file/\<close>) has the framed records with their writer and the buffered
  reader that searches for the next magic number after damage; the reader refines a scan over the bytes of the
  file and ends on every file.  \<^verbatim>\<open>Wal\<close> (\<^verbatim>\<open>wal.rs\<close>) has the segments of the write-ahead log and their manager, with
  the round trip of logged entries up to the first empty one, and the loss of entries when a segment is rolled.

  \<^bold>\<open>Families and versions\<close> (\<^verbatim>\<open>src/tskv/src/tseries_family.rs\<close>, \<^verbatim>\<open>version_set.rs\<close>, \<^verbatim>\<open>summary.rs\<close>).  \<^verbatim>\<open>Options\<close> has the
  configuration and the global counters.  \<^verbatim>\<open>Versions\<close> has column files, levels and versions and reads a field of a
  file built by a flush.  \<^verbatim>\<open>Families\<close> has a family with its shared caches as addresses into a store and the queue of
  flush requests; the predicate \<^verbatim>\<open>family_wf\<close> is its invariant, and a write adds exactly one cell to the caches of
  the family and the queue, whatever is frozen or queued on the way.  \<^verbatim>\<open>VersionSets\<close> has the set of families, the
  edits of the summary file and the recovery from it, which implements the abstract function \<^verbatim>\<open>replay\<close> on the logged
  edits.  The loops over the records of a file are partial functions; the theorems show that they return.

  \<^bold>\<open>Not modelled.\<close>  The query layer, the server and the command line tools call external packages and hold no
  algorithm of their own; the generated protocol code, the system calls and the threads of the runtime
  are input and output.  The page cache of \<^verbatim>\<open>direct_io/cache.rs\<close> appears in \<^verbatim>\<open>DirectFile\<close> as the page images it
  delivers; its replacement policy is not modelled.  Of the compaction only the construction of a TSM file is
  modelled; the choice of files, the jobs that run it and the engine of \<^verbatim>\<open>kvcore.rs\<close> around it, the replay of the
  write-ahead log into the caches, the index of series in \<^verbatim>\<open>forward_index/\<close> and the schemas of \<^verbatim>\<open>schema.rs\<close> are not.
\<close>

end
